(* ===== verification/Tr_Prelude.thy ===== *)
theory Tr_Prelude
  imports Main "HOL-Library.Word"
begin

text \<open>
  The shared vocabulary of the development: the machine integer types of the C sources, the byte
  buffer operations that stand for \<open>memcpy\<close> and pointer offsets, the named collections the
  component proofs draw on, and the generic lemmas on lists and words they share.

  Conventions used by every component theory:
  \<^item> a C pointer argument that the code compares with \<open>NULL\<close> is an \<open>option\<close>,
    \<open>None\<close> being \<open>NULL\<close>;
  \<^item> an out-parameter is a cell of type \<open>'a option\<close>: \<open>None\<close> is the \<open>NULL\<close>
    pointer, \<open>Some v\<close> a cell that holds \<open>v\<close>; the function returns the cell as it leaves it;
  \<^item> a byte buffer is a \<open>u8 list\<close>, the pointer \<open>p + off\<close> into it is
    \<open>drop off p\<close>, and storing bytes at \<open>p + off\<close> is \<open>poke off\<close>;
  \<^item> a critical section under a mutex and a compare-and-swap loop are one atomic step.
\<close>

unbundle bit_operations_syntax

type_synonym u8 = "8 word"
type_synonym u16 = "16 word"
type_synonym u32 = "32 word"
type_synonym u64 = "64 word"
type_synonym size_t = "64 word"

abbreviation UINT32_MAX :: u32 where "UINT32_MAX \<equiv> 0xffffffff"
abbreviation UINT64_MAX :: u64 where "UINT64_MAX \<equiv> 0xffffffffffffffff"
abbreviation SIZE_MAX :: size_t where "SIZE_MAX \<equiv> 0xffffffffffffffff"

named_theorems codec_simps \<open>reading back the bytes a store has written\<close>
named_theorems field_offsets \<open>the byte offsets of the wire formats\<close>
named_theorems inv_defs \<open>the definitions of the component invariants\<close>

section \<open>Byte buffers\<close>

text \<open>\<open>poke off src dst\<close> is \<open>memcpy(dst + off, src, length src)\<close>,
  \<open>peek off n buf\<close> the \<open>n\<close> bytes at \<open>buf + off\<close>.\<close>

definition poke :: "nat \<Rightarrow> 'a list \<Rightarrow> 'a list \<Rightarrow> 'a list" where
  "poke off src dst = take off dst @ src @ drop (off + length src) dst"

definition peek :: "nat \<Rightarrow> nat \<Rightarrow> 'a list \<Rightarrow> 'a list" where
  "peek off n buf = take n (drop off buf)"

lemma length_poke [simp]:
  "off + length src \<le> length dst \<Longrightarrow> length (poke off src dst) = length dst"
  by (simp add: poke_def)

lemma length_peek [simp]: "off + n \<le> length buf \<Longrightarrow> length (peek off n buf) = n"
  by (simp add: peek_def)

lemma nth_poke:
  assumes "off + length src \<le> length dst" and "i < length dst"
  shows "poke off src dst ! i =
    (if i < off then dst ! i else if i < off + length src then src ! (i - off) else dst ! i)"
  using assms by (auto simp: poke_def nth_append min_def)

lemma peek_poke_same:
  "off + length src \<le> length dst \<Longrightarrow> n = length src \<Longrightarrow> peek off n (poke off src dst) = src"
  by (simp add: peek_def poke_def)

lemma peek_poke_other:
  assumes "off' + length src \<le> length dst" and "off + n \<le> length dst"
    and "off + n \<le> off' \<or> off' + length src \<le> off"
  shows "peek off n (poke off' src dst) = peek off n dst"
proof (rule nth_equalityI)
  show "length (peek off n (poke off' src dst)) = length (peek off n dst)"
    using assms by simp
next
  fix i assume "i < length (peek off n (poke off' src dst))"
  then have i: "i < n" using assms by simp
  then show "peek off n (poke off' src dst) ! i = peek off n dst ! i"
    using assms by (auto simp: peek_def nth_poke)
qed

lemma peek_nth: "off + n \<le> length buf \<Longrightarrow> i < n \<Longrightarrow> peek off n buf ! i = buf ! (off + i)"
  by (simp add: peek_def)

lemma poke_peek_same: "off + n \<le> length buf \<Longrightarrow> poke off (peek off n buf) buf = buf"
  unfolding poke_def peek_def
  by (metis append_take_drop_id drop_drop add.commute length_drop length_take min.absorb2
      Nat.le_diff_conv2 add_leD1)

lemma drop_peek_split: "m = off + n \<Longrightarrow> drop off buf = peek off n buf @ drop m buf"
  by (simp add: peek_def add.commute flip: drop_drop)

lemma poke_poke_same:
  assumes "off + length src' \<le> length dst" and "length src = length src'"
  shows "poke off src (poke off src' dst) = poke off src dst"
  using assms by (simp add: poke_def)

lemma take_poke_before: "k \<le> off \<Longrightarrow> off \<le> length dst \<Longrightarrow> take k (poke off src dst) = take k dst"
  by (simp add: poke_def)

lemma poke_append: "off + length src \<le> length a \<Longrightarrow> poke off src a @ b = poke off src (a @ b)"
  by (simp add: poke_def)

lemma peek_append: "off + n \<le> length a \<Longrightarrow> peek off n (a @ b) = peek off n a"
  by (simp add: peek_def)

section \<open>Machine integers\<close>

lemma unat_Suc_less:
  fixes x :: "'a::len word"
  assumes "unat x < n" and "n < 2 ^ LENGTH('a)"
  shows "unat (x + 1) = unat x + 1"
proof -
  have "unat x + 1 < 2 ^ LENGTH('a)" using assms by linarith
  then show ?thesis by (simp add: unat_word_ariths unsigned_1)
qed

lemma unat_add_less:
  fixes x y :: "'a::len word"
  assumes "unat x + unat y < 2 ^ LENGTH('a)"
  shows "unat (x + y) = unat x + unat y"
  using assms by (simp add: unat_word_ariths)

lemma unat_sub_le:
  fixes x y :: "'a::len word"
  assumes "y \<le> x"
  shows "unat (x - y) = unat x - unat y"
  using assms by (rule unat_sub)

lemma unat_lt_2p: "unat (x :: 'a::len word) < 2 ^ LENGTH('a)"
  by (rule unsigned_less)

lemma xor_right_cancel: "a XOR c = b XOR c \<longleftrightarrow> a = (b :: 'a::len word)"
  by (metis xor.assoc xor_self_eq xor.right_neutral)

lemma xor_left_cancel: "c XOR a = c XOR b \<longleftrightarrow> a = (b :: 'a::len word)"
  by (simp add: xor.commute [of c] xor_right_cancel)

lemma bit_u8_beyond [simp]: "8 \<le> n \<Longrightarrow> \<not> bit (a :: u8) n"
  and bit_u16_beyond [simp]: "16 \<le> n \<Longrightarrow> \<not> bit (b :: u16) n"
  and bit_u32_beyond [simp]: "32 \<le> n \<Longrightarrow> \<not> bit (c :: u32) n"
  and bit_u64_beyond [simp]: "64 \<le> n \<Longrightarrow> \<not> bit (d :: u64) n"
  using bit_imp_le_length [of a n] bit_imp_le_length [of b n] bit_imp_le_length [of c n]
    bit_imp_le_length [of d n] by auto

lemma ucast_u8_u32_u8 [simp]: "ucast (ucast (b :: u8) :: u32) = b"
  and ucast_u32_u64_u32 [simp]: "ucast (ucast (c :: u32) :: u64) = c"
  by (rule bit_word_eqI, simp add: bit_simps)+

lemma word_neq_0_unat: "(x :: 'a::len word) \<noteq> 0 \<longleftrightarrow> 0 < unat x"
  by (simp add: unat_gt_0)

text \<open>Widening and narrowing between the two widths the sources mix.\<close>

lemma unat_ucast_u32_u64 [simp]: "unat (ucast (x :: u32) :: u64) = unat x"
  using unat_lt_2p [of x] by (simp add: unsigned_ucast_eq take_bit_nat_eq_self)

lemma unat_ucast_u64_u32: "unat (ucast (x :: u64) :: u32) = unat x mod 2 ^ 32"
  by (simp add: unsigned_ucast_eq take_bit_eq_mod)

end
