(* ===== verification/Tr_Status.thy ===== *)
theory Tr_Status
  imports Tr_Prelude
begin

text \<open>
  The status codes of \<open>include/tr/status.h\<close> and their names (\<open>src/status.c\<close>). The
  enumeration is a datatype with the source's constructors; \<open>tr_status_code\<close> gives the C value
  and \<open>tr_status_str\<close> works on the C value, as the source does.
\<close>

datatype tr_status =
    TR_OK | TR_AGAIN | TR_FRAME_READY | TR_IN_PROGRESS
  | TR_ERR_INVALID | TR_ERR_NOMEM | TR_ERR_BAD_MAGIC | TR_ERR_BAD_VERSION
  | TR_ERR_BAD_TYPE | TR_ERR_BAD_FLAGS | TR_ERR_BAD_LENGTH | TR_ERR_HEADER_CRC
  | TR_ERR_PAYLOAD_CRC | TR_ERR_RESERVED | TR_ERR_STATE | TR_ERR_SYS
  | TR_ERR_CLOSED | TR_ERR_STALE | TR_ERR_UNSUPPORTED | TR_ERR_TIMEOUT

fun tr_status_code :: "tr_status \<Rightarrow> int" where
  "tr_status_code TR_OK = 0"
| "tr_status_code TR_AGAIN = 1"
| "tr_status_code TR_FRAME_READY = 2"
| "tr_status_code TR_IN_PROGRESS = 3"
| "tr_status_code TR_ERR_INVALID = -1"
| "tr_status_code TR_ERR_NOMEM = -2"
| "tr_status_code TR_ERR_BAD_MAGIC = -3"
| "tr_status_code TR_ERR_BAD_VERSION = -4"
| "tr_status_code TR_ERR_BAD_TYPE = -5"
| "tr_status_code TR_ERR_BAD_FLAGS = -6"
| "tr_status_code TR_ERR_BAD_LENGTH = -7"
| "tr_status_code TR_ERR_HEADER_CRC = -8"
| "tr_status_code TR_ERR_PAYLOAD_CRC = -9"
| "tr_status_code TR_ERR_RESERVED = -10"
| "tr_status_code TR_ERR_STATE = -11"
| "tr_status_code TR_ERR_SYS = -12"
| "tr_status_code TR_ERR_CLOSED = -13"
| "tr_status_code TR_ERR_STALE = -14"
| "tr_status_code TR_ERR_UNSUPPORTED = -15"
| "tr_status_code TR_ERR_TIMEOUT = -16"

definition tr_status_str :: "int \<Rightarrow> string" where
  "tr_status_str status =
     (if status = tr_status_code TR_OK then ''ok''
      else if status = tr_status_code TR_AGAIN then ''again''
      else if status = tr_status_code TR_FRAME_READY then ''frame-ready''
      else if status = tr_status_code TR_IN_PROGRESS then ''in-progress''
      else if status = tr_status_code TR_ERR_INVALID then ''invalid''
      else if status = tr_status_code TR_ERR_NOMEM then ''no-memory''
      else if status = tr_status_code TR_ERR_BAD_MAGIC then ''bad-magic''
      else if status = tr_status_code TR_ERR_BAD_VERSION then ''bad-version''
      else if status = tr_status_code TR_ERR_BAD_TYPE then ''bad-type''
      else if status = tr_status_code TR_ERR_BAD_FLAGS then ''bad-flags''
      else if status = tr_status_code TR_ERR_BAD_LENGTH then ''bad-length''
      else if status = tr_status_code TR_ERR_HEADER_CRC then ''header-crc''
      else if status = tr_status_code TR_ERR_PAYLOAD_CRC then ''payload-crc''
      else if status = tr_status_code TR_ERR_RESERVED then ''reserved''
      else if status = tr_status_code TR_ERR_STATE then ''bad-state''
      else if status = tr_status_code TR_ERR_SYS then ''system-error''
      else if status = tr_status_code TR_ERR_CLOSED then ''closed''
      else if status = tr_status_code TR_ERR_STALE then ''stale''
      else if status = tr_status_code TR_ERR_UNSUPPORTED then ''unsupported''
      else if status = tr_status_code TR_ERR_TIMEOUT then ''timeout''
      else ''unknown'')"

lemma tr_status_code_inject [simp]: "tr_status_code a = tr_status_code b \<longleftrightarrow> a = b"
  by (cases a; cases b; simp)

lemma tr_status_str_inject:
  "tr_status_str (tr_status_code a) = tr_status_str (tr_status_code b) \<longleftrightarrow> a = b"
  by (cases a; cases b; simp add: tr_status_str_def)

lemma tr_status_negative_iff_error:
  "tr_status_code s < 0 \<longleftrightarrow> s \<notin> {TR_OK, TR_AGAIN, TR_FRAME_READY, TR_IN_PROGRESS}"
  by (cases s) auto

text \<open>A chain of guards succeeds exactly when no guard fires.\<close>

lemma guard_ok: "e \<noteq> TR_OK \<Longrightarrow> (if c then e else s) = TR_OK \<longleftrightarrow> \<not> c \<and> s = TR_OK"
  by simp

end
