(* ===== verification/Tr_Endian.thy ===== *)
theory Tr_Endian
  imports Tr_Prelude
begin

text \<open>
  The little-endian accessors of \<open>src/endian.h\<close>. A getter reads the bytes at the start of the
  buffer it is given (the pointer \<open>p\<close>); a putter is the list of bytes it stores from \<open>p[0]\<close>
  on, and a store at \<open>out + off\<close> is \<open>poke off (tr_put_le16 v) out\<close>.

  The locale \<open>le_codec\<close> states what the wire formats rely on: a fixed width, and that reading
  undoes writing. It is interpreted for the three widths, and its lemmas give every field round
  trip of the header codecs.
\<close>

definition tr_get_le16 :: "u8 list \<Rightarrow> u16" where
  "tr_get_le16 p = ucast (p ! 0) OR push_bit 8 (ucast (p ! 1))"

definition tr_get_le32 :: "u8 list \<Rightarrow> u32" where
  "tr_get_le32 p = ucast (p ! 0) OR push_bit 8 (ucast (p ! 1)) OR push_bit 16 (ucast (p ! 2)) OR
     push_bit 24 (ucast (p ! 3))"

definition tr_get_le64 :: "u8 list \<Rightarrow> u64" where
  "tr_get_le64 p = ucast (p ! 0) OR push_bit 8 (ucast (p ! 1)) OR push_bit 16 (ucast (p ! 2)) OR
     push_bit 24 (ucast (p ! 3)) OR push_bit 32 (ucast (p ! 4)) OR push_bit 40 (ucast (p ! 5)) OR
     push_bit 48 (ucast (p ! 6)) OR push_bit 56 (ucast (p ! 7))"

definition tr_put_le16 :: "u16 \<Rightarrow> u8 list" where
  "tr_put_le16 v = [ucast v, ucast (drop_bit 8 v)]"

definition tr_put_le32 :: "u32 \<Rightarrow> u8 list" where
  "tr_put_le32 v = [ucast v, ucast (drop_bit 8 v), ucast (drop_bit 16 v), ucast (drop_bit 24 v)]"

definition tr_put_le64 :: "u64 \<Rightarrow> u8 list" where
  "tr_put_le64 v = [ucast v, ucast (drop_bit 8 v), ucast (drop_bit 16 v), ucast (drop_bit 24 v),
     ucast (drop_bit 32 v), ucast (drop_bit 40 v), ucast (drop_bit 48 v), ucast (drop_bit 56 v)]"

section \<open>The contract of a fixed-width codec\<close>

locale le_codec =
  fixes width :: nat and get :: "u8 list \<Rightarrow> 'w" and put :: "'w \<Rightarrow> u8 list"
  assumes length_put: "length (put v) = width"
    and get_put: "get (put v) = v"
    and put_get: "length bs = width \<Longrightarrow> put (get bs) = bs"
    and get_take: "width \<le> length bs \<Longrightarrow> get (take width bs) = get bs"
begin

lemma get_drop_peek:
  "off + width \<le> length buf \<Longrightarrow> get (drop off buf) = get (peek off width buf)"
  using get_take [of "drop off buf"] by (simp add: peek_def)

lemma get_put_append: "get (put v @ rest) = v"
  using get_take [of "put v @ rest"] by (simp add: length_put get_put)

lemma get_take_more: "width \<le> m \<Longrightarrow> width \<le> length bs \<Longrightarrow> get (take m bs) = get bs"
  using get_take [of "take m bs"] get_take [of bs] by (simp add: min_def)

lemma get_poke_same [codec_simps]:
  assumes "off + width \<le> length buf"
  shows "get (drop off (poke off (put v) buf)) = v"
  using assms by (simp add: get_drop_peek length_put peek_poke_same get_put)

lemma get_poke_other [codec_simps]:
  assumes "off' + length src \<le> length buf" and "off + width \<le> length buf"
    and "off + width \<le> off' \<or> off' + length src \<le> off"
  shows "get (drop off (poke off' src buf)) = get (drop off buf)"
  using assms by (simp add: get_drop_peek peek_poke_other)

lemma poke_get_same:
  assumes "off + width \<le> length buf"
  shows "poke off (put (get (drop off buf))) buf = buf"
  using assms by (simp add: get_drop_peek put_get poke_peek_same)

lemma put_get_drop:
  "off + width \<le> length buf \<Longrightarrow> put (get (drop off buf)) = peek off width buf"
  by (simp add: get_drop_peek put_get)

lemma put_inject: "put v = put w \<longleftrightarrow> v = w"
  by (metis get_put)

end

section \<open>The three widths\<close>

lemma list_of_length_2: "length xs = 2 \<Longrightarrow> xs = [xs ! 0, xs ! 1]"
  by (auto simp: numeral_2_eq_2 length_Suc_conv)

lemma list_of_length_4: "length xs = 4 \<Longrightarrow> xs = [xs ! 0, xs ! 1, xs ! 2, xs ! 3]"
  by (auto simp: eval_nat_numeral length_Suc_conv)

lemma list_of_length_8:
  "length xs = 8 \<Longrightarrow> xs = [xs ! 0, xs ! 1, xs ! 2, xs ! 3, xs ! 4, xs ! 5, xs ! 6, xs ! 7]"
  by (auto simp: eval_nat_numeral length_Suc_conv)

lemma tr_get_put_le16: "tr_get_le16 (tr_put_le16 v) = v"
  by (rule bit_word_eqI) (auto simp: tr_get_le16_def tr_put_le16_def bit_simps)

lemma tr_get_put_le32: "tr_get_le32 (tr_put_le32 v) = v"
proof (rule bit_word_eqI)
  fix n assume "n < LENGTH(32)"
  then consider "n < 8" | "8 \<le> n" "n < 16" | "16 \<le> n" "n < 24" | "24 \<le> n" "n < 32"
    by force
  then show "bit (tr_get_le32 (tr_put_le32 v)) n = bit v n"
    by cases (simp_all add: tr_get_le32_def tr_put_le32_def bit_simps less_diff_conv2)
qed

lemma tr_get_put_le64: "tr_get_le64 (tr_put_le64 v) = v"
proof (rule bit_word_eqI)
  fix n assume "n < LENGTH(64)"
  then consider "n < 8" | "8 \<le> n" "n < 16" | "16 \<le> n" "n < 24" | "24 \<le> n" "n < 32"
    | "32 \<le> n" "n < 40" | "40 \<le> n" "n < 48" | "48 \<le> n" "n < 56" | "56 \<le> n" "n < 64"
    by force
  then show "bit (tr_get_le64 (tr_put_le64 v)) n = bit v n"
    by cases (simp_all add: tr_get_le64_def tr_put_le64_def bit_simps less_diff_conv2)
qed

lemma tr_put_get_le16_bytes: "tr_put_le16 (tr_get_le16 [a, b]) = [a, b]"
  by (auto simp: tr_get_le16_def tr_put_le16_def bit_simps intro!: bit_word_eqI)

lemma tr_put_get_le32_bytes: "tr_put_le32 (tr_get_le32 [a, b, c, d]) = [a, b, c, d]"
  by (auto simp: tr_get_le32_def tr_put_le32_def bit_simps intro!: bit_word_eqI)

lemma tr_put_get_le64_bytes:
  "tr_put_le64 (tr_get_le64 [a, b, c, d, e, f, g, h]) = [a, b, c, d, e, f, g, h]"
  by (auto simp: tr_get_le64_def tr_put_le64_def bit_simps intro!: bit_word_eqI)

interpretation le16: le_codec 2 tr_get_le16 tr_put_le16
proof
  show "length (tr_put_le16 v) = 2" for v by (simp add: tr_put_le16_def)
  show "tr_get_le16 (tr_put_le16 v) = v" for v by (rule tr_get_put_le16)
  show "tr_put_le16 (tr_get_le16 bs) = bs" if "length bs = 2" for bs
    by (metis list_of_length_2 [OF that] tr_put_get_le16_bytes)
  show "tr_get_le16 (take 2 bs) = tr_get_le16 bs" if "2 \<le> length bs" for bs
    using that by (simp add: tr_get_le16_def)
qed

interpretation le32: le_codec 4 tr_get_le32 tr_put_le32
proof
  show "length (tr_put_le32 v) = 4" for v by (simp add: tr_put_le32_def)
  show "tr_get_le32 (tr_put_le32 v) = v" for v by (rule tr_get_put_le32)
  show "tr_put_le32 (tr_get_le32 bs) = bs" if "length bs = 4" for bs
    by (metis list_of_length_4 [OF that] tr_put_get_le32_bytes)
  show "tr_get_le32 (take 4 bs) = tr_get_le32 bs" if "4 \<le> length bs" for bs
    using that by (simp add: tr_get_le32_def)
qed

interpretation le64: le_codec 8 tr_get_le64 tr_put_le64
proof
  show "length (tr_put_le64 v) = 8" for v by (simp add: tr_put_le64_def)
  show "tr_get_le64 (tr_put_le64 v) = v" for v by (rule tr_get_put_le64)
  show "tr_put_le64 (tr_get_le64 bs) = bs" if "length bs = 8" for bs
    by (metis list_of_length_8 [OF that] tr_put_get_le64_bytes)
  show "tr_get_le64 (take 8 bs) = tr_get_le64 bs" if "8 \<le> length bs" for bs
    using that by (simp add: tr_get_le64_def)
qed

lemmas length_put_le [simp] = le16.length_put le32.length_put le64.length_put

lemmas get_put_append_le = le16.get_put_append le32.get_put_append le64.get_put_append

lemmas put_get_drop_le = le16.put_get_drop le32.put_get_drop le64.put_get_drop

lemmas poke_get_le = le16.poke_get_same le32.poke_get_same le64.poke_get_same

end
