(* ===== verification/Tr_Crc32c.thy ===== *)
theory Tr_Crc32c
  imports Tr_Endian
begin

text \<open>
  CRC32C (\<open>src/crc32c.c\<close>): the constant table, the portable table-driven update, the SSE4.2
  update, the dispatcher, and begin/finish. The CPU intrinsics are no code of the repository:
  they are the record \<open>crc32_cpu\<close>, and the locale \<open>sse42_isa\<close> states what the
  instruction set manual says of them.

  The reference is \<open>crc32c_ref\<close>, the bit-by-bit shift register for the reflected Castagnoli
  polynomial that the comment on the table describes. The lemmas show that the table, the portable
  update and the SSE4.2 update all compute it, that an update may be split at any point, and that
  the checksum is injective in the state and in each single byte, which is what the frame and
  route headers rely on to detect a corrupted byte.
\<close>

definition tr_crc32c_table :: "u32 list" where
  "tr_crc32c_table =
    [
     0x00000000, 0xf26b8303, 0xe13b70f7, 0x1350f3f4, 0xc79a971f, 0x35f1141c,
     0x26a1e7e8, 0xd4ca64eb, 0x8ad958cf, 0x78b2dbcc, 0x6be22838, 0x9989ab3b,
     0x4d43cfd0, 0xbf284cd3, 0xac78bf27, 0x5e133c24, 0x105ec76f, 0xe235446c,
     0xf165b798, 0x030e349b, 0xd7c45070, 0x25afd373, 0x36ff2087, 0xc494a384,
     0x9a879fa0, 0x68ec1ca3, 0x7bbcef57, 0x89d76c54, 0x5d1d08bf, 0xaf768bbc,
     0xbc267848, 0x4e4dfb4b, 0x20bd8ede, 0xd2d60ddd, 0xc186fe29, 0x33ed7d2a,
     0xe72719c1, 0x154c9ac2, 0x061c6936, 0xf477ea35, 0xaa64d611, 0x580f5512,
     0x4b5fa6e6, 0xb93425e5, 0x6dfe410e, 0x9f95c20d, 0x8cc531f9, 0x7eaeb2fa,
     0x30e349b1, 0xc288cab2, 0xd1d83946, 0x23b3ba45, 0xf779deae, 0x05125dad,
     0x1642ae59, 0xe4292d5a, 0xba3a117e, 0x4851927d, 0x5b016189, 0xa96ae28a,
     0x7da08661, 0x8fcb0562, 0x9c9bf696, 0x6ef07595, 0x417b1dbc, 0xb3109ebf,
     0xa0406d4b, 0x522bee48, 0x86e18aa3, 0x748a09a0, 0x67dafa54, 0x95b17957,
     0xcba24573, 0x39c9c670, 0x2a993584, 0xd8f2b687, 0x0c38d26c, 0xfe53516f,
     0xed03a29b, 0x1f682198, 0x5125dad3, 0xa34e59d0, 0xb01eaa24, 0x42752927,
     0x96bf4dcc, 0x64d4cecf, 0x77843d3b, 0x85efbe38, 0xdbfc821c, 0x2997011f,
     0x3ac7f2eb, 0xc8ac71e8, 0x1c661503, 0xee0d9600, 0xfd5d65f4, 0x0f36e6f7,
     0x61c69362, 0x93ad1061, 0x80fde395, 0x72966096, 0xa65c047d, 0x5437877e,
     0x4767748a, 0xb50cf789, 0xeb1fcbad, 0x197448ae, 0x0a24bb5a, 0xf84f3859,
     0x2c855cb2, 0xdeeedfb1, 0xcdbe2c45, 0x3fd5af46, 0x7198540d, 0x83f3d70e,
     0x90a324fa, 0x62c8a7f9, 0xb602c312, 0x44694011, 0x5739b3e5, 0xa55230e6,
     0xfb410cc2, 0x092a8fc1, 0x1a7a7c35, 0xe811ff36, 0x3cdb9bdd, 0xceb018de,
     0xdde0eb2a, 0x2f8b6829, 0x82f63b78, 0x709db87b, 0x63cd4b8f, 0x91a6c88c,
     0x456cac67, 0xb7072f64, 0xa457dc90, 0x563c5f93, 0x082f63b7, 0xfa44e0b4,
     0xe9141340, 0x1b7f9043, 0xcfb5f4a8, 0x3dde77ab, 0x2e8e845f, 0xdce5075c,
     0x92a8fc17, 0x60c37f14, 0x73938ce0, 0x81f80fe3, 0x55326b08, 0xa759e80b,
     0xb4091bff, 0x466298fc, 0x1871a4d8, 0xea1a27db, 0xf94ad42f, 0x0b21572c,
     0xdfeb33c7, 0x2d80b0c4, 0x3ed04330, 0xccbbc033, 0xa24bb5a6, 0x502036a5,
     0x4370c551, 0xb11b4652, 0x65d122b9, 0x97baa1ba, 0x84ea524e, 0x7681d14d,
     0x2892ed69, 0xdaf96e6a, 0xc9a99d9e, 0x3bc21e9d, 0xef087a76, 0x1d63f975,
     0x0e330a81, 0xfc588982, 0xb21572c9, 0x407ef1ca, 0x532e023e, 0xa145813d,
     0x758fe5d6, 0x87e466d5, 0x94b49521, 0x66df1622, 0x38cc2a06, 0xcaa7a905,
     0xd9f75af1, 0x2b9cd9f2, 0xff56bd19, 0x0d3d3e1a, 0x1e6dcdee, 0xec064eed,
     0xc38d26c4, 0x31e6a5c7, 0x22b65633, 0xd0ddd530, 0x0417b1db, 0xf67c32d8,
     0xe52cc12c, 0x1747422f, 0x49547e0b, 0xbb3ffd08, 0xa86f0efc, 0x5a048dff,
     0x8ecee914, 0x7ca56a17, 0x6ff599e3, 0x9d9e1ae0, 0xd3d3e1ab, 0x21b862a8,
     0x32e8915c, 0xc083125f, 0x144976b4, 0xe622f5b7, 0xf5720643, 0x07198540,
     0x590ab964, 0xab613a67, 0xb831c993, 0x4a5a4a90, 0x9e902e7b, 0x6cfbad78,
     0x7fab5e8c, 0x8dc0dd8f, 0xe330a81a, 0x115b2b19, 0x020bd8ed, 0xf0605bee,
     0x24aa3f05, 0xd6c1bc06, 0xc5914ff2, 0x37faccf1, 0x69e9f0d5, 0x9b8273d6,
     0x88d28022, 0x7ab90321, 0xae7367ca, 0x5c18e4c9, 0x4f48173d, 0xbd23943e,
     0xf36e6f75, 0x0105ec76, 0x12551f82, 0xe03e9c81, 0x34f4f86a, 0xc69f7b69,
     0xd5cf889d, 0x27a40b9e, 0x79b737ba, 0x8bdcb4b9, 0x988c474d, 0x6ae7c44e,
     0xbe2da0a5, 0x4c4623a6, 0x5f16d052, 0xad7d5351
    ]"

fun tr_crc32c_update_portable :: "u32 \<Rightarrow> u8 list \<Rightarrow> u32" where
  "tr_crc32c_update_portable state [] = state"
| "tr_crc32c_update_portable state (p # ps) =
     tr_crc32c_update_portable
       (drop_bit 8 state XOR tr_crc32c_table ! unat ((state XOR ucast p) AND 0xff)) ps"

record crc32_cpu =
  sse42_bit :: bool
  mm_crc32_u8 :: "u32 \<Rightarrow> u8 \<Rightarrow> u32"
  mm_crc32_u16 :: "u32 \<Rightarrow> u16 \<Rightarrow> u32"
  mm_crc32_u32 :: "u32 \<Rightarrow> u32 \<Rightarrow> u32"
  mm_crc32_u64 :: "u64 \<Rightarrow> u64 \<Rightarrow> u64"

text \<open>The loop over eight-byte words, then the four-, two- and one-byte tails. The \<open>memcpy\<close>
  into a word reads little-endian bytes on this target.\<close>

fun sse42_words :: "crc32_cpu \<Rightarrow> u32 \<Rightarrow> u8 list \<Rightarrow> u32 \<times> u8 list" where
  "sse42_words cpu state p =
     (if 8 \<le> length p
      then sse42_words cpu (ucast (mm_crc32_u64 cpu (ucast state) (tr_get_le64 p))) (drop 8 p)
      else (state, p))"

definition tr_crc32c_update_sse42 :: "crc32_cpu \<Rightarrow> u32 \<Rightarrow> u8 list \<Rightarrow> u32" where
  "tr_crc32c_update_sse42 cpu state p =
     (let (state, p) = sse42_words cpu state p;
          (state, p) = (if 4 \<le> length p then (mm_crc32_u32 cpu state (tr_get_le32 p), drop 4 p)
                        else (state, p));
          (state, p) = (if 2 \<le> length p then (mm_crc32_u16 cpu state (tr_get_le16 p), drop 2 p)
                        else (state, p))
      in if p \<noteq> [] then mm_crc32_u8 cpu state (p ! 0) else state)"

definition tr_crc32c_begin :: u32 where
  "tr_crc32c_begin = 0xffffffff"

text \<open>The dispatcher, in the build without SSE4.2 support and in the x86-64 build.\<close>

definition tr_crc32c_update :: "u32 \<Rightarrow> u8 list \<Rightarrow> u32" where
  "tr_crc32c_update state data = (if data = [] then state else tr_crc32c_update_portable state data)"

definition tr_crc32c_update_x86 :: "crc32_cpu \<Rightarrow> u32 \<Rightarrow> u8 list \<Rightarrow> u32" where
  "tr_crc32c_update_x86 cpu state data =
     (if data = [] then state
      else if sse42_bit cpu then tr_crc32c_update_sse42 cpu state data
      else tr_crc32c_update_portable state data)"

definition tr_crc32c_finish :: "u32 \<Rightarrow> u32" where
  "tr_crc32c_finish state = state XOR 0xffffffff"

definition tr_crc32c :: "u8 list \<Rightarrow> u32" where
  "tr_crc32c data = tr_crc32c_finish (tr_crc32c_update tr_crc32c_begin data)"

section \<open>The bit-serial reference\<close>

definition crc32c_bit :: "u32 \<Rightarrow> u32" where
  "crc32c_bit crc = drop_bit 1 crc XOR (if bit crc 0 then 0x82f63b78 else 0)"

definition crc32c_byte :: "u32 \<Rightarrow> u8 \<Rightarrow> u32" where
  "crc32c_byte state b = (crc32c_bit ^^ 8) (state XOR ucast b)"

definition crc32c_ref :: "u32 \<Rightarrow> u8 list \<Rightarrow> u32" where
  "crc32c_ref state data = foldl crc32c_byte state data"

lemma crc32c_ref_Nil [simp]: "crc32c_ref s [] = s"
  by (simp add: crc32c_ref_def)

lemma crc32c_ref_Cons [simp]: "crc32c_ref s (b # bs) = crc32c_ref (crc32c_byte s b) bs"
  by (simp add: crc32c_ref_def)

lemma crc32c_ref_append: "crc32c_ref s (xs @ ys) = crc32c_ref (crc32c_ref s xs) ys"
  by (simp add: crc32c_ref_def)

subsection \<open>The table\<close>

lemma crc32c_bits_8:
  "(crc32c_bit ^^ 8) x = crc32c_bit (crc32c_bit (crc32c_bit (crc32c_bit
     (crc32c_bit (crc32c_bit (crc32c_bit (crc32c_bit x)))))))"
  by (simp add: eval_nat_numeral)

fun table_from :: "u32 \<Rightarrow> u32 list \<Rightarrow> bool" where
  "table_from i [] = True"
| "table_from i (t # ts) = (t = (crc32c_bit ^^ 8) i \<and> table_from (i + 1) ts)"

lemma table_from_nth: "table_from i ts \<Longrightarrow> k < length ts \<Longrightarrow> ts ! k = (crc32c_bit ^^ 8) (i + of_nat k)"
  by (induction i ts arbitrary: k rule: table_from.induct)
    (auto simp: nth_Cons add.assoc split: nat.splits)

lemma crc32c_table_from: "table_from 0 tr_crc32c_table"
  by (simp add: tr_crc32c_table_def crc32c_bits_8 crc32c_bit_def)

lemma length_crc32c_table [simp]: "length tr_crc32c_table = 256"
  by (simp add: tr_crc32c_table_def)

lemma crc32c_table_nth: "i < 256 \<Longrightarrow> tr_crc32c_table ! i = (crc32c_bit ^^ 8) (of_nat i)"
  using table_from_nth [OF crc32c_table_from] by simp

subsection \<open>The register is linear\<close>

lemma crc32c_bit_xor: "crc32c_bit (a XOR b) = crc32c_bit a XOR crc32c_bit b"
  by (rule bit_word_eqI) (auto simp: crc32c_bit_def bit_simps)

lemma crc32c_bits_xor: "(crc32c_bit ^^ n) (a XOR b) = (crc32c_bit ^^ n) a XOR (crc32c_bit ^^ n) b"
  by (induction n) (simp_all add: crc32c_bit_xor)

lemma crc32c_bit_even: "\<not> bit s 0 \<Longrightarrow> crc32c_bit s = drop_bit 1 s"
  by (simp add: crc32c_bit_def)

lemma crc32c_bits_zeros:
  "(\<forall>i<n. \<not> bit s i) \<Longrightarrow> (crc32c_bit ^^ n) s = drop_bit n s"
proof (induction n)
  case (Suc n)
  then have "(crc32c_bit ^^ Suc n) s = crc32c_bit (drop_bit n s)" and "\<not> bit s n" by auto
  then show ?case by (simp add: crc32c_bit_even bit_simps)
qed simp

lemma u32_ff_mask: "(0xff :: u32) = mask 8"
  by (simp add: mask_eq_exp_minus_1)

lemma crc32c_byte_table:
  "crc32c_byte s b = drop_bit 8 s XOR tr_crc32c_table ! unat ((s XOR ucast b) AND 0xff)"
proof -
  let ?x = "s XOR ucast b"
  have split: "?x = (?x AND NOT (mask 8)) XOR (?x AND mask 8)"
    by (rule bit_word_eqI) (auto simp: bit_simps)
  have low: "unat (?x AND mask 8) < 256"
  proof -
    have "unat (?x AND 0xff) \<le> unat (0xff :: u32)"
      by (rule word_and_le1 [THEN word_le_nat_alt [THEN iffD1]])
    then have "unat (?x AND 0xff) < 256" by simp
    then show ?thesis unfolding u32_ff_mask .
  qed
  have zeros: "\<forall>i<8. \<not> bit (?x AND NOT (mask 8)) i"
    by (auto simp: bit_simps)
  have high: "drop_bit 8 (?x AND NOT (mask 8)) = drop_bit 8 s"
    by (rule bit_word_eqI) (auto simp: bit_simps dest: bit_imp_le_length)
  have "crc32c_byte s b =
      (crc32c_bit ^^ 8) (?x AND NOT (mask 8)) XOR (crc32c_bit ^^ 8) (?x AND mask 8)"
    unfolding crc32c_byte_def by (subst split) (rule crc32c_bits_xor)
  also have "(crc32c_bit ^^ 8) (?x AND NOT (mask 8)) = drop_bit 8 s"
    using crc32c_bits_zeros [OF zeros] high by simp
  also have "(crc32c_bit ^^ 8) (?x AND mask 8) = tr_crc32c_table ! unat (?x AND mask 8)"
    by (simp add: crc32c_table_nth [OF low])
  finally show ?thesis by (simp add: u32_ff_mask)
qed

lemma tr_crc32c_update_portable_ref: "tr_crc32c_update_portable s bs = crc32c_ref s bs"
  by (induction s bs rule: tr_crc32c_update_portable.induct) (simp_all add: crc32c_byte_table)

lemma tr_crc32c_update_ref: "tr_crc32c_update s bs = crc32c_ref s bs"
  by (simp add: tr_crc32c_update_def tr_crc32c_update_portable_ref)

lemma tr_crc32c_update_append:
  "tr_crc32c_update (tr_crc32c_update s xs) ys = tr_crc32c_update s (xs @ ys)"
  by (simp add: tr_crc32c_update_ref crc32c_ref_append)

section \<open>The SSE4.2 instruction\<close>

text \<open>What the instruction set manual says of the \<open>crc32\<close> instruction: it advances the
  register by the operand's bytes, lowest first; the 64-bit form works on the low half of the
  register and clears the high half.\<close>

locale sse42_isa =
  fixes i8 :: "u32 \<Rightarrow> u8 \<Rightarrow> u32" and i16 :: "u32 \<Rightarrow> u16 \<Rightarrow> u32"
    and i32 :: "u32 \<Rightarrow> u32 \<Rightarrow> u32" and i64 :: "u64 \<Rightarrow> u64 \<Rightarrow> u64"
  assumes i8: "i8 s b = crc32c_byte s b"
    and i16: "i16 s w = crc32c_ref s (tr_put_le16 w)"
    and i32: "i32 s v = crc32c_ref s (tr_put_le32 v)"
    and i64: "i64 (ucast s) x = ucast (crc32c_ref s (tr_put_le64 x))"
begin

lemma i16_bytes: "2 \<le> length p \<Longrightarrow> i16 s (tr_get_le16 p) = crc32c_ref s (take 2 p)"
  by (metis i16 le16.get_take le16.put_get length_take min.absorb2)

lemma i32_bytes: "4 \<le> length p \<Longrightarrow> i32 s (tr_get_le32 p) = crc32c_ref s (take 4 p)"
  by (metis i32 le32.get_take le32.put_get length_take min.absorb2)

lemma i64_bytes:
  assumes "8 \<le> length p"
  shows "ucast (i64 (ucast s) (tr_get_le64 p)) = crc32c_ref s (take 8 p)"
proof -
  have "tr_put_le64 (tr_get_le64 p) = take 8 p"
    using assms by (metis le64.get_take le64.put_get length_take min.absorb2)
  then show ?thesis by (simp add: i64)
qed

end

declare sse42_words.simps [simp del]

lemma crc32c_ref_take_drop: "crc32c_ref (crc32c_ref s (take n p)) (drop n p) = crc32c_ref s p"
  by (simp flip: crc32c_ref_append)

lemma sse42_words_ref:
  assumes "sse42_isa (mm_crc32_u8 cpu) (mm_crc32_u16 cpu) (mm_crc32_u32 cpu) (mm_crc32_u64 cpu)"
    and "sse42_words cpu s p = (s', p')"
  shows "crc32c_ref s' p' = crc32c_ref s p"
  using assms
proof (induction cpu s p rule: sse42_words.induct)
  case (1 cpu s p)
  then show ?case
    by (auto simp: sse42_words.simps [of cpu s p] sse42_isa.i64_bytes crc32c_ref_take_drop
        split: if_splits)
qed

lemma sse42_words_short: "sse42_words cpu s p = (s', p') \<Longrightarrow> length p' < 8"
proof (induction cpu s p rule: sse42_words.induct)
  case (1 cpu s p)
  then show ?case by (auto simp: sse42_words.simps [of cpu s p] split: if_splits)
qed

lemma tr_crc32c_update_sse42_ref:
  assumes "sse42_isa (mm_crc32_u8 cpu) (mm_crc32_u16 cpu) (mm_crc32_u32 cpu) (mm_crc32_u64 cpu)"
  shows "tr_crc32c_update_sse42 cpu s p = crc32c_ref s p"
proof -
  obtain s1 p1 where w: "sse42_words cpu s p = (s1, p1)" by fastforce
  define s2 p2 where 2: "s2 = (if 4 \<le> length p1 then mm_crc32_u32 cpu s1 (tr_get_le32 p1) else s1)"
    "p2 = (if 4 \<le> length p1 then drop 4 p1 else p1)"
  define s3 p3 where 3: "s3 = (if 2 \<le> length p2 then mm_crc32_u16 cpu s2 (tr_get_le16 p2) else s2)"
    "p3 = (if 2 \<le> length p2 then drop 2 p2 else p2)"
  have short: "length p1 < 8" using w by (rule sse42_words_short)
  have "crc32c_ref s p = crc32c_ref s1 p1" using sse42_words_ref [OF assms w] by simp
  also have "\<dots> = crc32c_ref s2 p2"
    by (simp add: 2 sse42_isa.i32_bytes [OF assms] crc32c_ref_take_drop)
  also have "\<dots> = crc32c_ref s3 p3"
    by (simp add: 3 sse42_isa.i16_bytes [OF assms] crc32c_ref_take_drop)
  also have "\<dots> = (if p3 \<noteq> [] then mm_crc32_u8 cpu s3 (p3 ! 0) else s3)"
  proof -
    have "length p3 < 2" using short by (auto simp: 2 3)
    then show ?thesis by (cases p3) (auto simp: sse42_isa.i8 [OF assms])
  qed
  also have "\<dots> = tr_crc32c_update_sse42 cpu s p"
    by (auto simp: tr_crc32c_update_sse42_def w 2 3)
  finally show ?thesis by simp
qed

section \<open>Injectivity\<close>

text \<open>Bit 31 of the polynomial is set and the shifted register has bit 31 clear, so the new top
  bit tells which branch the register took: a step can be undone.\<close>

lemma crc32c_bit_top: "bit (crc32c_bit s) 31 = bit s 0"
  by (simp add: crc32c_bit_def bit_simps)

lemma crc32c_bit_inject: "crc32c_bit a = crc32c_bit b \<longleftrightarrow> a = b"
proof
  assume eq: "crc32c_bit a = crc32c_bit b"
  then have low: "bit a 0 = bit b 0" by (metis crc32c_bit_top)
  then have sh: "drop_bit 1 a = drop_bit 1 b"
    using eq by (simp only: crc32c_bit_def xor_right_cancel)
  show "a = b"
  proof (rule bit_word_eqI)
    fix n
    show "bit a n = bit b n"
    proof (cases n)
      case (Suc m)
      then show ?thesis using arg_cong [OF sh, of "\<lambda>w. bit w m"] by (simp add: bit_simps)
    qed (simp add: low)
  qed
qed simp

lemma crc32c_bits_inject: "(crc32c_bit ^^ n) a = (crc32c_bit ^^ n) b \<longleftrightarrow> a = b"
  by (induction n) (simp_all add: crc32c_bit_inject)

lemma crc32c_byte_inject_state: "crc32c_byte s b = crc32c_byte t b \<longleftrightarrow> s = t"
  by (simp add: crc32c_byte_def crc32c_bits_inject xor_right_cancel)

lemma crc32c_byte_inject_byte: "crc32c_byte s b = crc32c_byte s c \<longleftrightarrow> b = c"
proof -
  have "ucast b = (ucast c :: u32) \<longleftrightarrow> b = c"
    by (metis ucast_u8_u32_u8)
  then show ?thesis
    by (simp add: crc32c_byte_def crc32c_bits_inject xor_left_cancel)
qed

lemma crc32c_ref_inject_state: "crc32c_ref s bs = crc32c_ref t bs \<longleftrightarrow> s = t"
  by (induction bs arbitrary: s t) (simp_all add: crc32c_byte_inject_state)

lemma crc32c_ref_single_byte:
  assumes "i < length bs"
  shows "crc32c_ref s (bs[i := c]) = crc32c_ref s bs \<longleftrightarrow> c = bs ! i"
proof -
  have "crc32c_ref s (bs[i := c]) = crc32c_ref (crc32c_byte (crc32c_ref s (take i bs)) c) (drop (Suc i) bs)"
    using assms by (simp add: upd_conv_take_nth_drop crc32c_ref_append)
  moreover have "crc32c_ref s bs =
      crc32c_ref (crc32c_byte (crc32c_ref s (take i bs)) (bs ! i)) (drop (Suc i) bs)"
    using assms by (subst id_take_nth_drop [of i bs]) (simp_all add: crc32c_ref_append)
  ultimately show ?thesis
    by (simp add: crc32c_ref_inject_state crc32c_byte_inject_byte)
qed

text \<open>Up to four bytes enter the register at once: they are one little-endian word, exclusive-or'd
  into the state before the register runs over them.\<close>

fun pack :: "u8 list \<Rightarrow> u32" where
  "pack [] = 0"
| "pack (b # bs) = ucast b XOR push_bit 8 (pack bs)"

lemma bit_pack_beyond: "8 * length bs \<le> n \<Longrightarrow> \<not> bit (pack bs) n"
  by (induction bs arbitrary: n) (auto simp: bit_simps)

lemma crc32c_bits_push:
  assumes "length bs \<le> 3"
  shows "(crc32c_bit ^^ 8) (push_bit 8 (pack bs)) = pack bs"
proof -
  have "(crc32c_bit ^^ 8) (push_bit 8 (pack bs)) = drop_bit 8 (push_bit 8 (pack bs))"
    by (rule crc32c_bits_zeros) (simp add: bit_simps)
  also have "\<dots> = pack bs"
  proof (rule bit_word_eqI)
    fix n
    show "bit (drop_bit 8 (push_bit 8 (pack bs))) n = bit (pack bs) n"
      using bit_pack_beyond [of bs n] assms by (cases "n < 24") (auto simp: bit_simps)
  qed
  finally show ?thesis .
qed

lemma crc32c_ref_pack:
  "length bs \<le> 4 \<Longrightarrow> crc32c_ref s bs = (crc32c_bit ^^ (8 * length bs)) (s XOR pack bs)"
proof (induction bs arbitrary: s)
  case (Cons b bs)
  then have "crc32c_ref s (b # bs) =
      (crc32c_bit ^^ (8 * length bs)) ((crc32c_bit ^^ 8) (s XOR ucast b) XOR pack bs)"
    by (simp add: crc32c_byte_def)
  also have "(crc32c_bit ^^ 8) (s XOR ucast b) XOR pack bs =
      (crc32c_bit ^^ 8) (s XOR ucast b) XOR (crc32c_bit ^^ 8) (push_bit 8 (pack bs))"
    using Cons.prems by (simp add: crc32c_bits_push)
  also have "\<dots> = (crc32c_bit ^^ 8) (s XOR pack (b # bs))"
    by (simp add: xor.assoc flip: crc32c_bits_xor)
  finally have "crc32c_ref s (b # bs) =
      (crc32c_bit ^^ (8 * length bs)) ((crc32c_bit ^^ 8) (s XOR pack (b # bs)))" .
  moreover have "8 * length (b # bs) = 8 * length bs + 8" by simp
  ultimately show ?case by (simp only: funpow_add o_def)
qed simp

lemma pack_inject: "length xs = length ys \<Longrightarrow> length xs \<le> 4 \<Longrightarrow> pack xs = pack ys \<Longrightarrow> xs = ys"
proof (induction xs ys rule: list_induct2)
  case (Cons x xs y ys)
  have b: "bit (pack (x # xs)) n = bit (pack (y # ys)) n" for n
    using Cons.prems by simp
  have "x = y"
  proof (rule bit_word_eqI)
    fix n :: nat assume "n < LENGTH(8)"
    then show "bit x n = bit y n" using b [of n] by (simp add: bit_simps)
  qed
  moreover have "pack xs = pack ys"
  proof (rule bit_word_eqI)
    fix n
    show "bit (pack xs) n = bit (pack ys) n"
      using b [of "8 + n"] bit_pack_beyond [of xs n] bit_pack_beyond [of ys n] Cons.hyps Cons.prems
      by (cases "n < 24") (simp_all add: bit_simps)
  qed
  ultimately show ?case using Cons by simp
qed simp

lemma crc32c_ref_window:
  assumes "length w = length w'" and "length w \<le> 4"
  shows "crc32c_ref s (xs @ w @ ys) = crc32c_ref s (xs @ w' @ ys) \<longleftrightarrow> w = w'"
proof
  assume "crc32c_ref s (xs @ w @ ys) = crc32c_ref s (xs @ w' @ ys)"
  then have "crc32c_ref (crc32c_ref s xs) w = crc32c_ref (crc32c_ref s xs) w'"
    by (simp add: crc32c_ref_append crc32c_ref_inject_state)
  then have "pack w = pack w'"
    using assms by (simp add: crc32c_ref_pack crc32c_bits_inject xor_left_cancel)
  then show "w = w'" using assms by (simp add: pack_inject)
qed simp

section \<open>The instruction set's own reading of the intrinsics\<close>

definition isa_cpu :: crc32_cpu where
  "isa_cpu = \<lparr>sse42_bit = True, mm_crc32_u8 = crc32c_byte,
     mm_crc32_u16 = (\<lambda>s w. crc32c_ref s (tr_put_le16 w)),
     mm_crc32_u32 = (\<lambda>s w. crc32c_ref s (tr_put_le32 w)),
     mm_crc32_u64 = (\<lambda>s w. ucast (crc32c_ref (ucast s) (tr_put_le64 w)))\<rparr>"

interpretation isa: sse42_isa "mm_crc32_u8 isa_cpu" "mm_crc32_u16 isa_cpu" "mm_crc32_u32 isa_cpu"
  "mm_crc32_u64 isa_cpu"
  by unfold_locales (simp_all add: isa_cpu_def)

section \<open>Properties\<close>

text \<open>C17: on every CPU whose \<open>crc32\<close> instructions behave as the instruction set manual says, the
  dispatcher of the x86-64 build, whichever backend it selects, computes what the portable
  table-driven update computes, and both are the bit-serial CRC32C register run over the data.\<close>

theorem crc32c_backends_agree:
  assumes "sse42_isa (mm_crc32_u8 cpu) (mm_crc32_u16 cpu) (mm_crc32_u32 cpu) (mm_crc32_u64 cpu)"
  shows "tr_crc32c_update_x86 cpu state data = tr_crc32c_update state data \<and>
    tr_crc32c_update state data = crc32c_ref state data"
  using assms
  by (simp_all add: tr_crc32c_update_x86_def tr_crc32c_update_sse42_ref tr_crc32c_update_ref
      tr_crc32c_update_portable_ref)

theorem crc32c_backends_agree_witness:
  "tr_crc32c_update_x86 isa_cpu 0xffffffff [1, 2, 3, 4, 5, 6, 7, 8, 9] =
     tr_crc32c_update 0xffffffff [1, 2, 3, 4, 5, 6, 7, 8, 9]"
  using crc32c_backends_agree [OF isa.sse42_isa_axioms] by blast

text \<open>C27: a change confined to four consecutive bytes always changes the checksum: two messages of the
  same length that agree outside such a window have the same CRC32C only if they are equal.\<close>

theorem crc32c_detects_window:
  assumes "length w = length w'" and "length w \<le> 4"
  shows "tr_crc32c (xs @ w @ ys) = tr_crc32c (xs @ w' @ ys) \<longleftrightarrow> w = w'"
  using crc32c_ref_window [OF assms]
  by (simp add: tr_crc32c_def tr_crc32c_finish_def tr_crc32c_update_ref xor_right_cancel)

theorem crc32c_detects_window_witness:
  "tr_crc32c ([1, 2] @ [3, 4, 5, 6] @ [7]) \<noteq> tr_crc32c ([1, 2] @ [3, 4, 5, 9] @ [7])"
  using crc32c_detects_window [of "[3, 4, 5, 6]" "[3, 4, 5, 9]" "[1, 2]" "[7]"] by simp

end
