(* ===== verification/Tr_Header_Crc.thy ===== *)
theory Tr_Header_Crc
  imports Tr_Crc32c
begin

text \<open>
  What the frame header and the pipeline route preface share: a fixed-size header that carries, in
  a four-byte field, the CRC32C of itself with that field set to zero. The locale
  \<open>checked_header\<close> is the contract, its lemmas say that sealing a header makes the check
  pass and that changing any one byte of a sealed header makes it fail.
\<close>

locale checked_header =
  fixes hsize crc_off :: nat and hcrc :: "u8 list \<Rightarrow> u32"
  assumes field_inside: "crc_off + 4 \<le> hsize"
    and hcrc: "hcrc raw = tr_crc32c (poke crc_off [0, 0, 0, 0] raw)"
begin

lemma hcrc_field_irrelevant:
  assumes "length raw = hsize" and "length f = 4"
  shows "hcrc (poke crc_off f raw) = hcrc raw"
  using assms field_inside by (simp add: hcrc poke_poke_same)

lemma seal_passes:
  assumes "length raw = hsize"
  shows "hcrc (poke crc_off (tr_put_le32 (hcrc raw)) raw) =
    tr_get_le32 (drop crc_off (poke crc_off (tr_put_le32 (hcrc raw)) raw))"
  using assms field_inside by (simp add: hcrc_field_irrelevant codec_simps)

lemma update_inside_field:
  assumes "length raw = hsize" and "crc_off \<le> i" and "i < crc_off + 4"
  shows "raw[i := c] = poke crc_off ((peek crc_off 4 raw)[i - crc_off := c]) raw"
  using assms field_inside by (intro nth_equalityI) (auto simp: nth_poke nth_list_update peek_nth)

lemma update_outside_field:
  assumes "length raw = hsize" and "i < hsize" and "i < crc_off \<or> crc_off + 4 \<le> i"
  shows "poke crc_off [0, 0, 0, 0] (raw[i := c]) = (poke crc_off [0, 0, 0, 0] raw)[i := c]"
  using assms field_inside by (intro nth_equalityI) (auto simp: nth_poke nth_list_update)

lemma corrupt_byte_fails:
  assumes len: "length raw = hsize" and i: "i < hsize" and c: "c \<noteq> raw ! i"
    and ok: "hcrc raw = tr_get_le32 (drop crc_off raw)"
  shows "hcrc (raw[i := c]) \<noteq> tr_get_le32 (drop crc_off (raw[i := c]))"
proof (cases "crc_off \<le> i \<and> i < crc_off + 4")
  case True
  let ?f = "(peek crc_off 4 raw)[i - crc_off := c]"
  have upd: "raw[i := c] = poke crc_off ?f raw"
    using True len by (intro update_inside_field) auto
  have lf: "length ?f = 4" using len field_inside by simp
  have same: "hcrc (raw[i := c]) = hcrc raw"
    unfolding upd using len lf by (rule hcrc_field_irrelevant)
  have "?f \<noteq> peek crc_off 4 raw"
  proof
    assume "?f = peek crc_off 4 raw"
    then have "?f ! (i - crc_off) = peek crc_off 4 raw ! (i - crc_off)" by simp
    moreover have "?f ! (i - crc_off) = c"
      using True lf by (intro nth_list_update_eq) auto
    moreover have "peek crc_off 4 raw ! (i - crc_off) = raw ! i"
      using True len field_inside peek_nth [of crc_off 4 raw "i - crc_off"] by auto
    ultimately show False using c by simp
  qed
  then have "tr_get_le32 ?f \<noteq> tr_get_le32 (peek crc_off 4 raw)"
    by (metis le32.put_get len lf length_list_update length_peek field_inside)
  moreover have "tr_get_le32 (drop crc_off (raw[i := c])) = tr_get_le32 ?f"
    unfolding upd using len lf field_inside
    by (simp add: le32.get_drop_peek peek_poke_same)
  ultimately show ?thesis
    using same ok len field_inside by (simp add: le32.get_drop_peek)
next
  case False
  let ?z = "poke crc_off [0, 0, 0, 0] raw"
  have out: "i < crc_off \<or> crc_off + 4 \<le> i" using False by auto
  have len_z: "length ?z = hsize" using len field_inside by simp
  have z: "?z ! i = raw ! i" using out i len field_inside by (auto simp: nth_poke)
  have "hcrc (raw[i := c]) = tr_crc32c (?z[i := c])"
    using len i out by (simp add: hcrc update_outside_field)
  also have "\<dots> \<noteq> tr_crc32c ?z"
    using crc32c_ref_single_byte [of i ?z tr_crc32c_begin c] i len_z c z
    by (simp add: tr_crc32c_def tr_crc32c_finish_def tr_crc32c_update_ref xor_right_cancel)
  finally have "hcrc (raw[i := c]) \<noteq> hcrc raw" by (simp add: hcrc)
  moreover have "tr_get_le32 (drop crc_off (raw[i := c])) = tr_get_le32 (drop crc_off raw)"
  proof -
    have "peek crc_off 4 (raw[i := c]) = peek crc_off 4 raw"
      using out len field_inside by (intro nth_equalityI) (auto simp: peek_nth nth_list_update)
    then show ?thesis using len field_inside by (simp add: le32.get_drop_peek)
  qed
  ultimately show ?thesis using ok by simp
qed

end

end
