(* ===== verification/Tr_Wire.thy ===== *)
theory Tr_Wire
  imports Tr_Status Tr_Header_Crc
begin

text \<open>
  The frame header codec of \<open>src/transport/protocol/wire.c\<close>: the 40-byte little-endian header
  with magic, version, type, flags, ids, payload length and two checksums. Encoding, decoding and
  validation are translated with their order of checks; the layout offsets are those of
  \<open>wire.h\<close>.
\<close>

abbreviation (input) TR_WIRE_HEADER_SIZE :: nat where "TR_WIRE_HEADER_SIZE \<equiv> 40"
abbreviation (input) TR_WIRE_ENV_VERSION :: u16 where "TR_WIRE_ENV_VERSION \<equiv> 1"
abbreviation (input) TR_WIRE_DEFAULT_MAX_PAYLOAD :: u32 where
  "TR_WIRE_DEFAULT_MAX_PAYLOAD \<equiv> 1024 * 1024"

definition TR_WIRE_OFF_MAGIC :: nat where [field_offsets]: "TR_WIRE_OFF_MAGIC = 0"
definition TR_WIRE_OFF_VERSION :: nat where [field_offsets]: "TR_WIRE_OFF_VERSION = 4"
definition TR_WIRE_OFF_TYPE :: nat where [field_offsets]: "TR_WIRE_OFF_TYPE = 6"
definition TR_WIRE_OFF_FLAGS :: nat where [field_offsets]: "TR_WIRE_OFF_FLAGS = 8"
definition TR_WIRE_OFF_STREAM_ID :: nat where [field_offsets]: "TR_WIRE_OFF_STREAM_ID = 12"
definition TR_WIRE_OFF_MESSAGE_ID :: nat where [field_offsets]: "TR_WIRE_OFF_MESSAGE_ID = 16"
definition TR_WIRE_OFF_PAYLOAD_LEN :: nat where [field_offsets]: "TR_WIRE_OFF_PAYLOAD_LEN = 24"
definition TR_WIRE_OFF_PAYLOAD_CRC :: nat where [field_offsets]: "TR_WIRE_OFF_PAYLOAD_CRC = 28"
definition TR_WIRE_OFF_HEADER_CRC :: nat where [field_offsets]: "TR_WIRE_OFF_HEADER_CRC = 32"
definition TR_WIRE_OFF_RESERVED :: nat where [field_offsets]: "TR_WIRE_OFF_RESERVED = 36"

abbreviation (input) TR_FRAME_F_FIRST :: u32 where "TR_FRAME_F_FIRST \<equiv> 1"
abbreviation (input) TR_FRAME_F_LAST :: u32 where "TR_FRAME_F_LAST \<equiv> 2"
abbreviation (input) TR_FRAME_F_LANE_BULK :: u32 where "TR_FRAME_F_LANE_BULK \<equiv> 4"
abbreviation (input) TR_FRAME_F_KNOWN_MASK :: u32 where
  "TR_FRAME_F_KNOWN_MASK \<equiv> TR_FRAME_F_FIRST OR TR_FRAME_F_LAST OR TR_FRAME_F_LANE_BULK"

abbreviation (input) TR_FRAME_DATA :: u16 where "TR_FRAME_DATA \<equiv> 1"
abbreviation (input) TR_FRAME_STREAM_OPEN :: u16 where "TR_FRAME_STREAM_OPEN \<equiv> 2"
abbreviation (input) TR_FRAME_STREAM_CLOSE :: u16 where "TR_FRAME_STREAM_CLOSE \<equiv> 3"
abbreviation (input) TR_FRAME_WINDOW_UPDATE :: u16 where "TR_FRAME_WINDOW_UPDATE \<equiv> 4"
abbreviation (input) TR_FRAME_PING :: u16 where "TR_FRAME_PING \<equiv> 5"
abbreviation (input) TR_FRAME_PONG :: u16 where "TR_FRAME_PONG \<equiv> 6"
abbreviation (input) TR_FRAME_ERROR :: u16 where "TR_FRAME_ERROR \<equiv> 7"
abbreviation (input) TR_FRAME_HELLO :: u16 where "TR_FRAME_HELLO \<equiv> 8"
abbreviation (input) TR_FRAME_HELLO_ACK :: u16 where "TR_FRAME_HELLO_ACK \<equiv> 9"
abbreviation (input) TR_FRAME_GOAWAY :: u16 where "TR_FRAME_GOAWAY \<equiv> 10"
abbreviation (input) TR_FRAME_BIND :: u16 where "TR_FRAME_BIND \<equiv> 11"
abbreviation (input) TR_FRAME_BIND_ACK :: u16 where "TR_FRAME_BIND_ACK \<equiv> 12"
abbreviation (input) TR_FRAME_PIPELINE_CONTROL :: u16 where "TR_FRAME_PIPELINE_CONTROL \<equiv> 13"
abbreviation (input) TR_FRAME_STREAM_RESET :: u16 where "TR_FRAME_STREAM_RESET \<equiv> 14"
abbreviation (input) TR_FRAME_STREAM_REFUSED :: u16 where "TR_FRAME_STREAM_REFUSED \<equiv> 15"

record tr_frame_header =
  fh_version :: u16
  fh_type :: u16
  fh_flags :: u32
  fh_stream_id :: u32
  fh_message_id :: u64
  fh_payload_len :: u32
  fh_payload_crc32c :: u32
  fh_header_crc32c :: u32
  fh_reserved :: u32

record tr_wire_limits =
  max_payload_len :: u32

definition tr_magic :: "u8 list" where
  "tr_magic = [0x54, 0x52, 0x50, 0x31]"

definition tr_frame_type_valid :: "u16 \<Rightarrow> bool" where
  "tr_frame_type_valid type \<longleftrightarrow>
     type \<in> {TR_FRAME_DATA, TR_FRAME_STREAM_OPEN, TR_FRAME_STREAM_CLOSE, TR_FRAME_WINDOW_UPDATE,
       TR_FRAME_PING, TR_FRAME_PONG, TR_FRAME_ERROR, TR_FRAME_HELLO, TR_FRAME_HELLO_ACK,
       TR_FRAME_GOAWAY, TR_FRAME_BIND, TR_FRAME_BIND_ACK, TR_FRAME_PIPELINE_CONTROL,
       TR_FRAME_STREAM_RESET, TR_FRAME_STREAM_REFUSED}"

definition tr_wire_stream_reset_status_valid :: "int \<Rightarrow> bool" where
  "tr_wire_stream_reset_status_valid status \<longleftrightarrow>
     status = tr_status_code TR_ERR_CLOSED \<or> status = tr_status_code TR_ERR_TIMEOUT \<or>
     status = tr_status_code TR_ERR_NOMEM \<or> status = tr_status_code TR_ERR_STATE \<or>
     status = tr_status_code TR_ERR_SYS"

definition tr_header_crc :: "u8 list \<Rightarrow> u32" where
  "tr_header_crc raw = tr_crc32c (poke TR_WIRE_OFF_HEADER_CRC [0, 0, 0, 0] raw)"

text \<open>The header bytes before the checksum is known: \<open>memset\<close>, the magic, and the fields in the
  order the code stores them.\<close>

definition wire_header_unsealed :: "tr_frame_header \<Rightarrow> u8 list" where
  "wire_header_unsealed header =
     poke TR_WIRE_OFF_RESERVED (tr_put_le32 (fh_reserved header))
     (poke TR_WIRE_OFF_HEADER_CRC (tr_put_le32 0)
     (poke TR_WIRE_OFF_PAYLOAD_CRC (tr_put_le32 (fh_payload_crc32c header))
     (poke TR_WIRE_OFF_PAYLOAD_LEN (tr_put_le32 (fh_payload_len header))
     (poke TR_WIRE_OFF_MESSAGE_ID (tr_put_le64 (fh_message_id header))
     (poke TR_WIRE_OFF_STREAM_ID (tr_put_le32 (fh_stream_id header))
     (poke TR_WIRE_OFF_FLAGS (tr_put_le32 (fh_flags header))
     (poke TR_WIRE_OFF_TYPE (tr_put_le16 (fh_type header))
     (poke TR_WIRE_OFF_VERSION (tr_put_le16 (fh_version header))
     (poke TR_WIRE_OFF_MAGIC tr_magic (replicate TR_WIRE_HEADER_SIZE 0))))))))))"

fun tr_wire_header_encode ::
  "u8 list option \<Rightarrow> tr_frame_header option \<Rightarrow> tr_status \<times> u8 list option" where
  "tr_wire_header_encode (Some out) (Some header) =
     (let out = wire_header_unsealed header;
          crc = tr_header_crc out
      in (TR_OK, Some (poke TR_WIRE_OFF_HEADER_CRC (tr_put_le32 crc) out)))"
| "tr_wire_header_encode out header = (TR_ERR_INVALID, out)"

definition wire_header_fields :: "u8 list \<Rightarrow> tr_frame_header" where
  "wire_header_fields in_bytes =
     \<lparr>fh_version = tr_get_le16 (drop TR_WIRE_OFF_VERSION in_bytes),
      fh_type = tr_get_le16 (drop TR_WIRE_OFF_TYPE in_bytes),
      fh_flags = tr_get_le32 (drop TR_WIRE_OFF_FLAGS in_bytes),
      fh_stream_id = tr_get_le32 (drop TR_WIRE_OFF_STREAM_ID in_bytes),
      fh_message_id = tr_get_le64 (drop TR_WIRE_OFF_MESSAGE_ID in_bytes),
      fh_payload_len = tr_get_le32 (drop TR_WIRE_OFF_PAYLOAD_LEN in_bytes),
      fh_payload_crc32c = tr_get_le32 (drop TR_WIRE_OFF_PAYLOAD_CRC in_bytes),
      fh_header_crc32c = tr_get_le32 (drop TR_WIRE_OFF_HEADER_CRC in_bytes),
      fh_reserved = tr_get_le32 (drop TR_WIRE_OFF_RESERVED in_bytes)\<rparr>"

fun tr_wire_header_decode ::
  "u8 list option \<Rightarrow> tr_frame_header option \<Rightarrow> tr_status \<times> tr_frame_header option" where
  "tr_wire_header_decode (Some in_bytes) (Some header) = (TR_OK, Some (wire_header_fields in_bytes))"
| "tr_wire_header_decode in_bytes header = (TR_ERR_INVALID, header)"

definition wire_max_payload :: "tr_wire_limits option \<Rightarrow> u32" where
  "wire_max_payload limits =
     (case limits of
        Some l \<Rightarrow> if max_payload_len l \<noteq> 0 then max_payload_len l else TR_WIRE_DEFAULT_MAX_PAYLOAD
      | None \<Rightarrow> TR_WIRE_DEFAULT_MAX_PAYLOAD)"

text \<open>The extra checks of RESET and REFUSED frames, the last block of the validation.\<close>

definition wire_reset_checks :: "tr_frame_header \<Rightarrow> tr_status" where
  "wire_reset_checks header =
     (if fh_flags header \<noteq> 0 then TR_ERR_BAD_FLAGS
      else if fh_payload_len header \<noteq> 0 then TR_ERR_BAD_LENGTH
      else if fh_stream_id header = 0 \<or> 0x7fffffff < fh_message_id header \<or>
        \<not> tr_wire_stream_reset_status_valid (- uint (fh_message_id header))
      then TR_ERR_INVALID
      else if fh_type header = TR_FRAME_STREAM_REFUSED \<and>
        fh_message_id header \<noteq> word_of_int (- tr_status_code TR_ERR_NOMEM)
      then TR_ERR_INVALID
      else TR_OK)"

fun tr_wire_header_validate ::
  "u8 list option \<Rightarrow> tr_frame_header option \<Rightarrow> tr_wire_limits option \<Rightarrow> tr_status" where
  "tr_wire_header_validate (Some raw) (Some header) limits =
     (if peek TR_WIRE_OFF_MAGIC 4 raw \<noteq> tr_magic then TR_ERR_BAD_MAGIC
      else if tr_header_crc raw \<noteq> fh_header_crc32c header then TR_ERR_HEADER_CRC
      else if fh_version header \<noteq> TR_WIRE_ENV_VERSION then TR_ERR_BAD_VERSION
      else if \<not> tr_frame_type_valid (fh_type header) then TR_ERR_BAD_TYPE
      else if fh_flags header AND NOT TR_FRAME_F_KNOWN_MASK \<noteq> 0 then TR_ERR_BAD_FLAGS
      else if fh_reserved header \<noteq> 0 then TR_ERR_RESERVED
      else if wire_max_payload limits < fh_payload_len header then TR_ERR_BAD_LENGTH
      else if fh_type header = TR_FRAME_STREAM_RESET \<or> fh_type header = TR_FRAME_STREAM_REFUSED
      then wire_reset_checks header
      else TR_OK)"
| "tr_wire_header_validate raw header limits = TR_ERR_INVALID"

declare tr_wire_header_validate.simps(1) [simp del]

section \<open>The checksum field\<close>

interpretation frame_hdr: checked_header TR_WIRE_HEADER_SIZE TR_WIRE_OFF_HEADER_CRC tr_header_crc
  by unfold_locales (simp_all add: tr_header_crc_def field_offsets)

section \<open>Reading back what was encoded\<close>

lemma length_wire_header_unsealed [simp]: "length (wire_header_unsealed h) = 40"
  by (simp add: wire_header_unsealed_def tr_magic_def field_offsets)

lemma peek_magic_unsealed: "peek TR_WIRE_OFF_MAGIC 4 (wire_header_unsealed h) = tr_magic"
  by (simp add: wire_header_unsealed_def tr_magic_def field_offsets peek_poke_other peek_poke_same)

lemma wire_header_fields_unsealed:
  "wire_header_fields (wire_header_unsealed h) = h\<lparr>fh_header_crc32c := 0\<rparr>"
  by (simp add: wire_header_fields_def wire_header_unsealed_def tr_magic_def field_offsets codec_simps)

lemma wire_header_fields_sealed:
  assumes "length raw = 40"
  shows "wire_header_fields (poke TR_WIRE_OFF_HEADER_CRC (tr_put_le32 crc) raw) =
    (wire_header_fields raw)\<lparr>fh_header_crc32c := crc\<rparr>"
  using assms by (simp add: wire_header_fields_def field_offsets codec_simps)

lemma peek_magic_sealed:
  assumes "length raw = 40"
  shows "peek TR_WIRE_OFF_MAGIC 4 (poke TR_WIRE_OFF_HEADER_CRC (tr_put_le32 crc) raw) =
    peek TR_WIRE_OFF_MAGIC 4 raw"
  using assms by (simp add: field_offsets peek_poke_other)

text \<open>A 40-byte buffer is determined by its magic and its fields.\<close>

lemma wire_header_unsealed_concat:
  "wire_header_unsealed h =
     tr_magic @ tr_put_le16 (fh_version h) @ tr_put_le16 (fh_type h) @ tr_put_le32 (fh_flags h) @
     tr_put_le32 (fh_stream_id h) @ tr_put_le64 (fh_message_id h) @ tr_put_le32 (fh_payload_len h) @
     tr_put_le32 (fh_payload_crc32c h) @ tr_put_le32 0 @ tr_put_le32 (fh_reserved h)"
  by (simp add: wire_header_unsealed_def poke_def field_offsets tr_magic_def)

lemma wire_header_split:
  assumes "length raw = 40"
  shows "drop 0 raw = peek 0 4 raw @ peek 4 2 raw @ peek 6 2 raw @ peek 8 4 raw @ peek 12 4 raw @
    peek 16 8 raw @ peek 24 4 raw @ peek 28 4 raw @ peek 32 4 raw @ peek 36 4 raw"
proof -
  have "drop 40 raw = []" using assms by simp
  then show ?thesis
    using drop_peek_split [of 4 0 4 raw] drop_peek_split [of 6 4 2 raw] drop_peek_split [of 8 6 2 raw]
      drop_peek_split [of 12 8 4 raw] drop_peek_split [of 16 12 4 raw] drop_peek_split [of 24 16 8 raw]
      drop_peek_split [of 28 24 4 raw] drop_peek_split [of 32 28 4 raw] drop_peek_split [of 36 32 4 raw]
      drop_peek_split [of 40 36 4 raw]
    by (simp del: drop_0)
qed

lemma wire_header_unsealed_fields:
  assumes len: "length raw = 40" and magic: "peek TR_WIRE_OFF_MAGIC 4 raw = tr_magic"
  shows "wire_header_unsealed (wire_header_fields raw) =
    poke TR_WIRE_OFF_HEADER_CRC (tr_put_le32 0) raw"
proof -
  let ?z = "poke 32 (tr_put_le32 0) raw"
  have "drop 0 ?z = wire_header_unsealed (wire_header_fields raw)"
    using len magic
    by (subst wire_header_split)
      (simp_all add: wire_header_unsealed_concat wire_header_fields_def field_offsets put_get_drop_le
        peek_poke_other peek_poke_same)
  then show ?thesis by (simp add: field_offsets)
qed

section \<open>The header contract\<close>

text \<open>What a receiver accepts, independently of the order of the checks.\<close>

definition wire_fields_ok :: "tr_wire_limits option \<Rightarrow> tr_frame_header \<Rightarrow> bool" where
  "wire_fields_ok limits h \<longleftrightarrow>
     fh_version h = 1 \<and> 1 \<le> unat (fh_type h) \<and> unat (fh_type h) \<le> 15 \<and> unat (fh_flags h) < 8 \<and>
     fh_reserved h = 0 \<and> fh_payload_len h \<le> wire_max_payload limits \<and>
     (unat (fh_type h) \<in> {14, 15} \<longrightarrow>
        fh_flags h = 0 \<and> fh_payload_len h = 0 \<and> fh_stream_id h \<noteq> 0 \<and>
        unat (fh_message_id h) \<in> (if unat (fh_type h) = 15 then {2} else {2, 11, 12, 13, 16}))"

lemma tr_frame_type_valid_range: "tr_frame_type_valid t \<longleftrightarrow> 1 \<le> unat t \<and> unat t \<le> 15"
proof -
  have "1 \<le> n \<and> n \<le> 15 \<longleftrightarrow> n \<in> {1, 2, 3, 4, 5, 6, 7, 8, 9, 10, 11, 12, 13, 14, 15}" for n :: nat
    unfolding insert_iff empty_iff by presburger
  then show ?thesis by (simp add: tr_frame_type_valid_def word_unat_eq_iff)
qed

lemma known_flags_range: "(f :: u32) AND NOT TR_FRAME_F_KNOWN_MASK = 0 \<longleftrightarrow> unat f < 8"
proof -
  have "f AND NOT TR_FRAME_F_KNOWN_MASK = 0 \<longleftrightarrow> f AND NOT (mask 3) = 0"
    by (simp add: mask_eq_exp_minus_1)
  also have "\<dots> \<longleftrightarrow> take_bit 3 f = f"
    by (auto simp: bit_eq_iff bit_simps)
  also have "\<dots> \<longleftrightarrow> unat f mod 8 = unat f"
    by (simp add: word_unat_eq_iff unsigned_take_bit_eq take_bit_eq_mod unat_mod_distrib)
  also have "\<dots> \<longleftrightarrow> unat f < 8" by presburger
  finally show ?thesis .
qed

lemma reset_status_range:
  "\<not> (0x7fffffff < m \<or> \<not> tr_wire_stream_reset_status_valid (- uint m)) \<longleftrightarrow>
    unat (m :: u64) \<in> {2, 11, 12, 13, 16}"
proof -
  have "\<not> (0x7fffffff < k \<or> \<not> tr_wire_stream_reset_status_valid (- int k)) \<longleftrightarrow>
      k \<in> {2, 11, 12, 13, 16}" for k :: nat
    by (auto simp: tr_wire_stream_reset_status_valid_def)
  from this [of "unat m"] show ?thesis by (simp add: word_less_nat_alt)
qed

lemma wire_type_numbers:
  "fh_type h = TR_FRAME_STREAM_RESET \<longleftrightarrow> unat (fh_type h) = 14"
  "fh_type h = TR_FRAME_STREAM_REFUSED \<longleftrightarrow> unat (fh_type h) = 15"
  by (simp_all add: word_unat_eq_iff)

lemma wire_reset_checks_ok:
  "wire_reset_checks h = TR_OK \<longleftrightarrow>
     fh_flags h = 0 \<and> fh_payload_len h = 0 \<and> fh_stream_id h \<noteq> 0 \<and>
     unat (fh_message_id h) \<in> (if unat (fh_type h) = 15 then {2} else {2, 11, 12, 13, 16})"
proof -
  have m: "fh_message_id h = word_of_int (- tr_status_code TR_ERR_NOMEM) \<longleftrightarrow>
      unat (fh_message_id h) = 2"
    by (simp add: word_unat_eq_iff)
  show ?thesis
    unfolding wire_reset_checks_def m wire_type_numbers using reset_status_range [of "fh_message_id h"]
    by (simp add: guard_ok split del: if_split) auto
qed

lemma tr_wire_header_validate_ok:
  "tr_wire_header_validate (Some raw) (Some h) limits = TR_OK \<longleftrightarrow>
     peek TR_WIRE_OFF_MAGIC 4 raw = tr_magic \<and> tr_header_crc raw = fh_header_crc32c h \<and>
     wire_fields_ok limits h"
  unfolding tr_wire_header_validate.simps wire_fields_ok_def tr_frame_type_valid_range
    known_flags_range wire_type_numbers
  by (auto simp: wire_reset_checks_ok not_less)

lemma wire_encoded:
  obtains raw where "tr_wire_header_encode (Some out) (Some h) = (TR_OK, Some raw)" "length raw = 40"
    "wire_header_fields raw = h\<lparr>fh_header_crc32c := tr_header_crc raw\<rparr>"
    "\<And>limits. tr_wire_header_validate (Some raw) (Some (h\<lparr>fh_header_crc32c := tr_header_crc raw\<rparr>)) limits = TR_OK
       \<longleftrightarrow> wire_fields_ok limits h"
proof -
  let ?u = "wire_header_unsealed h"
  let ?raw = "poke TR_WIRE_OFF_HEADER_CRC (tr_put_le32 (tr_header_crc ?u)) ?u"
  have crc: "tr_header_crc ?raw = tr_header_crc ?u"
    by (rule frame_hdr.hcrc_field_irrelevant) simp_all
  have fields: "wire_fields_ok limits (h\<lparr>fh_header_crc32c := c\<rparr>) = wire_fields_ok limits h" for limits c
    by (simp add: wire_fields_ok_def)
  show ?thesis
    by (rule that [of ?raw])
      (simp_all add: Let_def crc wire_header_fields_sealed wire_header_fields_unsealed
        tr_wire_header_validate_ok peek_magic_sealed peek_magic_unsealed fields,
        simp add: field_offsets)
qed

section \<open>Properties\<close>

text \<open>C14: encoding always succeeds on a non-null buffer and header and yields 40 bytes; decoding them
  gives the header back with the checksum field filled in, and validating the result succeeds
  exactly when the header's fields satisfy the wire contract under the receiver's limits.\<close>

theorem wire_header_roundtrip:
  "\<exists>raw. tr_wire_header_encode (Some out) (Some h) = (TR_OK, Some raw) \<and> length raw = 40 \<and>
     tr_wire_header_decode (Some raw) (Some h0) =
       (TR_OK, Some (h\<lparr>fh_header_crc32c := tr_header_crc raw\<rparr>)) \<and>
     (tr_wire_header_validate (Some raw) (Some (h\<lparr>fh_header_crc32c := tr_header_crc raw\<rparr>)) limits = TR_OK
        \<longleftrightarrow> wire_fields_ok limits h)"
proof -
  obtain raw where "tr_wire_header_encode (Some out) (Some h) = (TR_OK, Some raw)" "length raw = 40"
    "wire_header_fields raw = h\<lparr>fh_header_crc32c := tr_header_crc raw\<rparr>"
    "tr_wire_header_validate (Some raw) (Some (h\<lparr>fh_header_crc32c := tr_header_crc raw\<rparr>)) limits = TR_OK
       \<longleftrightarrow> wire_fields_ok limits h" by (rule wire_encoded) blast
  then show ?thesis by simp
qed

text \<open>C28: the wire form is canonical: 40 bytes that a receiver accepts are exactly the bytes the encoder
  produces for the decoded header.\<close>

theorem wire_header_canonical:
  assumes "length raw = 40"
    and "tr_wire_header_validate (Some raw) (Some (wire_header_fields raw)) limits = TR_OK"
  shows "tr_wire_header_encode (Some out) (Some (wire_header_fields raw)) = (TR_OK, Some raw)"
proof -
  from assms(2) have magic: "peek TR_WIRE_OFF_MAGIC 4 raw = tr_magic"
    and crc: "tr_header_crc raw = tr_get_le32 (drop TR_WIRE_OFF_HEADER_CRC raw)"
    unfolding tr_wire_header_validate_ok by (simp_all add: wire_header_fields_def)
  let ?u = "wire_header_unsealed (wire_header_fields raw)"
  have u: "?u = poke TR_WIRE_OFF_HEADER_CRC (tr_put_le32 0) raw"
    using assms(1) magic by (rule wire_header_unsealed_fields)
  have "tr_header_crc ?u = tr_header_crc raw"
    unfolding u using assms(1) by (intro frame_hdr.hcrc_field_irrelevant) simp_all
  moreover have "poke TR_WIRE_OFF_HEADER_CRC (tr_put_le32 (tr_header_crc raw)) ?u = raw"
    unfolding u crc using assms(1) by (simp add: field_offsets poke_poke_same poke_get_le)
  ultimately show ?thesis by (simp add: Let_def)
qed

definition wire_sample :: tr_frame_header where
  "wire_sample = \<lparr>fh_version = 1, fh_type = 14, fh_flags = 0, fh_stream_id = 7, fh_message_id = 13,
     fh_payload_len = 0, fh_payload_crc32c = 0, fh_header_crc32c = 0, fh_reserved = 0\<rparr>"

definition wire_sample_bytes :: "u8 list" where
  "wire_sample_bytes = poke TR_WIRE_OFF_HEADER_CRC
     (tr_put_le32 (tr_header_crc (wire_header_unsealed wire_sample))) (wire_header_unsealed wire_sample)"

lemma wire_sample_accepted:
  "length wire_sample_bytes = 40"
  "tr_wire_header_validate (Some wire_sample_bytes) (Some (wire_header_fields wire_sample_bytes)) None = TR_OK"
proof -
  let ?u = "wire_header_unsealed wire_sample"
  show "length wire_sample_bytes = 40"
    by (simp add: wire_sample_bytes_def field_offsets)
  have crc: "tr_header_crc wire_sample_bytes = tr_header_crc ?u"
    unfolding wire_sample_bytes_def by (rule frame_hdr.hcrc_field_irrelevant) simp_all
  have "wire_fields_ok None (wire_header_fields wire_sample_bytes)"
    by (simp add: wire_fields_ok_def wire_sample_bytes_def wire_header_fields_sealed
        wire_header_fields_unsealed wire_sample_def wire_max_payload_def)
  then show "tr_wire_header_validate (Some wire_sample_bytes)
      (Some (wire_header_fields wire_sample_bytes)) None = TR_OK"
    unfolding tr_wire_header_validate_ok crc
    by (simp add: wire_sample_bytes_def wire_header_fields_sealed peek_magic_sealed peek_magic_unsealed)
qed

theorem wire_header_canonical_witness:
  "tr_wire_header_encode (Some []) (Some (wire_header_fields wire_sample_bytes)) =
     (TR_OK, Some wire_sample_bytes)"
  by (rule wire_header_canonical [OF wire_sample_accepted])

text \<open>C4: no single-byte corruption passes: if a 40-byte header is accepted, then the same header with any
  one byte changed is refused, with a magic or a header checksum error.\<close>

theorem wire_header_corruption_refused:
  assumes "length raw = 40"
    and "tr_wire_header_validate (Some raw) (Some (wire_header_fields raw)) limits = TR_OK"
    and "i < 40" and "c \<noteq> raw ! i"
  shows "tr_wire_header_validate (Some (raw[i := c])) (Some (wire_header_fields (raw[i := c]))) limits'
    \<in> {TR_ERR_BAD_MAGIC, TR_ERR_HEADER_CRC}"
proof -
  from assms(2) have "tr_header_crc raw = tr_get_le32 (drop TR_WIRE_OFF_HEADER_CRC raw)"
    unfolding tr_wire_header_validate_ok by (simp add: wire_header_fields_def)
  then have "tr_header_crc (raw[i := c]) \<noteq> tr_get_le32 (drop TR_WIRE_OFF_HEADER_CRC (raw[i := c]))"
    using assms(1,3,4) by (intro frame_hdr.corrupt_byte_fails)
  then show ?thesis by (simp add: tr_wire_header_validate.simps(1) wire_header_fields_def)
qed

theorem wire_header_corruption_refused_witness:
  "tr_wire_header_validate (Some (wire_sample_bytes[4 := wire_sample_bytes ! 4 + 1]))
     (Some (wire_header_fields (wire_sample_bytes[4 := wire_sample_bytes ! 4 + 1]))) None
    \<in> {TR_ERR_BAD_MAGIC, TR_ERR_HEADER_CRC}"
  by (rule wire_header_corruption_refused [OF wire_sample_accepted]) simp_all

end
