(* ===== verification/Tr_Memory_Budget.thy ===== *)
theory Tr_Memory_Budget
  imports Tr_Status
begin

text \<open>
  The byte budgets of \<open>src/memory_budget.h\<close>. A budget may have one parent, the root of several
  children; reserving from a child charges the root first and takes the charge back when the child
  refuses. Budgets live in a store from addresses to records, since parent and children alias. Each
  compare-and-swap loop on one counter is one atomic step, and the peak counter is part of it.

  Shown here: the sequential contract (a refused reservation changes no balance, releasing what was
  reserved restores every balance, limits are never exceeded), and for any number of threads that
  reserve and release through children, with the atomic steps interleaved in any way, that the root
  balance is the sum of the children and of the charges in flight, so that a rollback never fails.
\<close>

record tr_memory_budget =
  mb_limit_bytes :: u64
  mb_parent :: "nat option"
  mb_current_bytes :: u64
  mb_peak_bytes :: u64
  mb_rejection_events :: u64

record tr_memory_budget_stats =
  ms_limit_bytes :: u64
  ms_current_bytes :: u64
  ms_peak_bytes :: u64
  ms_rejection_events :: u64

type_synonym budgets = "nat \<Rightarrow> tr_memory_budget"

definition tr_memory_budget_init :: "budgets \<Rightarrow> nat option \<Rightarrow> u64 \<Rightarrow> budgets" where
  "tr_memory_budget_init st budget limit_bytes =
     (case budget of None \<Rightarrow> st
      | Some b \<Rightarrow> st(b := \<lparr>mb_limit_bytes = limit_bytes, mb_parent = None, mb_current_bytes = 0,
          mb_peak_bytes = 0, mb_rejection_events = 0\<rparr>))"

definition tr_memory_budget_init_child ::
  "budgets \<Rightarrow> nat option \<Rightarrow> u64 \<Rightarrow> nat option \<Rightarrow> tr_status \<times> budgets" where
  "tr_memory_budget_init_child st budget limit_bytes parent =
     (case (budget, parent) of
        (Some b, Some p) \<Rightarrow>
          if b = p \<or> mb_parent (st p) \<noteq> None then (TR_ERR_INVALID, st)
          else
            let st = tr_memory_budget_init st budget limit_bytes
            in (TR_OK, st(b := (st b)\<lparr>mb_parent := parent\<rparr>))
      | _ \<Rightarrow> (TR_ERR_INVALID, st))"

definition tr_memory_budget_reserve_local :: "budgets \<Rightarrow> nat option \<Rightarrow> u64 \<Rightarrow> tr_status \<times> budgets" where
  "tr_memory_budget_reserve_local st budget bytes =
     (case budget of None \<Rightarrow> (TR_ERR_INVALID, st)
      | Some b \<Rightarrow>
          if bytes = 0 then (TR_OK, st)
          else
            let current = mb_current_bytes (st b) in
            if UINT64_MAX - current < bytes then (TR_ERR_STATE, st)
            else
              let nxt = current + bytes in
              if mb_limit_bytes (st b) \<noteq> 0 \<and> mb_limit_bytes (st b) < nxt
              then (TR_AGAIN, st(b := (st b)\<lparr>mb_rejection_events := mb_rejection_events (st b) + 1\<rparr>))
              else (TR_OK, st(b := (st b)\<lparr>mb_current_bytes := nxt,
                mb_peak_bytes := (if mb_peak_bytes (st b) < nxt then nxt else mb_peak_bytes (st b))\<rparr>)))"

definition tr_memory_budget_release_local :: "budgets \<Rightarrow> nat option \<Rightarrow> u64 \<Rightarrow> tr_status \<times> budgets" where
  "tr_memory_budget_release_local st budget bytes =
     (case budget of None \<Rightarrow> (TR_ERR_INVALID, st)
      | Some b \<Rightarrow>
          if bytes = 0 then (TR_OK, st)
          else
            let current = mb_current_bytes (st b) in
            if current < bytes then (TR_ERR_STATE, st)
            else (TR_OK, st(b := (st b)\<lparr>mb_current_bytes := current - bytes\<rparr>)))"

definition tr_memory_budget_reserve :: "budgets \<Rightarrow> nat option \<Rightarrow> u64 \<Rightarrow> tr_status \<times> budgets" where
  "tr_memory_budget_reserve st budget bytes =
     (case budget of None \<Rightarrow> (TR_ERR_INVALID, st)
      | Some b \<Rightarrow>
          let parent = mb_parent (st b);
              (ret, st) = (if parent \<noteq> None then tr_memory_budget_reserve_local st parent bytes else (TR_OK, st))
          in if ret \<noteq> TR_OK then (ret, st)
          else
            let (ret, st) = tr_memory_budget_reserve_local st budget bytes in
            if ret \<noteq> TR_OK \<and> parent \<noteq> None then
              let (rollback_ret, st) = tr_memory_budget_release_local st parent bytes
              in if rollback_ret \<noteq> TR_OK then (rollback_ret, st) else (ret, st)
            else (ret, st))"

definition tr_memory_budget_release :: "budgets \<Rightarrow> nat option \<Rightarrow> u64 \<Rightarrow> tr_status \<times> budgets" where
  "tr_memory_budget_release st budget bytes =
     (case budget of None \<Rightarrow> (TR_ERR_INVALID, st)
      | Some b \<Rightarrow>
          let (ret, st) = tr_memory_budget_release_local st budget bytes in
          if ret \<noteq> TR_OK \<or> mb_parent (st b) = None then (ret, st)
          else tr_memory_budget_release_local st (mb_parent (st b)) bytes)"

definition tr_memory_budget_get_stats ::
  "budgets \<Rightarrow> nat option \<Rightarrow> tr_memory_budget_stats option \<Rightarrow> tr_memory_budget_stats option" where
  "tr_memory_budget_get_stats st budget out =
     (case out of None \<Rightarrow> None
      | Some out \<Rightarrow>
          (case budget of
             None \<Rightarrow> Some \<lparr>ms_limit_bytes = 0, ms_current_bytes = 0, ms_peak_bytes = 0, ms_rejection_events = 0\<rparr>
           | Some b \<Rightarrow> Some \<lparr>ms_limit_bytes = mb_limit_bytes (st b), ms_current_bytes = mb_current_bytes (st b),
               ms_peak_bytes = mb_peak_bytes (st b), ms_rejection_events = mb_rejection_events (st b)\<rparr>))"

section \<open>One budget\<close>

abbreviation balance :: "budgets \<Rightarrow> nat \<Rightarrow> nat" where
  "balance st b \<equiv> unat (mb_current_bytes (st b))"

definition budget_ok :: "tr_memory_budget \<Rightarrow> bool" where
  [inv_defs]: "budget_ok m \<longleftrightarrow>
     (mb_limit_bytes m \<noteq> 0 \<longrightarrow> mb_current_bytes m \<le> mb_limit_bytes m) \<and> mb_current_bytes m \<le> mb_peak_bytes m"

lemma u64_room: "\<not> UINT64_MAX - c < b \<longleftrightarrow> unat (c :: u64) + unat b < 2 ^ 64"
proof -
  have "unat (UINT64_MAX - c) = 2 ^ 64 - 1 - unat c"
    using unat_lt_2p [of c] by (subst unat_sub_le) (simp_all add: word_le_nat_alt)
  then show ?thesis using unat_lt_2p [of c] by (simp add: word_less_nat_alt) linarith
qed

lemma u64_room_add: "\<not> UINT64_MAX - c < b \<Longrightarrow> unat ((c :: u64) + b) = unat c + unat b"
  unfolding u64_room by (rule unat_add_less) simp

lemma reserve_local_OK:
  assumes "tr_memory_budget_reserve_local st (Some b) n = (TR_OK, st')"
  shows "balance st' x = balance st x + (if x = b then unat n else 0)"
    and "mb_parent (st' x) = mb_parent (st x)" and "mb_limit_bytes (st' x) = mb_limit_bytes (st x)"
    and "budget_ok (st x) \<Longrightarrow> budget_ok (st' x)"
  using assms
  by (auto simp: tr_memory_budget_reserve_local_def Let_def inv_defs u64_room_add split: if_splits)

lemma reserve_local_fail:
  assumes "tr_memory_budget_reserve_local st (Some b) n = (e, st')" and "e \<noteq> TR_OK"
  shows "mb_current_bytes (st' x) = mb_current_bytes (st x)" and "mb_parent (st' x) = mb_parent (st x)"
    and "mb_limit_bytes (st' x) = mb_limit_bytes (st x)" and "budget_ok (st' x) = budget_ok (st x)"
    and "n \<noteq> 0" and "e = TR_AGAIN \<or> e = TR_ERR_STATE"
  using assms by (auto simp: tr_memory_budget_reserve_local_def Let_def inv_defs split: if_splits)

lemma release_local_OK:
  assumes "tr_memory_budget_release_local st (Some b) n = (TR_OK, st')"
  shows "balance st x = balance st' x + (if x = b then unat n else 0)"
    and "mb_parent (st' x) = mb_parent (st x)" and "mb_limit_bytes (st' x) = mb_limit_bytes (st x)"
    and "budget_ok (st x) \<Longrightarrow> budget_ok (st' x)"
  using assms
  by (auto simp: tr_memory_budget_release_local_def Let_def inv_defs unat_sub word_le_nat_alt word_less_nat_alt
      split: if_splits)

lemma release_local_fail:
  "tr_memory_budget_release_local st (Some b) n = (e, st') \<Longrightarrow> e \<noteq> TR_OK \<Longrightarrow>
     st' = st \<and> e = TR_ERR_STATE \<and> balance st b < unat n"
  by (auto simp: tr_memory_budget_release_local_def Let_def word_less_nat_alt split: if_splits)

lemma release_local_succeeds:
  assumes "unat n \<le> balance st b"
  shows "\<exists>st'. tr_memory_budget_release_local st (Some b) n = (TR_OK, st')"
  using assms by (auto simp: tr_memory_budget_release_local_def Let_def word_less_nat_alt)

section \<open>A child and its root, sequentially\<close>

text \<open>The store is well linked at a budget when it is not its own parent.\<close>

definition linked :: "budgets \<Rightarrow> nat \<Rightarrow> bool" where
  "linked st b \<longleftrightarrow> mb_parent (st b) \<noteq> Some b"

lemma init_child_linked:
  "tr_memory_budget_init_child st (Some b) n (Some p) = (TR_OK, st') \<Longrightarrow>
     linked st' b \<and> mb_parent (st' b) = Some p \<and> balance st' b = 0 \<and> budget_ok (st' b)"
  by (auto simp: tr_memory_budget_init_child_def tr_memory_budget_init_def linked_def inv_defs Let_def
      split: if_splits)

lemma reserve_cases:
  assumes "tr_memory_budget_reserve st (Some b) n = (e, st')" and "linked st b"
  obtains (root) "mb_parent (st b) = None" "tr_memory_budget_reserve_local st (Some b) n = (e, st')"
  | (parent_refuses) p where "mb_parent (st b) = Some p" "e \<noteq> TR_OK"
      "tr_memory_budget_reserve_local st (Some p) n = (e, st')"
  | (both) p st1 where "mb_parent (st b) = Some p" "e = TR_OK" "p \<noteq> b"
      "tr_memory_budget_reserve_local st (Some p) n = (TR_OK, st1)"
      "tr_memory_budget_reserve_local st1 (Some b) n = (TR_OK, st')"
  | (rolled_back) p st1 st2 where "mb_parent (st b) = Some p" "e \<noteq> TR_OK" "p \<noteq> b"
      "tr_memory_budget_reserve_local st (Some p) n = (TR_OK, st1)"
      "tr_memory_budget_reserve_local st1 (Some b) n = (e, st2)"
      "tr_memory_budget_release_local st2 (Some p) n = (TR_OK, st')"
proof (cases "mb_parent (st b)")
  case None
  then show thesis using root assms by (simp add: tr_memory_budget_reserve_def Let_def split: prod.splits if_splits)
next
  case (Some p)
  then have pb: "p \<noteq> b" using assms(2) by (auto simp: linked_def)
  obtain r1 st1 where l1: "tr_memory_budget_reserve_local st (Some p) n = (r1, st1)" by fastforce
  obtain r2 st2 where l2: "tr_memory_budget_reserve_local st1 (Some b) n = (r2, st2)" by fastforce
  obtain r3 st3 where l3: "tr_memory_budget_release_local st2 (Some p) n = (r3, st3)" by fastforce
  have res: "(e, st') = (if r1 \<noteq> TR_OK then (r1, st1) else if r2 = TR_OK then (TR_OK, st2)
      else if r3 \<noteq> TR_OK then (r3, st3) else (r2, st3))"
    using assms(1) l1 l2 l3 Some by (simp add: tr_memory_budget_reserve_def Let_def split: if_splits)
  show thesis
  proof (cases "r1 = TR_OK \<and> r2 \<noteq> TR_OK")
    case True
    then have "r1 = TR_OK" "r2 \<noteq> TR_OK" by auto
    then have "balance st2 p = balance st p + unat n"
      using reserve_local_OK(1) [OF l1 [unfolded \<open>r1 = TR_OK\<close>], of p] reserve_local_fail(1) [OF l2, of p] by simp
    then have "r3 = TR_OK" using release_local_fail [OF l3] by auto
    then show thesis using rolled_back Some pb l1 l2 l3 res True by simp
  next
    case False
    then show thesis using parent_refuses both Some pb l1 l2 res by (auto split: if_splits)
  qed
qed

lemma reserve_balances:
  assumes "tr_memory_budget_reserve st (Some b) n = (e, st')" and "linked st b"
  shows "balance st' x = balance st x +
      (if e = TR_OK \<and> (x = b \<or> mb_parent (st b) = Some x) then unat n else 0)"
    and "mb_parent (st' x) = mb_parent (st x)" and "budget_ok (st x) \<Longrightarrow> budget_ok (st' x)"
proof -
  let ?P = "\<lambda>x. balance st' x = balance st x +
      (if e = TR_OK \<and> (x = b \<or> mb_parent (st b) = Some x) then unat n else 0) \<and>
    mb_parent (st' x) = mb_parent (st x) \<and> (budget_ok (st x) \<longrightarrow> budget_ok (st' x))"
  have "?P x"
    using assms
  proof (cases rule: reserve_cases)
    case root
    then show ?thesis
      using reserve_local_OK [of st b n st' x] reserve_local_fail(1-4) [of st b n e st' x]
      by (cases "e = TR_OK"; cases "x = b") auto
  next
    case (parent_refuses p)
    then show ?thesis using reserve_local_fail(1-4) [of st p n e st' x] by simp
  next
    case (both p st1)
    then show ?thesis
      using reserve_local_OK [OF both(4), of x] reserve_local_OK [OF both(5), of x]
      by (cases "x = b"; cases "x = p") auto
  next
    case (rolled_back p st1 st2)
    then show ?thesis
      using reserve_local_OK [OF rolled_back(4), of x] reserve_local_fail(1-4) [OF rolled_back(5), of x]
        release_local_OK [OF rolled_back(6), of x] rolled_back(2)
      by (cases "x = p") auto
  qed
  then show "balance st' x = balance st x +
      (if e = TR_OK \<and> (x = b \<or> mb_parent (st b) = Some x) then unat n else 0)"
    "mb_parent (st' x) = mb_parent (st x)" "budget_ok (st x) \<Longrightarrow> budget_ok (st' x)" by auto
qed

lemma release_balances:
  assumes "linked st b" and "unat n \<le> balance st b" and "\<And>p. mb_parent (st b) = Some p \<Longrightarrow> unat n \<le> balance st p"
  shows "\<exists>st'. tr_memory_budget_release st (Some b) n = (TR_OK, st') \<and>
    (\<forall>x. balance st x = balance st' x + (if x = b \<or> mb_parent (st b) = Some x then unat n else 0)) \<and>
    (\<forall>x. mb_parent (st' x) = mb_parent (st x))"
proof -
  obtain st1 where r1: "tr_memory_budget_release_local st (Some b) n = (TR_OK, st1)"
    using release_local_succeeds [of n st b] assms(2) by blast
  show ?thesis
  proof (cases "mb_parent (st b)")
    case None
    then have "tr_memory_budget_release st (Some b) n = (TR_OK, st1)"
      using r1 release_local_OK(2) [OF r1, of b] by (simp add: tr_memory_budget_release_def)
    then show ?thesis using release_local_OK(1,2) [OF r1] None by auto
  next
    case (Some p)
    then have pb: "p \<noteq> b" using assms(1) by (auto simp: linked_def)
    have "unat n \<le> balance st1 p" using release_local_OK(1) [OF r1, of p] pb assms(3) [OF Some] by simp
    then obtain st2 where r2: "tr_memory_budget_release_local st1 (Some p) n = (TR_OK, st2)"
      using release_local_succeeds by blast
    have "tr_memory_budget_release st (Some b) n = (TR_OK, st2)"
      using r1 r2 release_local_OK(2) [OF r1, of b] Some by (simp add: tr_memory_budget_release_def)
    moreover have "balance st x = balance st2 x + (if x = b \<or> mb_parent (st b) = Some x then unat n else 0)" for x
      using release_local_OK(1) [OF r1, of x] release_local_OK(1) [OF r2, of x] Some pb
      by (cases "x = b"; cases "x = p") auto
    moreover have "mb_parent (st2 x) = mb_parent (st x)" for x
      using release_local_OK(2) [OF r1, of x] release_local_OK(2) [OF r2, of x] by simp
    ultimately show ?thesis by blast
  qed
qed

text \<open>C19: reserving from a budget with an optional root either succeeds and charges the same amount to the
  budget and to its root, or fails and leaves every balance as it was; limits and peaks stay
  consistent; and releasing the reserved amount succeeds and restores every balance.\<close>

theorem budget_reserve_release:
  assumes "tr_memory_budget_reserve st (Some b) n = (e, st')" and "linked st b"
  shows "(\<forall>x. balance st' x = balance st x +
       (if e = TR_OK \<and> (x = b \<or> mb_parent (st b) = Some x) then unat n else 0)) \<and>
    (\<forall>x. budget_ok (st x) \<longrightarrow> budget_ok (st' x)) \<and>
    (e = TR_OK \<longrightarrow> (\<exists>st''. tr_memory_budget_release st' (Some b) n = (TR_OK, st'') \<and>
       (\<forall>x. balance st'' x = balance st x)))"
proof (intro conjI allI impI)
  fix x show "balance st' x = balance st x +
      (if e = TR_OK \<and> (x = b \<or> mb_parent (st b) = Some x) then unat n else 0)"
    using assms by (rule reserve_balances)
  show "budget_ok (st x) \<Longrightarrow> budget_ok (st' x)" using assms by (rule reserve_balances)
next
  assume e: "e = TR_OK"
  note bal = reserve_balances(1) [OF assms] and par = reserve_balances(2) [OF assms]
  have "linked st' b" using par [of b] assms(2) by (simp add: linked_def)
  then show "\<exists>st''. tr_memory_budget_release st' (Some b) n = (TR_OK, st'') \<and> (\<forall>x. balance st'' x = balance st x)"
    using release_balances [of st' b n] bal par e by fastforce
qed

definition budget_sample :: budgets where
  "budget_sample = (\<lambda>b. \<lparr>mb_limit_bytes = 100, mb_parent = (if b = 1 then Some 0 else None),
     mb_current_bytes = 60, mb_peak_bytes = 60, mb_rejection_events = 0\<rparr>)"

theorem budget_reserve_release_witness:
  "\<exists>st'. tr_memory_budget_reserve budget_sample (Some 1) 30 = (TR_OK, st') \<and> balance st' 0 = 90"
proof -
  obtain e st' where r: "tr_memory_budget_reserve budget_sample (Some 1) 30 = (e, st')" by fastforce
  then have "e = TR_OK"
    by (simp add: tr_memory_budget_reserve_def tr_memory_budget_reserve_local_def budget_sample_def Let_def)
  then show ?thesis
    using budget_reserve_release [OF r] r by (simp add: linked_def budget_sample_def)
qed

section \<open>Concurrent threads under one root\<close>

text \<open>Threads reserve and release through the children \<open>C\<close> of the root \<open>p\<close>. Between its two
  atomic steps a thread is in flight: it has charged the root and is about to charge the child, it
  must take the charge of the root back, or it has credited the child and is about to credit the
  root.\<close>

datatype budget_pc = Idle | Charge_child nat u64 | Rollback u64 tr_status | Credit_root u64

fun in_flight :: "budget_pc \<Rightarrow> nat" where
  "in_flight Idle = 0"
| "in_flight (Charge_child c n) = unat n"
| "in_flight (Rollback n e) = unat n"
| "in_flight (Credit_root n) = unat n"

inductive budget_step :: "nat set \<Rightarrow> nat \<Rightarrow> budgets \<times> budget_pc list \<Rightarrow> budgets \<times> budget_pc list \<Rightarrow> bool"
  for C :: "nat set" and p :: nat where
  reserve_root: "t < length pcs \<Longrightarrow> pcs ! t = Idle \<Longrightarrow> c \<in> C \<Longrightarrow>
    tr_memory_budget_reserve_local st (Some p) n = (e, st') \<Longrightarrow>
    budget_step C p (st, pcs) (st', if e = TR_OK then pcs[t := Charge_child c n] else pcs)"
| reserve_child: "t < length pcs \<Longrightarrow> pcs ! t = Charge_child c n \<Longrightarrow>
    tr_memory_budget_reserve_local st (Some c) n = (e, st') \<Longrightarrow>
    budget_step C p (st, pcs) (st', pcs[t := if e = TR_OK then Idle else Rollback n e])"
| rollback_root: "t < length pcs \<Longrightarrow> pcs ! t = Rollback n e \<Longrightarrow>
    tr_memory_budget_release_local st (Some p) n = (r, st') \<Longrightarrow>
    budget_step C p (st, pcs) (st', pcs[t := Idle])"
| release_child: "t < length pcs \<Longrightarrow> pcs ! t = Idle \<Longrightarrow> c \<in> C \<Longrightarrow>
    tr_memory_budget_release_local st (Some c) n = (e, st') \<Longrightarrow>
    budget_step C p (st, pcs) (st', if e = TR_OK then pcs[t := Credit_root n] else pcs)"
| release_root: "t < length pcs \<Longrightarrow> pcs ! t = Credit_root n \<Longrightarrow>
    tr_memory_budget_release_local st (Some p) n = (r, st') \<Longrightarrow>
    budget_step C p (st, pcs) (st', pcs[t := Idle])"

definition budget_inv :: "nat set \<Rightarrow> nat \<Rightarrow> budgets \<times> budget_pc list \<Rightarrow> bool" where
  "budget_inv C p = (\<lambda>(st, pcs).
     balance st p = (\<Sum>c\<in>C. balance st c) + sum_list (map in_flight pcs) \<and>
     (\<forall>c n. Charge_child c n \<in> set pcs \<longrightarrow> c \<in> C) \<and> (\<forall>x\<in>insert p C. budget_ok (st x)))"

lemma in_flight_update:
  "t < length pcs \<Longrightarrow> sum_list (map in_flight (pcs[t := q])) + in_flight (pcs ! t) =
     sum_list (map in_flight pcs) + in_flight q"
  by (induction pcs arbitrary: t) (auto simp: nth_Cons split: nat.splits)

lemma in_flight_le: "t < length pcs \<Longrightarrow> in_flight (pcs ! t) \<le> sum_list (map in_flight pcs)"
  using member_le_sum_list [of "in_flight (pcs ! t)" "map in_flight pcs"] by simp

lemma children_sum_update:
  assumes "finite C" and "\<And>x. balance st' x = balance st x + (if x = b then m else 0)"
  shows "(\<Sum>c\<in>C. balance st' c) = (\<Sum>c\<in>C. balance st c) + (if b \<in> C then m else 0)"
  using assms by (simp add: sum.distrib sum.delta)

text \<open>In flight, the root always holds enough to be credited.\<close>

lemma in_flight_release_OK:
  assumes "budget_inv C p (st, pcs)" and "t < length pcs" and "in_flight (pcs ! t) = unat n"
    and "tr_memory_budget_release_local st (Some p) n = (r, st')"
  shows "r = TR_OK"
proof (rule ccontr)
  assume "r \<noteq> TR_OK"
  then have "balance st p < unat n" using release_local_fail [OF assms(4)] by simp
  moreover have "unat n \<le> balance st p"
    using assms(1) in_flight_le [OF assms(2)] assms(3) by (simp add: budget_inv_def)
  ultimately show False by simp
qed

lemma set_update_Charge:
  "Charge_child c n \<in> set (pcs[t := q]) \<Longrightarrow> q = Charge_child c n \<or> Charge_child c n \<in> set pcs"
  by (metis insert_iff set_update_subset_insert subsetD)

lemma budget_step_inv:
  assumes "budget_step C p x y" and "budget_inv C p x" and "finite C" and "p \<notin> C"
  shows "budget_inv C p y"
  using assms(1,2)
proof (induction rule: budget_step.induct)
  case (reserve_root t pcs c st n e st')
  show ?case
  proof (cases "e = TR_OK")
    case True
    note ok = reserve_local_OK [OF reserve_root.hyps(4) [unfolded True]]
    show ?thesis
      using reserve_root True ok(1) [of p] ok(4) in_flight_update [of t pcs "Charge_child c n"]
        children_sum_update [OF assms(3) ok(1)] assms(4)
      by (auto simp: budget_inv_def dest!: set_update_Charge)
  next
    case False
    note no = reserve_local_fail [OF reserve_root.hyps(4) False]
    show ?thesis using reserve_root False no(1,4) by (auto simp: budget_inv_def)
  qed
next
  case (reserve_child t pcs c n st e st')
  have c: "c \<in> C" using reserve_child by (force simp: budget_inv_def in_set_conv_nth)
  show ?case
  proof (cases "e = TR_OK")
    case True
    note ok = reserve_local_OK [OF reserve_child.hyps(3) [unfolded True]]
    show ?thesis
      using reserve_child True ok(1) [of p] ok(4) in_flight_update [of t pcs Idle] c
        children_sum_update [OF assms(3) ok(1)] assms(4)
      by (auto simp: budget_inv_def dest!: set_update_Charge)
  next
    case False
    note no = reserve_local_fail [OF reserve_child.hyps(3) False]
    show ?thesis
      using reserve_child False no(1,4) in_flight_update [of t pcs "Rollback n e"]
      by (auto simp: budget_inv_def dest!: set_update_Charge)
  qed
next
  case (rollback_root t pcs n e st r st')
  then have "r = TR_OK" by (intro in_flight_release_OK) auto
  note ok = release_local_OK [OF rollback_root.hyps(3) [unfolded this]]
  show ?case
    using rollback_root ok(1) [of p] ok(4) in_flight_update [of t pcs Idle]
      children_sum_update [OF assms(3) ok(1)] assms(4)
    by (auto simp: budget_inv_def dest!: set_update_Charge)
next
  case (release_child t pcs c st n e st')
  have pc: "p \<noteq> c" using release_child.hyps(3) assms(4) by blast
  show ?case
  proof (cases "e = TR_OK")
    case True
    note ok = release_local_OK [OF release_child.hyps(4) [unfolded True]]
    show ?thesis
      using release_child True pc ok(1) [of p] ok(4) in_flight_update [of t pcs "Credit_root n"]
        children_sum_update [OF assms(3) ok(1)] assms(4)
      by (auto simp: budget_inv_def dest!: set_update_Charge)
  next
    case False
    then show ?thesis using release_child release_local_fail [OF release_child.hyps(4)] by simp
  qed
next
  case (release_root t pcs n st r st')
  then have "r = TR_OK" by (intro in_flight_release_OK) auto
  note ok = release_local_OK [OF release_root.hyps(3) [unfolded this]]
  show ?case
    using release_root ok(1) [of p] ok(4) in_flight_update [of t pcs Idle]
      children_sum_update [OF assms(3) ok(1)] assms(4)
    by (auto simp: budget_inv_def dest!: set_update_Charge)
qed

text \<open>C8: for any number of threads that reserve and release through the children of a root budget, in every
  interleaving of their atomic steps: the root balance is exactly the sum of the child balances and
  of the charges in flight, no limit is ever exceeded, and a thread that has to take back a charge
  from the root, or to finish a release there, always succeeds.\<close>

theorem budget_concurrent_conservation:
  assumes "(budget_step C p)\<^sup>*\<^sup>* (st0, replicate k Idle) (st, pcs)" and "finite C" and "p \<notin> C"
    and "\<And>x. x \<in> insert p C \<Longrightarrow> mb_current_bytes (st0 x) = 0"
  shows "balance st p = (\<Sum>c\<in>C. balance st c) + sum_list (map in_flight pcs) \<and>
    (\<forall>x\<in>insert p C. mb_limit_bytes (st x) \<noteq> 0 \<longrightarrow> mb_current_bytes (st x) \<le> mb_limit_bytes (st x)) \<and>
    (\<forall>t n e. t < length pcs \<and> (pcs ! t = Rollback n e \<or> pcs ! t = Credit_root n) \<longrightarrow>
       fst (tr_memory_budget_release_local st (Some p) n) = TR_OK)"
proof -
  have "budget_inv C p (st0, replicate k Idle)"
    using assms(4) by (simp add: budget_inv_def budget_ok_def sum_list_replicate)
  with assms(1) have inv: "budget_inv C p (st, pcs)"
    by (induction rule: rtranclp_induct) (auto intro: budget_step_inv [OF _ _ assms(2,3)])
  have "fst (tr_memory_budget_release_local st (Some p) n) = TR_OK"
    if "t < length pcs" "pcs ! t = Rollback n e \<or> pcs ! t = Credit_root n" for t n e
    using in_flight_release_OK [OF inv that(1)] that(2) by (metis in_flight.simps(3,4) prod.collapse)
  with inv show ?thesis by (auto simp: budget_inv_def budget_ok_def)
qed

definition budget_fresh :: budgets where
  "budget_fresh = snd (tr_memory_budget_init_child (tr_memory_budget_init
     (\<lambda>b. \<lparr>mb_limit_bytes = 0, mb_parent = None, mb_current_bytes = 0, mb_peak_bytes = 0, mb_rejection_events = 0\<rparr>)
     (Some 0) 100) (Some 1) 50 (Some 0))"

theorem budget_concurrent_conservation_witness:
  "\<exists>st. (budget_step {1} 0)\<^sup>*\<^sup>* (budget_fresh, replicate 2 Idle) (st, [Charge_child 1 30, Idle]) \<and>
     balance st 0 = (\<Sum>c\<in>{1}. balance st c) + 30"
proof -
  obtain e st where r: "tr_memory_budget_reserve_local budget_fresh (Some 0) 30 = (e, st)" by fastforce
  then have e: "e = TR_OK"
    by (simp add: tr_memory_budget_reserve_local_def budget_fresh_def tr_memory_budget_init_def
        tr_memory_budget_init_child_def Let_def)
  have "budget_step {1} 0 (budget_fresh, replicate 2 Idle)
      (st, if e = TR_OK then (replicate 2 Idle)[0 := Charge_child 1 30] else replicate 2 Idle)"
    by (rule reserve_root [OF _ _ _ r]) simp_all
  then have run: "(budget_step {1} 0)\<^sup>*\<^sup>* (budget_fresh, replicate 2 Idle) (st, [Charge_child 1 30, Idle])"
    by (simp add: e numeral_2_eq_2 r_into_rtranclp)
  have "balance st 0 = (\<Sum>c\<in>{1}. balance st c) + 30"
    using budget_concurrent_conservation [OF run]
    by (simp add: budget_fresh_def tr_memory_budget_init_def tr_memory_budget_init_child_def Let_def)
  with run show ?thesis by blast
qed

end
