(* ===== verification/Tr_Refcount.thy ===== *)
theory Tr_Refcount
  imports Tr_Status
begin

text \<open>
  The strong reference counter of \<open>src/refcount.h\<close>. The counter is a 32-bit word; each
  compare-and-swap loop is one atomic step. The operations return the C result as an integer, since
  two of them return 0 or 1 besides the negative status codes.

  Shown here, for every sequence of operations on one counter: the count is the initial count plus
  the successful acquisitions minus the successful releases, it never wraps, exactly one release
  reports that it was the last one, and nothing succeeds after it.
\<close>

definition tr_refcount_init :: "u32 option \<Rightarrow> u32 \<Rightarrow> int \<times> u32 option" where
  "tr_refcount_init ref initial =
     (if ref = None \<or> initial = 0 \<or> initial = UINT32_MAX then (tr_status_code TR_ERR_INVALID, ref)
      else (tr_status_code TR_OK, Some initial))"

definition tr_refcount_read :: "u32 option \<Rightarrow> u32" where
  "tr_refcount_read ref = (case ref of None \<Rightarrow> 0 | Some v \<Rightarrow> v)"

definition tr_refcount_get :: "u32 option \<Rightarrow> int \<times> u32 option" where
  "tr_refcount_get ref =
     (case ref of None \<Rightarrow> (tr_status_code TR_ERR_INVALID, ref)
      | Some old \<Rightarrow>
          if old = 0 \<or> UINT32_MAX - 1 \<le> old then (tr_status_code TR_ERR_STATE, ref)
          else (tr_status_code TR_OK, Some (old + 1)))"

definition tr_refcount_get_unless_zero :: "u32 option \<Rightarrow> int \<times> u32 option" where
  "tr_refcount_get_unless_zero ref =
     (case ref of None \<Rightarrow> (tr_status_code TR_ERR_INVALID, ref)
      | Some old \<Rightarrow>
          if old = 0 then (0, ref)
          else if UINT32_MAX - 1 \<le> old then (tr_status_code TR_ERR_STATE, ref)
          else (1, Some (old + 1)))"

definition tr_refcount_put :: "u32 option \<Rightarrow> int \<times> u32 option" where
  "tr_refcount_put ref =
     (case ref of None \<Rightarrow> (tr_status_code TR_ERR_INVALID, ref)
      | Some old \<Rightarrow>
          if old = 0 then (tr_status_code TR_ERR_STATE, ref)
          else (if old = 1 then 1 else 0, Some (old - 1)))"

section \<open>Histories of one counter\<close>

datatype ref_op = Get | Get_unless_zero | Put

fun ref_apply :: "ref_op \<Rightarrow> u32 \<Rightarrow> int \<times> u32 option" where
  "ref_apply Get v = tr_refcount_get (Some v)"
| "ref_apply Get_unless_zero v = tr_refcount_get_unless_zero (Some v)"
| "ref_apply Put v = tr_refcount_put (Some v)"

text \<open>What a caller may conclude from a result: it acquired a reference, it gave one up, it gave up the
  last one.\<close>

fun acquired :: "ref_op \<times> int \<Rightarrow> bool" where
  "acquired (Get, r) \<longleftrightarrow> r = 0"
| "acquired (Get_unless_zero, r) \<longleftrightarrow> r = 1"
| "acquired (Put, r) \<longleftrightarrow> False"

fun released :: "ref_op \<times> int \<Rightarrow> bool" where
  "released (Put, r) \<longleftrightarrow> 0 \<le> r"
| "released (op, r) \<longleftrightarrow> False"

fun last_release :: "ref_op \<times> int \<Rightarrow> bool" where
  "last_release (Put, r) \<longleftrightarrow> r = 1"
| "last_release (op, r) \<longleftrightarrow> False"

fun ref_run :: "ref_op list \<Rightarrow> u32 \<Rightarrow> (ref_op \<times> int) list \<times> u32" where
  "ref_run [] v = ([], v)"
| "ref_run (op # ops) v =
     (let (r, v') = ref_apply op v; (rs, w) = ref_run ops (the v') in ((op, r) # rs, w))"

lemma ref_apply_cases:
  obtains r v' where "ref_apply op v = (r, Some v')"
    "unat v' + (if released (op, r) then 1 else 0) = unat v + (if acquired (op, r) then 1 else 0)"
    "last_release (op, r) \<longleftrightarrow> released (op, r) \<and> v' = 0"
    "v = 0 \<longrightarrow> \<not> acquired (op, r) \<and> \<not> released (op, r)"
    "v' = 0 \<and> v \<noteq> 0 \<longrightarrow> last_release (op, r)" "v \<le> UINT32_MAX - 1 \<longrightarrow> v' \<le> UINT32_MAX - 1"
proof -
  have inc: "unat (v + 1) = Suc (unat v)" if "\<not> UINT32_MAX - 1 \<le> v"
    using that by (subst unat_add_less) (simp_all add: word_le_nat_alt)
  have dec: "Suc (unat (v - 1)) = unat v" if "v \<noteq> 0"
    using that unat_sub_le [of 1 v] by (simp add: word_le_nat_alt word_neq_0_unat)
  have zero: "v + 1 \<noteq> 0" if "\<not> UINT32_MAX - 1 \<le> v"
    using inc [OF that] by auto
  have one: "v - 1 = 0 \<longleftrightarrow> v = 1" by simp
  show thesis
  proof (cases op)
    case Get
    show thesis
      by (rule that [of "fst (ref_apply op v)" "the (snd (ref_apply op v))"])
        (use Get inc zero in \<open>auto simp: tr_refcount_get_def word_le_nat_alt split: if_splits\<close>)
  next
    case Get_unless_zero
    show thesis
      by (rule that [of "fst (ref_apply op v)" "the (snd (ref_apply op v))"])
        (use Get_unless_zero inc zero in \<open>auto simp: tr_refcount_get_unless_zero_def word_le_nat_alt split: if_splits\<close>)
  next
    case Put
    show thesis
      by (rule that [of "fst (ref_apply op v)" "the (snd (ref_apply op v))"])
        (use Put dec one in \<open>auto simp: tr_refcount_put_def word_le_nat_alt split: if_splits\<close>)
  qed
qed

lemma ref_run_dead: "ref_run ops 0 = (rs, w) \<Longrightarrow> w = 0 \<and> (\<forall>x\<in>set rs. \<not> acquired x \<and> \<not> released x)"
proof (induction ops arbitrary: rs w)
  case (Cons op ops)
  obtain r v' where a: "ref_apply op 0 = (r, Some v')"
    "unat v' + (if released (op, r) then 1 else 0) = unat (0 :: u32) + (if acquired (op, r) then 1 else 0)"
    "(0 :: u32) = 0 \<longrightarrow> \<not> acquired (op, r) \<and> \<not> released (op, r)"
    by (rule ref_apply_cases [of op 0]) (rule that)
  then have "v' = 0" by (simp add: word_unat_eq_iff)
  then show ?case using a Cons by (auto split: prod.splits)
qed simp

lemma last_release_released: "last_release x \<Longrightarrow> released x"
  by (cases x rule: last_release.cases) auto

text \<open>One release reports to be the last, none before it, and nothing succeeds after it.\<close>

definition released_once :: "(ref_op \<times> int) list \<Rightarrow> bool" where
  "released_once rs \<longleftrightarrow> (\<exists>before x after. rs = before @ x # after \<and> last_release x \<and>
     (\<forall>y\<in>set before. \<not> last_release y) \<and> (\<forall>y\<in>set after. \<not> acquired y \<and> \<not> released y))"

lemma released_once_now:
  "last_release x \<Longrightarrow> \<forall>y\<in>set rs. \<not> acquired y \<and> \<not> released y \<Longrightarrow> released_once (x # rs)"
  unfolding released_once_def by (intro exI [of _ "[]"] exI [of _ x] exI [of _ rs]) simp

lemma released_once_later:
  assumes "released_once rs" and "\<not> last_release x"
  shows "released_once (x # rs)"
proof -
  from assms(1) obtain b z a where "rs = b @ z # a \<and> last_release z \<and> (\<forall>y\<in>set b. \<not> last_release y) \<and>
      (\<forall>y\<in>set a. \<not> acquired y \<and> \<not> released y)" unfolding released_once_def by blast
  then show ?thesis
    unfolding released_once_def using assms(2) by (intro exI [of _ "x # b"] exI [of _ z] exI [of _ a]) simp
qed

lemma ref_run_count:
  "ref_run ops v = (rs, w) \<Longrightarrow> v \<noteq> 0 \<Longrightarrow> v \<le> UINT32_MAX - 1 \<Longrightarrow>
     unat w + length (filter released rs) = unat v + length (filter acquired rs) \<and> w \<le> UINT32_MAX - 1 \<and>
     (if w = 0 then released_once rs
      else (\<forall>y\<in>set rs. \<not> last_release y))"
proof (induction ops arbitrary: v rs)
  case (Cons op ops)
  obtain r v' where a: "ref_apply op v = (r, Some v')"
    "unat v' + (if released (op, r) then 1 else 0) = unat v + (if acquired (op, r) then 1 else 0)"
    "last_release (op, r) \<longleftrightarrow> released (op, r) \<and> v' = 0"
    "v' = 0 \<and> v \<noteq> 0 \<longrightarrow> last_release (op, r)" "v \<le> UINT32_MAX - 1 \<longrightarrow> v' \<le> UINT32_MAX - 1"
    by (rule ref_apply_cases [of op v]) (rule that)
  obtain rs' where rs: "ref_run ops v' = (rs', w)" "rs = (op, r) # rs'"
    using Cons.prems(1) a(1) by (cases "ref_run ops v'") simp
  show ?case
  proof (cases "v' = 0")
    case True
    with rs(1) have dead: "w = 0" "\<forall>x\<in>set rs'. \<not> acquired x \<and> \<not> released x" using ref_run_dead by auto
    then have f: "filter acquired rs' = []" "filter released rs' = []" by (auto simp: filter_empty_conv)
    have l: "last_release (op, r)" using a(4) True Cons.prems(2) by blast
    have "unat v + (if acquired (op, r) then 1 else 0) = 1"
      using a(2) True last_release_released [OF l] by simp
    then have "unat w + length (filter released rs) = unat v + length (filter acquired rs)"
      unfolding rs(2) dead(1) using f last_release_released [OF l] by (simp split: if_splits)
    moreover have "released_once rs" unfolding rs(2) using l dead(2) by (rule released_once_now)
    ultimately show ?thesis by (simp add: dead(1))
  next
    case False
    then have l: "\<not> last_release (op, r)" using a(3) by blast
    have "v' \<le> UINT32_MAX - 1" using a(5) Cons.prems(3) by blast
    note IH = Cons.IH [OF rs(1) False this]
    have "unat w + length (filter released rs) = unat v + length (filter acquired rs)"
      using IH [THEN conjunct1] a(2) by (simp add: rs(2) split: if_splits)
    then show ?thesis using IH l released_once_later [OF _ l, of rs'] by (simp add: rs(2))
  qed
qed simp

text \<open>C13: from a successful initialisation, in every sequence of operations the counter equals the initial count
  plus the references acquired minus those released, the number of live references. At most one
  release reports that it was the last; it does so exactly when the counter reaches zero, and
  after it no operation acquires or releases anything.\<close>

theorem refcount_single_last_release:
  assumes "tr_refcount_init (Some v0) initial = (0, Some v)" and "ref_run ops v = (rs, w)"
  shows "unat w + length (filter released rs) = unat initial + length (filter acquired rs) \<and>
    (if w = 0 then released_once rs
     else (\<forall>y\<in>set rs. \<not> last_release y))"
proof -
  have v: "v = initial" "v \<noteq> 0" "v \<noteq> UINT32_MAX"
    using assms(1) by (auto simp: tr_refcount_init_def split: if_splits)
  have "v \<le> UINT32_MAX - 1"
    using v(3) unat_lt_2p [of v] by (simp add: word_le_nat_alt word_unat_eq_iff)
  from ref_run_count [OF assms(2) v(2) this] show ?thesis using v(1) by simp
qed

theorem refcount_single_last_release_witness:
  "unat (snd (ref_run [Get, Put, Put, Get_unless_zero] 1)) = 0 \<and>
   length (filter released (fst (ref_run [Get, Put, Put, Get_unless_zero] 1))) = 2"
proof -
  have "ref_run [Get, Put, Put, Get_unless_zero] 1 = ([(Get, 0), (Put, 0), (Put, 1), (Get_unless_zero, 0)], 0)"
    by (simp add: tr_refcount_get_def tr_refcount_put_def tr_refcount_get_unless_zero_def word_le_nat_alt)
  with refcount_single_last_release [of 5 1 1 "[Get, Put, Put, Get_unless_zero]"] show ?thesis
    by (simp add: tr_refcount_init_def)
qed

end
