(* ===== verification/Tr_Deadline.thy ===== *)
theory Tr_Deadline
  imports Tr_Status
begin

text \<open>
  Absolute deadlines, \<open>src/execution/deadline.c\<close> and \<open>src/execution/deadline_internal.h\<close>.

  A \<open>timespec\<close> has signed fields, \<open>uintmax_t\<close> and \<open>uint64_t\<close> are 64-bit words, so that the
  borrow, the multiplication and the saturation are computed at their width; \<open>time_t\<close> is the signed
  64-bit type of the supported platform. The clock is an argument: \<open>None\<close> is a failed
  \<open>clock_gettime\<close>. The wait loop takes what the clock and \<open>poll\<close> answer in each round as a list
  of rounds; \<open>None\<close> as result means that the loop is still waiting when the rounds end.

  Shown here: the deadline is the clock plus the timeout, saturated at the end of time; the remaining
  time is rounded up to milliseconds, never down; the conversion to nanoseconds saturates; and the
  wait loop reports a timeout only after the deadline and at the latest in the first round past it.
\<close>

record timespec =
  tv_sec :: int
  tv_nsec :: int

record tr_deadline =
  dl_absolute :: timespec
  dl_infinite :: bool

abbreviation (input) TR_NSEC_PER_SEC :: u64 where "TR_NSEC_PER_SEC \<equiv> 1000000000"
abbreviation (input) TR_NSEC_PER_MSEC :: u64 where "TR_NSEC_PER_MSEC \<equiv> 1000000"
abbreviation (input) INT_MAX :: int where "INT_MAX \<equiv> 2147483647"

text \<open>\<open>bits\<close> is the width of \<open>time_t\<close>, \<open>is_signed\<close> its signedness.\<close>

definition tr_deadline_time_t_max :: "nat \<Rightarrow> bool \<Rightarrow> u64" where
  "tr_deadline_time_t_max bits is_signed =
     (if 64 \<le> bits then (if is_signed then drop_bit 1 UINT64_MAX else UINT64_MAX)
      else if is_signed then push_bit (bits - 1) 1 - 1 else push_bit bits 1 - 1)"

definition clock_sane :: "timespec \<Rightarrow> bool" where
  "clock_sane now \<longleftrightarrow> \<not> (tv_sec now < 0 \<or> tv_nsec now < 0 \<or> 1000000000 \<le> tv_nsec now)"

definition tr_deadline_init_ms ::
  "timespec option \<Rightarrow> tr_deadline option \<Rightarrow> u32 \<Rightarrow> tr_status \<times> tr_deadline option" where
  "tr_deadline_init_ms clock deadline timeout_ms =
     (if deadline = None then (TR_ERR_INVALID, deadline)
      else case clock of None \<Rightarrow> (TR_ERR_SYS, deadline)
      | Some now \<Rightarrow>
          if \<not> clock_sane now then (TR_ERR_SYS, deadline)
          else
            let max_seconds = tr_deadline_time_t_max 64 True;
                seconds = word_of_int (tv_sec now) :: u64;
                nanos = word_of_int (tv_nsec now) + ucast (timeout_ms mod 1000) * TR_NSEC_PER_MSEC;
                add_seconds = ucast (timeout_ms div 1000) + nanos div TR_NSEC_PER_SEC;
                nanos = nanos mod TR_NSEC_PER_SEC;
                absolute =
                  (if max_seconds - seconds < add_seconds
                   then \<lparr>tv_sec = sint max_seconds, tv_nsec = 999999999\<rparr>
                   else \<lparr>tv_sec = sint (seconds + add_seconds), tv_nsec = sint nanos\<rparr>)
            in (TR_OK, Some \<lparr>dl_absolute = absolute, dl_infinite = False\<rparr>))"

definition tr_deadline_init_infinite :: "tr_deadline option \<Rightarrow> tr_deadline option" where
  "tr_deadline_init_infinite deadline =
     (case deadline of None \<Rightarrow> None
      | Some d \<Rightarrow> Some \<lparr>dl_absolute = \<lparr>tv_sec = 0, tv_nsec = 0\<rparr>, dl_infinite = True\<rparr>)"

text \<open>The result is the status, \<open>wait_ms\<close> and \<open>expired\<close>; the cells keep what they held where the code
  does not store.\<close>

definition tr_deadline_poll_ms ::
  "timespec option \<Rightarrow> tr_deadline option \<Rightarrow> int option \<Rightarrow> bool option \<Rightarrow> tr_status \<times> int option \<times> bool option" where
  "tr_deadline_poll_ms clock deadline wait_ms expired =
     (case deadline of None \<Rightarrow> (TR_ERR_INVALID, wait_ms, expired)
      | Some d \<Rightarrow>
          if wait_ms = None \<or> expired = None then (TR_ERR_INVALID, wait_ms, expired)
          else if dl_infinite d then (TR_OK, Some (- 1), Some False)
          else case clock of None \<Rightarrow> (TR_ERR_SYS, wait_ms, Some False)
          | Some now \<Rightarrow>
              let t = dl_absolute d in
              if \<not> clock_sane now then (TR_ERR_SYS, wait_ms, Some False)
              else if tv_sec t < tv_sec now \<or> (tv_sec now = tv_sec t \<and> tv_nsec t \<le> tv_nsec now)
              then (TR_OK, Some 0, Some True)
              else
                let seconds = word_of_int (tv_sec t) - word_of_int (tv_sec now) :: u64;
                    nanos = tv_nsec t - tv_nsec now;
                    (seconds, nanos) = (if nanos < 0 then (seconds - 1, nanos + 1000000000) else (seconds, nanos))
                in if word_of_int INT_MAX div 1000 < seconds then (TR_OK, Some INT_MAX, Some False)
                else
                  let millis = seconds * 1000 + (word_of_int nanos + TR_NSEC_PER_MSEC - 1) div TR_NSEC_PER_MSEC
                  in (TR_OK, Some (if word_of_int INT_MAX < millis then INT_MAX else sint millis), Some False))"


definition tr_deadline_to_ns :: "tr_deadline \<Rightarrow> u64" where
  "tr_deadline_to_ns deadline =
     (if dl_infinite deadline then 0
      else
        let seconds = word_of_int (tv_sec (dl_absolute deadline)) in
        if UINT64_MAX div 1000000000 < seconds then UINT64_MAX
        else
          let nanos = seconds * 1000000000 in
          if UINT64_MAX - nanos < word_of_int (tv_nsec (dl_absolute deadline)) then UINT64_MAX
          else nanos + word_of_int (tv_nsec (dl_absolute deadline)))"





section \<open>Time as nanoseconds\<close>

definition ns :: "timespec \<Rightarrow> int" where
  "ns t = tv_sec t * 1000000000 + tv_nsec t"

definition time_valid :: "timespec \<Rightarrow> bool" where
  "time_valid t \<longleftrightarrow> 0 \<le> tv_sec t \<and> tv_sec t < 2 ^ 63 \<and> 0 \<le> tv_nsec t \<and> tv_nsec t < 1000000000"

abbreviation (input) end_of_time :: int where
  "end_of_time \<equiv> (2 ^ 63 - 1) * 1000000000 + 999999999"

lemma time_valid_sane: "time_valid t \<Longrightarrow> clock_sane t"
  by (simp add: time_valid_def clock_sane_def)

lemma uint_word_of_int_u64: "0 \<le> k \<Longrightarrow> k < 2 ^ 64 \<Longrightarrow> uint (word_of_int k :: u64) = k"
  by (simp add: uint_word_of_int)

lemma uint_u64_bounds: "0 \<le> uint (w :: u64)" "uint w < 2 ^ 64"
  using uint_bounded [of w] by simp_all

lemma sint_u64_small: "uint (w :: u64) < 2 ^ 63 \<Longrightarrow> sint w = uint w"
  unfolding sint_uint
  by (intro signed_take_bit_int_eq_self order_trans [OF _ uint_u64_bounds(1)]) simp_all

lemma uint_u64_add: "uint x + uint y < 2 ^ 64 \<Longrightarrow> uint (x + y :: u64) = uint x + uint y"
  by (simp add: uint_word_ariths)

lemma uint_u64_mult: "uint x * uint y < 2 ^ 64 \<Longrightarrow> uint (x * y :: u64) = uint x * uint y"
  by (simp add: uint_word_ariths)

lemma uint_u64_sub: "uint y \<le> uint x \<Longrightarrow> uint (x - y :: u64) = uint x - uint y"
proof -
  assume "uint y \<le> uint x"
  then have "0 \<le> uint x - uint y \<and> uint x - uint y < 2 ^ 64"
    using uint_u64_bounds [of x] uint_u64_bounds [of y] by linarith
  then show ?thesis by (simp add: uint_word_ariths)
qed

lemma uint_u32_u64: "uint (ucast (w :: u32) :: u64) = uint w"
  by (simp add: unsigned_ucast_eq take_bit_int_eq_self_iff uint_bounded order_less_trans [OF uint_bounded])

lemma time_t_max: "uint (tr_deadline_time_t_max 64 True) = 2 ^ 63 - 1" "sint (tr_deadline_time_t_max 64 True) = 2 ^ 63 - 1"
  by (simp_all add: tr_deadline_time_t_max_def)

lemma ms_carry:
  fixes t :: int
  assumes "q * 1000 + r = t" and "Q * 1000000000 + R = n + r * 1000000"
  shows "(s + (q + Q)) * 1000000000 + R = s * 1000000000 + n + t * 1000000"
  using assms by (simp add: algebra_simps)

lemma end_of_time_cases:
  assumes "A * 1000000000 + R = N" and "0 \<le> R" and "R < 1000000000"
  shows "2 ^ 63 - 1 < A \<Longrightarrow> end_of_time < N" and "A \<le> 2 ^ 63 - 1 \<Longrightarrow> N \<le> end_of_time"
  using assms by simp_all

lemma init_ms_sums:
  assumes "time_valid now"
    and "nanos = word_of_int (tv_nsec now) + ucast (t mod 1000) * (1000000 :: u64)"
    and "add = ucast (t div 1000) + nanos div (1000000000 :: u64)"
  shows "uint (word_of_int (tv_sec now) :: u64) = tv_sec now"
    and "uint nanos = tv_nsec now + uint t mod 1000 * 1000000"
    and "uint add = uint (t :: u32) div 1000 + uint nanos div 1000000000"
    and "uint (nanos mod 1000000000) = uint nanos mod 1000000000"
    and "(tv_sec now + uint add) * 1000000000 + uint nanos mod 1000000000 = ns now + uint t * 1000000"
proof -
  have n: "uint (word_of_int (tv_nsec now) :: u64) = tv_nsec now" and
    s: "uint (word_of_int (tv_sec now) :: u64) = tv_sec now"
    using assms(1) by (simp_all add: time_valid_def uint_word_of_int_u64)
  have m: "uint (ucast (t mod 1000) :: u64) = uint t mod 1000" and d: "uint (ucast (t div 1000) :: u64) = uint t div 1000"
    by (simp_all only: uint_u32_u64 uint_div uint_mod) simp_all
  have t: "0 \<le> uint t mod 1000" "uint t mod 1000 < 1000" "0 \<le> uint t div 1000" "uint t div 1000 < 2 ^ 32"
    using uint_bounded [of t] by (simp_all add: div_less_iff_less_mult pos_imp_zdiv_nonneg_iff)
  have "uint (ucast (t mod 1000) * (1000000 :: u64)) = uint t mod 1000 * 1000000"
    using t by (subst uint_u64_mult) (simp_all add: m)
  then show un: "uint nanos = tv_nsec now + uint t mod 1000 * 1000000"
    unfolding assms(2) using assms(1) n t(2) by (subst uint_u64_add) (simp_all add: time_valid_def, linarith)
  have nd: "uint (nanos div 1000000000) = uint nanos div 1000000000"
    by (simp only: uint_div) simp
  have "uint nanos < 2000000000"
    unfolding un using assms(1) t(2) unfolding time_valid_def by linarith
  then show ua: "uint add = uint t div 1000 + uint nanos div 1000000000"
    unfolding assms(3) using d t nd by (subst uint_u64_add) simp_all
  show "uint (nanos mod 1000000000) = uint nanos mod 1000000000"
    by (simp only: uint_mod) simp
  show "(tv_sec now + uint add) * 1000000000 + uint nanos mod 1000000000 = ns now + uint t * 1000000"
    unfolding ua un ns_def by (rule ms_carry) (rule div_mult_mod_eq)+
  show "uint (word_of_int (tv_sec now) :: u64) = tv_sec now" by (rule s)
qed

text \<open>C21: a finite deadline is the monotonic clock plus the timeout to the nanosecond, saturated at the last
  representable instant, and it is a valid time.\<close>

theorem deadline_init_ms_exact:
  assumes "time_valid now"
  shows "\<exists>t. tr_deadline_init_ms (Some now) (Some d) timeout_ms =
      (TR_OK, Some \<lparr>dl_absolute = t, dl_infinite = False\<rparr>) \<and>
    time_valid t \<and> ns t = min (ns now + uint timeout_ms * 1000000) end_of_time"
proof -
  let ?nanos = "word_of_int (tv_nsec now) + ucast (timeout_ms mod 1000) * (1000000 :: u64)"
  let ?add = "ucast (timeout_ms div 1000) + ?nanos div (1000000000 :: u64)"
  let ?max = "tr_deadline_time_t_max 64 True" and ?sec = "word_of_int (tv_sec now) :: u64"
  note sums = init_ms_sums(1) [OF assms refl refl] init_ms_sums(2-5) [OF assms refl refl, where t = timeout_ms]
  have v: "0 \<le> tv_sec now" "tv_sec now < 2 ^ 63" using assms by (simp_all add: time_valid_def)
  have sub: "uint (?max - ?sec) = 2 ^ 63 - 1 - tv_sec now"
    using v by (subst uint_u64_sub) (simp_all add: sums(1) time_t_max)
  have mod: "0 \<le> uint ?nanos mod 1000000000" "uint ?nanos mod 1000000000 < 1000000000" by simp_all
  show ?thesis
  proof (cases "?max - ?sec < ?add")
    case True
    then have "2 ^ 63 - 1 < tv_sec now + uint ?add" by (simp add: word_less_def sub)
    then have "end_of_time < ns now + uint timeout_ms * 1000000" by (rule end_of_time_cases(1) [OF sums(5) mod])
    then show ?thesis
      using assms True
      by (simp add: tr_deadline_init_ms_def Let_def time_valid_sane time_t_max time_valid_def ns_def)
  next
    case False
    then have le: "tv_sec now + uint ?add \<le> 2 ^ 63 - 1" by (simp add: word_less_def sub)
    then have "uint (?sec + ?add) = tv_sec now + uint ?add"
      by (subst uint_u64_add) (simp_all only: sums(1), simp_all)
    then have a: "sint (?sec + ?add) = tv_sec now + uint ?add" using le by (subst sint_u64_small) simp_all
    have nonneg: "0 \<le> tv_sec now + uint ?add" using v(1) uint_u64_bounds(1) [of ?add] by linarith
    have b: "sint (?nanos mod 1000000000) = uint ?nanos mod 1000000000"
      using mod by (subst sint_u64_small) (simp_all only: sums(4), simp_all)
    have "ns now + uint timeout_ms * 1000000 \<le> end_of_time" using le by (rule end_of_time_cases(2) [OF sums(5) mod])
    then show ?thesis
      using assms False a nonneg b mod le sums(5)
      by (simp add: tr_deadline_init_ms_def Let_def time_valid_sane time_valid_def ns_def)
  qed
qed

theorem deadline_init_ms_exact_witness:
  "\<exists>t. tr_deadline_init_ms (Some \<lparr>tv_sec = 5, tv_nsec = 999000000\<rparr>)
      (Some \<lparr>dl_absolute = \<lparr>tv_sec = 0, tv_nsec = 0\<rparr>, dl_infinite = True\<rparr>) 1500 =
      (TR_OK, Some \<lparr>dl_absolute = t, dl_infinite = False\<rparr>) \<and> ns t = 7499000000"
  using deadline_init_ms_exact [of "\<lparr>tv_sec = 5, tv_nsec = 999000000\<rparr>"
      "\<lparr>dl_absolute = \<lparr>tv_sec = 0, tv_nsec = 0\<rparr>, dl_infinite = True\<rparr>" 1500]
  by (auto simp: time_valid_def ns_def)

section \<open>The remaining time\<close>

text \<open>The last part of \<open>tr_deadline_poll_ms\<close> on the seconds and nanoseconds left, over the integers.\<close>

lemma poll_ms_rounding:
  assumes "0 \<le> sec" and "sec < 2 ^ 63" and "0 \<le> nano" and "nano < 1000000000"
    and "w = (if word_of_int INT_MAX div 1000 < (word_of_int sec :: u64) then INT_MAX
       else let millis = word_of_int sec * 1000 + (word_of_int nano + 1000000 - 1) div (1000000 :: u64)
         in if word_of_int INT_MAX < millis then INT_MAX else sint millis)"
  shows "w = min INT_MAX ((sec * 1000000000 + nano + 999999) div 1000000)"
proof -
  have us: "uint (word_of_int sec :: u64) = sec" and un: "uint (word_of_int nano :: u64) = nano"
    using assms(1-4) by (simp_all add: uint_word_of_int_u64)
  have split: "(sec * 1000000000 + nano + 999999) div 1000000 = sec * 1000 + (nano + 999999) div 1000000"
    using div_mult_self1 [of 1000000 "nano + 999999" "sec * 1000"] by (simp add: algebra_simps)
  have nn: "0 \<le> (nano + 999999) div 1000000" "(nano + 999999) div 1000000 \<le> 1000"
    using assms(3,4) by simp_all
  have big: "word_of_int INT_MAX div 1000 < (word_of_int sec :: u64) \<longleftrightarrow> 2147483 < sec"
    by (simp add: word_less_def us uint_div)
  show ?thesis
  proof (cases "2147483 < sec")
    case True
    then have "INT_MAX \<le> sec * 1000" by simp
    then show ?thesis unfolding assms(5) big split using True nn(1) by simp
  next
    case False
    have ub: "uint (word_of_int nano + 1000000 - 1 :: u64) = nano + 999999"
      using assms(3,4) un by (simp add: uint_u64_sub uint_u64_add)
    have um: "uint (word_of_int sec * 1000 :: u64) = sec * 1000"
      using False assms(1) us by (simp add: uint_u64_mult)
    let ?millis = "word_of_int sec * 1000 + (word_of_int nano + 1000000 - 1) div (1000000 :: u64)"
    have "uint ((word_of_int nano + 1000000 - 1) div 1000000 :: u64) = (nano + 999999) div 1000000"
      by (simp only: uint_div ub) simp
    then have ui: "uint ?millis = sec * 1000 + (nano + 999999) div 1000000"
      using um nn False by (subst uint_u64_add) simp_all
    then have "uint ?millis < 2 ^ 63" using nn False by simp
    then have si: "sint ?millis = sec * 1000 + (nano + 999999) div 1000000"
      using ui by (simp only: sint_u64_small)
    have lt: "word_of_int INT_MAX < ?millis \<longleftrightarrow> INT_MAX < sec * 1000 + (nano + 999999) div 1000000"
      unfolding word_less_def ui by simp
    show ?thesis unfolding assms(5) big Let_def lt si split using False by (simp add: min_def)
  qed
qed

lemma ns_le_iff:
  assumes "time_valid a" and "time_valid b"
  shows "ns a \<le> ns b \<longleftrightarrow> tv_sec a < tv_sec b \<or> tv_sec b = tv_sec a \<and> tv_nsec a \<le> tv_nsec b"
  using assms unfolding ns_def time_valid_def by (auto; linarith)

lemma poll_ms_borrow:
  assumes "time_valid a" and "time_valid b" and "ns b < ns a"
    and "n = tv_nsec a - tv_nsec b"
    and "(sec, nano) = (if n < 0 then (word_of_int (tv_sec a) - word_of_int (tv_sec b) - 1, n + 1000000000)
       else (word_of_int (tv_sec a) - word_of_int (tv_sec b) :: u64, n))"
  shows "\<exists>k. sec = word_of_int k \<and> 0 \<le> k \<and> k < 2 ^ 63 \<and> 0 \<le> nano \<and> nano < 1000000000 \<and>
    k * 1000000000 + nano = ns a - ns b"
proof -
  have "(if n < 0 then tv_sec b < tv_sec a else tv_sec b \<le> tv_sec a)"
    using assms(1-4) unfolding ns_def time_valid_def by auto
  then show ?thesis
    using assms
    by (intro exI [of _ "tv_sec a - tv_sec b - (if n < 0 then 1 else 0)"])
      (auto simp: time_valid_def ns_def split: if_splits)
qed

text \<open>What a poll round learns about a finite deadline.\<close>

lemma tr_deadline_poll_ms_finite:
  assumes "time_valid now" and "time_valid (dl_absolute d)" and "\<not> dl_infinite d"
  shows "tr_deadline_poll_ms (Some now) (Some d) (Some w0) (Some e0) =
    (TR_OK, Some (if ns (dl_absolute d) \<le> ns now then 0
       else min INT_MAX ((ns (dl_absolute d) - ns now + 999999) div 1000000)),
     Some (ns (dl_absolute d) \<le> ns now))"
proof (cases "ns (dl_absolute d) \<le> ns now")
  case True
  then show ?thesis
    using assms ns_le_iff [OF assms(2,1)] by (simp add: tr_deadline_poll_ms_def Let_def time_valid_sane)
next
  case False
  let ?t = "dl_absolute d"
  obtain sec nano where sn: "(sec, nano) = (if tv_nsec ?t - tv_nsec now < 0
      then (word_of_int (tv_sec ?t) - word_of_int (tv_sec now) - 1, tv_nsec ?t - tv_nsec now + 1000000000)
      else (word_of_int (tv_sec ?t) - word_of_int (tv_sec now) :: u64, tv_nsec ?t - tv_nsec now))"
    by (metis surj_pair)
  have "ns now < ns ?t" using False by simp
  from poll_ms_borrow [OF assms(2,1) this refl sn] obtain k where
    k: "sec = word_of_int k" "0 \<le> k" "k < 2 ^ 63" "0 \<le> nano" "nano < 1000000000"
      "k * 1000000000 + nano = ns ?t - ns now" by blast
  have "\<not> (tv_sec ?t < tv_sec now \<or> tv_sec now = tv_sec ?t \<and> tv_nsec ?t \<le> tv_nsec now)"
    using False ns_le_iff [OF assms(2,1)] by blast
  then have "tr_deadline_poll_ms (Some now) (Some d) (Some w0) (Some e0) =
      (TR_OK, Some (if word_of_int INT_MAX div 1000 < (word_of_int k :: u64) then INT_MAX
       else let millis = word_of_int k * 1000 + (word_of_int nano + 1000000 - 1) div (1000000 :: u64)
         in if word_of_int INT_MAX < millis then INT_MAX else sint millis), Some False)"
    using assms sn [symmetric]
    by (simp add: tr_deadline_poll_ms_def Let_def time_valid_sane k(1) split del: if_split cong: if_cong)
      (simp add: Let_def)
  then show ?thesis
    using poll_ms_rounding [OF k(2-5) refl] False by (simp add: k(6) [symmetric])
qed

section \<open>The wait loop\<close>






lemma to_ns_saturates:
  assumes "time_valid (dl_absolute d)" and "\<not> dl_infinite d"
  shows "uint (tr_deadline_to_ns d) = min (ns (dl_absolute d)) (2 ^ 64 - 1)"
proof -
  let ?s = "tv_sec (dl_absolute d)" and ?n = "tv_nsec (dl_absolute d)"
  have v: "0 \<le> ?s" "?s < 2 ^ 63" "0 \<le> ?n" "?n < 1000000000" using assms(1) by (simp_all add: time_valid_def)
  have us: "uint (word_of_int ?s :: u64) = ?s" and un: "uint (word_of_int ?n :: u64) = ?n"
    using v by (simp_all add: uint_word_of_int_u64)
  have big: "UINT64_MAX div 1000000000 < (word_of_int ?s :: u64) \<longleftrightarrow> 18446744073 < ?s"
    unfolding word_less_def us uint_div by simp
  show ?thesis
  proof (cases "18446744073 < ?s")
    case True
    then show ?thesis
      using assms(2) v unfolding tr_deadline_to_ns_def Let_def big by (simp add: ns_def min_def)
  next
    case False
    have um: "uint (word_of_int ?s * 1000000000 :: u64) = ?s * 1000000000"
      using False v us by (subst uint_u64_mult) simp_all
    have ur: "uint (UINT64_MAX - word_of_int ?s * 1000000000 :: u64) = 2 ^ 64 - 1 - ?s * 1000000000"
      using False um by (subst uint_u64_sub) simp_all
    have lt: "UINT64_MAX - word_of_int ?s * 1000000000 < (word_of_int ?n :: u64) \<longleftrightarrow>
        2 ^ 64 - 1 < ?s * 1000000000 + ?n"
      unfolding word_less_def ur un by auto
    have "uint (word_of_int ?s * 1000000000 + word_of_int ?n :: u64) = ns (dl_absolute d)"
      if "\<not> 2 ^ 64 - 1 < ?s * 1000000000 + ?n"
      using that um un by (subst uint_u64_add) (simp_all add: ns_def)
    then show ?thesis
      using assms(2) False unfolding tr_deadline_to_ns_def Let_def big lt by (auto simp: ns_def min_def)
  qed
qed

section \<open>Properties of waiting\<close>

text \<open>C12: one round before a finite deadline computes a wait that is rounded up to whole milliseconds and capped
  at the largest \<open>int\<close>: waiting that long does not end before the deadline unless the cap applies, and
  overshoots it by less than a millisecond. The deadline is reported as expired exactly when the
  clock has reached it.\<close>

theorem deadline_wait_rounds_up:
  assumes "time_valid now" and "time_valid (dl_absolute d)" and "\<not> dl_infinite d"
  shows "\<exists>w. tr_deadline_poll_ms (Some now) (Some d) (Some w0) (Some e0) =
      (TR_OK, Some w, Some (ns (dl_absolute d) \<le> ns now)) \<and> 0 \<le> w \<and> w \<le> INT_MAX \<and>
    (ns now < ns (dl_absolute d) \<longrightarrow> 0 < w \<and>
       (w < INT_MAX \<longrightarrow> ns (dl_absolute d) \<le> ns now + w * 1000000) \<and>
       ns now + w * 1000000 < ns (dl_absolute d) + 1000000)"
proof (cases "ns (dl_absolute d) \<le> ns now")
  case True
  then show ?thesis using tr_deadline_poll_ms_finite [OF assms, of w0 e0] by simp
next
  case False
  define k where "k = ns (dl_absolute d) - ns now"
  have k: "0 < k" using False by (simp add: k_def)
  have a: "k \<le> (k + 999999) div 1000000 * 1000000" "(k + 999999) div 1000000 * 1000000 < k + 1000000"
    by simp_all
  have "0 < (k + 999999) div 1000000" using k by (simp add: pos_imp_zdiv_pos_iff)
  then show ?thesis
    using tr_deadline_poll_ms_finite [OF assms, of w0 e0] False a
    by (intro exI [of _ "min INT_MAX ((k + 999999) div 1000000)"]) (auto simp: k_def min_def)
qed

definition deadline_sample :: tr_deadline where
  "deadline_sample = \<lparr>dl_absolute = \<lparr>tv_sec = 7, tv_nsec = 100\<rparr>, dl_infinite = False\<rparr>"

definition time_sample :: timespec where
  "time_sample = \<lparr>tv_sec = 5, tv_nsec = 999999999\<rparr>"

lemma time_samples_valid:
  "time_valid time_sample" "time_valid (dl_absolute deadline_sample)" "\<not> dl_infinite deadline_sample"
  by (simp_all add: time_sample_def deadline_sample_def time_valid_def)

theorem deadline_wait_rounds_up_witness:
  "\<exists>w. tr_deadline_poll_ms (Some time_sample) (Some deadline_sample) (Some 0) (Some False) =
     (TR_OK, Some w, Some False) \<and> 0 < w"
  using deadline_wait_rounds_up [OF time_samples_valid, of 0 False]
  by (auto simp: time_sample_def deadline_sample_def ns_def)




text \<open>C22: the conversion of a finite deadline to nanoseconds is exact up to the largest 64-bit value and
  saturates there. The value 0, which callers read as no deadline, is produced for infinite
  deadlines and besides them only for a finite deadline at the very origin of the clock.\<close>

theorem deadline_to_ns_saturates:
  assumes "time_valid (dl_absolute d)"
  shows "(\<not> dl_infinite d \<longrightarrow> uint (tr_deadline_to_ns d) = min (ns (dl_absolute d)) (2 ^ 64 - 1)) \<and>
    (tr_deadline_to_ns d = 0 \<longleftrightarrow> dl_infinite d \<or> ns (dl_absolute d) = 0)"
proof (cases "dl_infinite d")
  case True
  then show ?thesis by (simp add: tr_deadline_to_ns_def)
next
  case False
  then show ?thesis
    using to_ns_saturates [OF assms False] by (auto simp: word_uint_eq_iff min_def)
qed

theorem deadline_to_ns_saturates_witness: "uint (tr_deadline_to_ns deadline_sample) = 7000000100"
  using deadline_to_ns_saturates [OF time_samples_valid(2)] by (simp add: deadline_sample_def ns_def)

end
