(* ===== verification/Tr_Ring.thy ===== *)
theory Tr_Ring
  imports Tr_Prelude
begin

text \<open>
  The contract of a bounded ring of items embedded in a queue structure: an array, a capacity, a head, a
  tail and a count, all 32-bit. The command queue and the completion queue both have these fields and
  change them in the same two ways, storing at the tail and advancing the head. The locale states
  these two changes as laws; under the ring invariant the queue then holds a list, a store appends
  to it and an advance removes its first element, and a batch of advances yields a prefix.
\<close>

locale ring =
  fixes items :: "'q \<Rightarrow> 'a list" and capacity head tail count :: "'q \<Rightarrow> u32"
    and store :: "'a \<Rightarrow> 'q \<Rightarrow> 'q" and advance :: "'q \<Rightarrow> 'q"
  assumes store_items: "items (store x q) = (items q)[unat (tail q) := x]"
    and store_capacity: "capacity (store x q) = capacity q"
    and store_head: "head (store x q) = head q"
    and store_tail: "tail (store x q) = (tail q + 1) mod capacity q"
    and store_count: "count (store x q) = count q + 1"
    and advance_items: "items (advance q) = items q"
    and advance_capacity: "capacity (advance q) = capacity q"
    and advance_head: "head (advance q) = (head q + 1) mod capacity q"
    and advance_tail: "tail (advance q) = tail q"
    and advance_count: "count (advance q) = count q - 1"
begin

definition ring_inv :: "'q \<Rightarrow> bool" where
  "ring_inv q \<longleftrightarrow> length (items q) = unat (capacity q) \<and> unat (head q) < unat (capacity q) \<and>
     unat (count q) \<le> unat (capacity q) \<and>
     unat (tail q) = (unat (head q) + unat (count q)) mod unat (capacity q)"

definition contents :: "'q \<Rightarrow> 'a list" where
  "contents q = map (\<lambda>i. items q ! ((unat (head q) + i) mod unat (capacity q))) [0..<unat (count q)]"

lemma length_contents [simp]: "length (contents q) = unat (count q)"
  by (simp add: contents_def)

lemma contents_empty_iff: "contents q = [] \<longleftrightarrow> count q = 0"
  by (simp add: contents_def unat_eq_0)

lemma unat_step_mod:
  fixes x c :: u32
  assumes "unat x < unat c"
  shows "unat ((x + 1) mod c) = (unat x + 1) mod unat c"
proof -
  have "unat x + 1 < 2 ^ 32" using assms unat_lt_2p [of c] by simp
  then show ?thesis by (simp add: unat_mod_distrib unat_add_less)
qed

lemma unat_count_Suc: "ring_inv q \<Longrightarrow> count q \<noteq> capacity q \<Longrightarrow> unat (count q + 1) = Suc (unat (count q))"
proof -
  assume "ring_inv q" and "count q \<noteq> capacity q"
  then have "unat (count q) < unat (capacity q)"
    by (auto simp: ring_inv_def word_unat_eq_iff)
  then have "unat (count q) + 1 < 2 ^ 32" using unat_lt_2p [of "capacity q"] by simp
  then show ?thesis by (simp add: unat_add_less)
qed

lemma unat_count_pred: "count q \<noteq> 0 \<Longrightarrow> Suc (unat (count q - 1)) = unat (count q)"
  using unat_sub_le [of 1 "count q"] by (simp add: word_le_nat_alt word_neq_0_unat)

lemma store_inv:
  assumes "ring_inv q" and "count q \<noteq> capacity q"
  shows "ring_inv (store x q)"
proof -
  have c: "unat (count q) < unat (capacity q)" and t: "unat (tail q) < unat (capacity q)"
    using assms by (auto simp: ring_inv_def word_unat_eq_iff)
  have "unat (tail (store x q)) = (unat (head q) + Suc (unat (count q))) mod unat (capacity q)"
    using assms(1) t by (simp add: store_tail unat_step_mod ring_inv_def mod_Suc_eq)
  then show ?thesis
    using assms c unat_count_Suc [OF assms]
    by (simp add: ring_inv_def store_items store_capacity store_head store_count)
qed

lemma mod_offsets_distinct:
  fixes h i n c :: nat
  assumes "i < n" and "n < c"
  shows "(h + i) mod c \<noteq> (h + n) mod c"
proof
  assume "(h + i) mod c = (h + n) mod c"
  then have "c dvd (h + n) - (h + i)" using assms by (intro mod_eq_dvd_iff_nat [THEN iffD1]) auto
  then show False using assms by (auto dest: dvd_imp_le)
qed

lemma store_contents:
  assumes "ring_inv q" and "count q \<noteq> capacity q"
  shows "contents (store x q) = contents q @ [x]"
proof (rule nth_equalityI)
  have u: "unat (count q + 1) = Suc (unat (count q))" by (rule unat_count_Suc [OF assms])
  then show "length (contents (store x q)) = length (contents q @ [x])" by (simp add: store_count)
  have c: "unat (count q) < unat (capacity q)"
    using assms by (auto simp: ring_inv_def word_unat_eq_iff)
  fix i assume "i < length (contents (store x q))"
  then have i: "i < Suc (unat (count q))" by (simp add: store_count u)
  have t: "unat (tail q) = (unat (head q) + unat (count q)) mod unat (capacity q)"
    and l: "length (items q) = unat (capacity q)" using assms(1) by (simp_all add: ring_inv_def)
  show "contents (store x q) ! i = (contents q @ [x]) ! i"
  proof (cases "i = unat (count q)")
    case True
    then show ?thesis
      using c l t by (simp add: contents_def store_count store_items store_head store_capacity u nth_append)
  next
    case False
    then have "i < unat (count q)" using i by simp
    then show ?thesis
      using mod_offsets_distinct [OF _ c, of i "unat (head q)"]
      by (simp add: contents_def store_count store_items store_head store_capacity u nth_append t nth_list_update)
  qed
qed

lemma advance_inv:
  assumes "ring_inv q" and "count q \<noteq> 0"
  shows "ring_inv (advance q)"
proof -
  have p: "Suc (unat (count q - 1)) = unat (count q)" using assms(2) by (rule unat_count_pred)
  have h: "unat (head q) < unat (capacity q)" using assms(1) by (simp add: ring_inv_def)
  have "(unat (head q) + unat (count q)) mod unat (capacity q) =
      ((unat (head q) + 1) mod unat (capacity q) + unat (count q - 1)) mod unat (capacity q)"
    by (simp add: mod_simps flip: p)
  then show ?thesis
    using assms h p
    by (simp add: ring_inv_def advance_items advance_capacity advance_head advance_tail advance_count
        unat_step_mod)
qed

lemma advance_contents:
  assumes "ring_inv q" and "count q \<noteq> 0"
  shows "contents q = items q ! unat (head q) # contents (advance q)"
proof -
  have p: "Suc (unat (count q - 1)) = unat (count q)" using assms(2) by (rule unat_count_pred)
  have h: "unat (head q) < unat (capacity q)" using assms(1) by (simp add: ring_inv_def)
  have "[0..<unat (count q)] = 0 # map Suc [0..<unat (count q - 1)]"
    by (simp add: map_Suc_upt upt_conv_Cons flip: p del: upt_Suc)
  then show ?thesis
    using h by (simp add: contents_def advance_items advance_capacity advance_head advance_count
        unat_step_mod mod_simps)
qed

text \<open>Popping at most \<open>n\<close> items one by one.\<close>

fun pop_upto :: "nat \<Rightarrow> 'q \<Rightarrow> 'a list \<times> 'q" where
  "pop_upto 0 q = ([], q)"
| "pop_upto (Suc n) q =
     (if count q = 0 then ([], q)
      else let (xs, q') = pop_upto n (advance q) in (items q ! unat (head q) # xs, q'))"

lemma pop_upto_prefix:
  assumes "ring_inv q" and "pop_upto n q = (xs, q')"
  shows "ring_inv q' \<and> xs = take n (contents q) \<and> contents q' = drop n (contents q)"
  using assms
proof (induction n q arbitrary: xs rule: pop_upto.induct)
  case (2 n q)
  show ?case
  proof (cases "count q = 0")
    case True
    then have "contents q = []" by (simp add: contents_empty_iff)
    then show ?thesis using True 2 by simp
  next
    case False
    obtain ys where ys: "pop_upto n (advance q) = (ys, q')" "xs = items q ! unat (head q) # ys"
      using 2(3) False by (auto split: prod.splits)
    have "ring_inv q' \<and> ys = take n (contents (advance q)) \<and> contents q' = drop n (contents (advance q))"
      using 2(1) [OF False advance_inv [OF 2(2) False] ys(1)] .
    then show ?thesis using advance_contents [OF 2(2) False] ys(2) by simp
  qed
qed simp

end

end
