(* ===== verification/Tr_Command_Queue.thy ===== *)
theory Tr_Command_Queue
  imports Tr_Status Tr_Ring
begin

text \<open>
  The command queue of a reactor, \<open>src/execution/command_queue.c\<close>: a bounded ring filled by any number
  of producers under a lock and drained in batches by the reactor thread, with a separate slot for the
  one STOP command, FIFO sequence numbers, a wake-up flag and an admission generation for producers
  that wait for space.

  Each critical section is one function on the queue record. The blocking \<open>tr_command_queue_push_wait\<close>
  is the loop of its critical sections: the argument \<open>env\<close> is what the other threads do to the queue
  while this one sleeps in \<open>pthread_cond_wait\<close> and the error it returns; the result \<open>None\<close> means that
  it is still asleep. Pointers carried by a command are addresses. The mutex and condition variable
  themselves hold no data of the model; the outcomes of their initialisation are arguments.

  Shown here: the queue is a first-in first-out sequence of the accepted commands with STOP last, the
  sequence numbers are consecutive, the wake-up flag is set exactly while something is pending, and
  a waiting producer is only ever admitted in the generation it asked for.
\<close>

datatype command_payload =
    U_none
  | U_adopt (adopt_fd: int)
  | U_send (send_item: "nat option")
  | U_abort (abort_status: int)
  | U_handler (handler_request: "nat option")
  | U_quiesce (quiesce_sync: "nat option")
  | U_call (call_fn: nat) (call_arg: "nat option") (call_sync: "nat option")

abbreviation (input) TR_CMD_SEND :: u16 where "TR_CMD_SEND \<equiv> 2"
abbreviation (input) TR_CMD_RESUME_RX :: u16 where "TR_CMD_RESUME_RX \<equiv> 3"
abbreviation (input) TR_CMD_CALL :: u16 where "TR_CMD_CALL \<equiv> 8"
abbreviation (input) TR_CMD_STOP :: u16 where "TR_CMD_STOP \<equiv> 9"

record tr_command =
  cmd_type :: u16
  cmd_reserved :: u16
  cmd_slot :: u32
  cmd_generation :: u32
  cmd_sequence :: u64
  cmd_u :: command_payload

definition command_zero :: tr_command where
  "command_zero = \<lparr>cmd_type = 0, cmd_reserved = 0, cmd_slot = 0, cmd_generation = 0, cmd_sequence = 0,
     cmd_u = U_none\<rparr>"

record tr_command_queue =
  cq_items :: "tr_command list"
  cq_capacity :: u32
  cq_head :: u32
  cq_tail :: u32
  cq_count :: u32
  cq_peak_count :: u32
  cq_full_events :: u64
  cq_next_sequence :: u64
  cq_wait_generation :: u64
  cq_waiters :: u32
  cq_wait_accepting :: bool
  cq_pushed_send :: u64
  cq_full_send :: u64
  cq_pushed_resume_rx :: u64
  cq_full_resume_rx :: u64
  cq_pushed_call :: u64
  cq_full_call :: u64
  cq_pushed_other :: u64
  cq_full_other :: u64
  cq_wake_pending :: bool
  cq_stop_command :: tr_command
  cq_stop_pending :: bool
  cq_stop_closed :: bool

definition command_queue_zero :: tr_command_queue where
  "command_queue_zero = \<lparr>cq_items = [], cq_capacity = 0, cq_head = 0, cq_tail = 0, cq_count = 0,
     cq_peak_count = 0, cq_full_events = 0, cq_next_sequence = 0, cq_wait_generation = 0, cq_waiters = 0,
     cq_wait_accepting = False, cq_pushed_send = 0, cq_full_send = 0, cq_pushed_resume_rx = 0,
     cq_full_resume_rx = 0, cq_pushed_call = 0, cq_full_call = 0, cq_pushed_other = 0, cq_full_other = 0,
     cq_wake_pending = False, cq_stop_command = command_zero, cq_stop_pending = False,
     cq_stop_closed = False\<rparr>"

text \<open>\<open>alloc_ok\<close>, \<open>mutex_ok\<close> and \<open>cond_ok\<close> say whether \<open>calloc\<close> and the two \<open>pthread\<close>
  initialisations succeed.\<close>

definition tr_command_queue_init ::
  "bool \<Rightarrow> bool \<Rightarrow> bool \<Rightarrow> tr_command_queue option \<Rightarrow> u32 \<Rightarrow> tr_status \<times> tr_command_queue option" where
  "tr_command_queue_init alloc_ok mutex_ok cond_ok queue capacity =
     (if queue = None \<or> capacity = 0 then (TR_ERR_INVALID, queue)
      else if \<not> alloc_ok then (TR_ERR_NOMEM, Some command_queue_zero)
      else if \<not> mutex_ok then (TR_ERR_INVALID, Some command_queue_zero)
      else if \<not> cond_ok then (TR_ERR_INVALID, Some command_queue_zero)
      else (TR_OK, Some (command_queue_zero\<lparr>cq_items := replicate (unat capacity) command_zero,
        cq_capacity := capacity\<rparr>)))"

definition tr_command_queue_destroy :: "tr_command_queue option \<Rightarrow> tr_command_queue option" where
  "tr_command_queue_destroy queue = (case queue of None \<Rightarrow> None | Some q \<Rightarrow> Some command_queue_zero)"

definition tr_observe_high_water_u32 :: "u32 \<Rightarrow> u32 \<Rightarrow> u32" where
  "tr_observe_high_water_u32 peak value = (if peak < value then value else peak)"

definition tr_command_queue_observe_full_locked :: "tr_command_queue \<Rightarrow> tr_command \<Rightarrow> tr_command_queue" where
  "tr_command_queue_observe_full_locked q command =
     (let q = q\<lparr>cq_full_events := cq_full_events q + 1\<rparr> in
      if cmd_type command = TR_CMD_SEND then q\<lparr>cq_full_send := cq_full_send q + 1\<rparr>
      else if cmd_type command = TR_CMD_RESUME_RX then q\<lparr>cq_full_resume_rx := cq_full_resume_rx q + 1\<rparr>
      else if cmd_type command = TR_CMD_CALL then q\<lparr>cq_full_call := cq_full_call q + 1\<rparr>
      else q\<lparr>cq_full_other := cq_full_other q + 1\<rparr>)"

definition tr_command_queue_observe_push_locked :: "tr_command_queue \<Rightarrow> tr_command \<Rightarrow> tr_command_queue" where
  "tr_command_queue_observe_push_locked q command =
     (if cmd_type command = TR_CMD_SEND then q\<lparr>cq_pushed_send := cq_pushed_send q + 1\<rparr>
      else if cmd_type command = TR_CMD_RESUME_RX then q\<lparr>cq_pushed_resume_rx := cq_pushed_resume_rx q + 1\<rparr>
      else if cmd_type command = TR_CMD_CALL then q\<lparr>cq_pushed_call := cq_pushed_call q + 1\<rparr>
      else q\<lparr>cq_pushed_other := cq_pushed_other q + 1\<rparr>)"

text \<open>The two ways the ring fields change.\<close>

definition cq_store :: "tr_command \<Rightarrow> tr_command_queue \<Rightarrow> tr_command_queue" where
  "cq_store x q = q\<lparr>cq_items := (cq_items q)[unat (cq_tail q) := x],
     cq_tail := (cq_tail q + 1) mod cq_capacity q, cq_count := cq_count q + 1\<rparr>"

definition cq_advance :: "tr_command_queue \<Rightarrow> tr_command_queue" where
  "cq_advance q = q\<lparr>cq_head := (cq_head q + 1) mod cq_capacity q, cq_count := cq_count q - 1\<rparr>"

definition cq_next_seq :: "tr_command_queue \<Rightarrow> tr_command_queue" where
  "cq_next_seq q = q\<lparr>cq_next_sequence :=
     (if cq_next_sequence q + 1 = 0 then 1 else cq_next_sequence q + 1)\<rparr>"

definition cq_raise_wake :: "tr_command_queue \<Rightarrow> bool option \<Rightarrow> tr_command_queue \<times> bool option" where
  "cq_raise_wake q need_wake =
     (q\<lparr>cq_wake_pending := True\<rparr>,
      case need_wake of None \<Rightarrow> None | Some _ \<Rightarrow> Some (\<not> cq_wake_pending q))"

definition tr_command_queue_enqueue_locked ::
  "tr_command_queue \<Rightarrow> tr_command \<Rightarrow> bool option \<Rightarrow> tr_status \<times> tr_command_queue \<times> bool option" where
  "tr_command_queue_enqueue_locked q command need_wake =
     (let q = tr_command_queue_observe_push_locked q command;
          q = cq_next_seq q;
          queued = command\<lparr>cmd_sequence := cq_next_sequence q\<rparr>;
          q = cq_store queued q;
          q = q\<lparr>cq_peak_count := tr_observe_high_water_u32 (cq_peak_count q) (cq_count q)\<rparr>;
          (q, need_wake) = cq_raise_wake q need_wake
      in (TR_OK, q, need_wake))"

definition tr_command_queue_push ::
  "tr_command_queue option \<Rightarrow> tr_command option \<Rightarrow> bool option \<Rightarrow>
    tr_status \<times> tr_command_queue option \<times> bool option" where
  "tr_command_queue_push queue command need_wake =
     (case (queue, command) of
        (Some q, Some c) \<Rightarrow>
          if cq_stop_closed q then (TR_ERR_CLOSED, queue, need_wake)
          else if cq_count q = cq_capacity q
          then (TR_AGAIN, Some (tr_command_queue_observe_full_locked q c), need_wake)
          else
            let (ret, q, need_wake) = tr_command_queue_enqueue_locked q c need_wake
            in (ret, Some q, need_wake)
      | _ \<Rightarrow> (TR_ERR_INVALID, queue, need_wake))"

definition cq_bump_generation :: "tr_command_queue \<Rightarrow> tr_command_queue" where
  "cq_bump_generation q = q\<lparr>cq_wait_generation :=
     (if cq_wait_generation q + 1 = 0 then 1 else cq_wait_generation q + 1)\<rparr>"

definition tr_command_queue_wait_open :: "tr_command_queue option \<Rightarrow> tr_status \<times> tr_command_queue option" where
  "tr_command_queue_wait_open queue =
     (case queue of None \<Rightarrow> (TR_ERR_INVALID, queue)
      | Some q \<Rightarrow>
          if cq_stop_pending q then (TR_ERR_STATE, queue)
          else (TR_OK, Some ((cq_bump_generation (q\<lparr>cq_stop_closed := False\<rparr>))\<lparr>cq_wait_accepting := True\<rparr>)))"

definition tr_command_queue_wait_close :: "tr_command_queue option \<Rightarrow> tr_command_queue option" where
  "tr_command_queue_wait_close queue =
     (case queue of None \<Rightarrow> None
      | Some q \<Rightarrow> Some ((cq_bump_generation q)\<lparr>cq_wait_accepting := False\<rparr>))"

definition tr_command_queue_wait_generation :: "tr_command_queue option \<Rightarrow> u64" where
  "tr_command_queue_wait_generation queue =
     (case queue of None \<Rightarrow> 0 | Some q \<Rightarrow> if cq_wait_accepting q then cq_wait_generation q else 0)"

text \<open>The critical sections of a waiting producer: going to sleep, and waking up.\<close>

definition cq_sleep :: "tr_command_queue \<Rightarrow> tr_command \<Rightarrow> bool \<Rightarrow> tr_command_queue" where
  "cq_sleep q command waited =
     (let q = (if \<not> waited then tr_command_queue_observe_full_locked q command else q)
      in q\<lparr>cq_waiters := cq_waiters q + 1\<rparr>)"

definition cq_wakeup :: "tr_command_queue \<Rightarrow> tr_command_queue" where
  "cq_wakeup q = q\<lparr>cq_waiters := cq_waiters q - 1\<rparr>"

definition cq_must_wait :: "tr_command_queue \<Rightarrow> u64 \<Rightarrow> bool" where
  "cq_must_wait q expected_generation \<longleftrightarrow> cq_wait_accepting q \<and>
     cq_wait_generation q = expected_generation \<and> cq_count q = cq_capacity q"

fun cq_push_wait_loop ::
  "((tr_command_queue \<Rightarrow> tr_command_queue) \<times> int) list \<Rightarrow> tr_command_queue \<Rightarrow> tr_command \<Rightarrow> u64 \<Rightarrow> bool \<Rightarrow>
    bool option \<Rightarrow> (tr_status \<times> tr_command_queue \<times> bool option) option" where
  "cq_push_wait_loop env q command expected_generation waited need_wake =
     (if cq_must_wait q expected_generation then
        (case env of [] \<Rightarrow> None
         | (others, error) # env \<Rightarrow>
             let q = cq_wakeup (others (cq_sleep q command waited)) in
             if error \<noteq> 0 then Some (TR_ERR_SYS, q, need_wake)
             else cq_push_wait_loop env q command expected_generation True need_wake)
      else if \<not> cq_wait_accepting q \<or> cq_wait_generation q \<noteq> expected_generation
      then Some (TR_ERR_CLOSED, q, need_wake)
      else Some (tr_command_queue_enqueue_locked q command need_wake))"

declare cq_push_wait_loop.simps [simp del]

definition tr_command_queue_push_wait ::
  "((tr_command_queue \<Rightarrow> tr_command_queue) \<times> int) list \<Rightarrow> tr_command_queue option \<Rightarrow> tr_command option \<Rightarrow>
    u64 \<Rightarrow> bool option \<Rightarrow> (tr_status \<times> tr_command_queue option \<times> bool option) option" where
  "tr_command_queue_push_wait env queue command expected_generation need_wake =
     (case (queue, command) of
        (Some q, Some c) \<Rightarrow>
          if expected_generation = 0 then Some (TR_ERR_INVALID, queue, need_wake)
          else map_option (\<lambda>(ret, q, need_wake). (ret, Some q, need_wake))
            (cq_push_wait_loop env q c expected_generation False need_wake)
      | _ \<Rightarrow> Some (TR_ERR_INVALID, queue, need_wake))"

definition tr_command_queue_push_wait_force ::
  "tr_command_queue option \<Rightarrow> tr_command option \<Rightarrow> bool option \<Rightarrow>
    tr_status \<times> tr_command_queue option \<times> bool option" where
  "tr_command_queue_push_wait_force queue command need_wake =
     (case (queue, command) of
        (Some q, Some c) \<Rightarrow>
          if cmd_type c \<noteq> TR_CMD_STOP then (TR_ERR_INVALID, queue, need_wake)
          else if cq_stop_closed q then (TR_ERR_STATE, queue, need_wake)
          else
            let q = cq_next_seq q;
                q = q\<lparr>cq_stop_command := c\<lparr>cmd_sequence := cq_next_sequence q\<rparr>, cq_stop_pending := True,
                  cq_stop_closed := True, cq_wait_accepting := False\<rparr>;
                q = tr_command_queue_observe_push_locked q c;
                (q, need_wake) = cq_raise_wake q need_wake
            in (TR_OK, Some q, need_wake)
      | _ \<Rightarrow> (TR_ERR_INVALID, queue, need_wake))"

definition tr_command_queue_is_empty :: "tr_command_queue option \<Rightarrow> bool" where
  "tr_command_queue_is_empty queue =
     (case queue of None \<Rightarrow> False | Some q \<Rightarrow> cq_count q = 0 \<and> \<not> cq_stop_pending q)"

definition tr_command_queue_last_sequence :: "tr_command_queue option \<Rightarrow> u64" where
  "tr_command_queue_last_sequence queue = (case queue of None \<Rightarrow> 0 | Some q \<Rightarrow> cq_next_sequence q)"

definition tr_command_sequence_after_eq :: "u64 \<Rightarrow> u64 \<Rightarrow> bool" where
  "tr_command_sequence_after_eq current target \<longleftrightarrow>
     (if target = 0 then True else (current - target) AND push_bit 63 1 = 0)"

text \<open>The pop loop: \<open>n\<close> is \<open>max_commands - count\<close>.\<close>

fun cq_pop_loop :: "nat \<Rightarrow> tr_command_queue \<Rightarrow> tr_command list \<times> tr_command_queue" where
  "cq_pop_loop 0 q = ([], q)"
| "cq_pop_loop (Suc n) q =
     (if cq_count q = 0 then ([], q)
      else let (xs, q') = cq_pop_loop n (cq_advance q) in (cq_items q ! unat (cq_head q) # xs, q'))"

definition cq_pop_stop ::
  "nat \<Rightarrow> tr_command list \<Rightarrow> tr_command_queue \<Rightarrow> tr_command list \<times> tr_command_queue" where
  "cq_pop_stop max_commands xs q =
     (if cq_count q = 0 \<and> cq_stop_pending q \<and> length xs < max_commands
      then (xs @ [cq_stop_command q], q\<lparr>cq_stop_command := command_zero, cq_stop_pending := False\<rparr>)
      else (xs, q))"

definition tr_command_queue_pop_batch ::
  "tr_command_queue option \<Rightarrow> tr_command list option \<Rightarrow> size_t \<Rightarrow>
    size_t \<times> tr_command_queue option \<times> tr_command list option" where
  "tr_command_queue_pop_batch queue out max_commands =
     (case (queue, out) of
        (Some q, Some dst) \<Rightarrow>
          if max_commands = 0 then (0, queue, out)
          else
            let (xs, q) = cq_pop_loop (unat max_commands) q;
                (xs, q) = cq_pop_stop (unat max_commands) xs q;
                q = (if cq_count q = 0 \<and> \<not> cq_stop_pending q then q\<lparr>cq_wake_pending := False\<rparr> else q)
            in (of_nat (length xs), Some q, Some (poke 0 xs dst))
      | _ \<Rightarrow> (0, queue, out))"

section \<open>The ring\<close>

interpretation cq: ring cq_items cq_capacity cq_head cq_tail cq_count cq_store cq_advance
  by unfold_locales (simp_all add: cq_store_def cq_advance_def)

lemma cq_pop_loop_ring: "cq_pop_loop n q = cq.pop_upto n q"
  by (induction n q rule: cq_pop_loop.induct) simp_all

section \<open>The pending commands and the invariant\<close>

definition pending :: "tr_command_queue \<Rightarrow> tr_command list" where
  "pending q = cq.contents q @ (if cq_stop_pending q then [cq_stop_command q] else [])"

definition cq_inv :: "tr_command_queue \<Rightarrow> bool" where
  [inv_defs]: "cq_inv q \<longleftrightarrow> cq.ring_inv q \<and> (cq_stop_pending q \<longrightarrow> cq_stop_closed q) \<and>
     (cq_wait_accepting q \<longrightarrow> \<not> cq_stop_closed q) \<and>
     (cq_wake_pending q \<longleftrightarrow> cq_count q \<noteq> 0 \<or> cq_stop_pending q)"

text \<open>Counters, flags and generations do not concern the ring.\<close>

lemma cq_ring_frame:
  assumes "cq_items q' = cq_items q" "cq_capacity q' = cq_capacity q" "cq_head q' = cq_head q"
    "cq_tail q' = cq_tail q" "cq_count q' = cq_count q"
  shows "cq.ring_inv q' = cq.ring_inv q" "cq.contents q' = cq.contents q"
  using assms by (simp_all add: cq.ring_inv_def cq.contents_def)

definition same_ring :: "tr_command_queue \<Rightarrow> tr_command_queue \<Rightarrow> bool" where
  "same_ring q' q \<longleftrightarrow> cq_items q' = cq_items q \<and> cq_capacity q' = cq_capacity q \<and> cq_head q' = cq_head q \<and>
     cq_tail q' = cq_tail q \<and> cq_count q' = cq_count q"

lemma same_ring_frame:
  "same_ring q' q \<Longrightarrow> cq.ring_inv q' = cq.ring_inv q" "same_ring q' q \<Longrightarrow> cq.contents q' = cq.contents q"
  using cq_ring_frame [of q' q] by (simp_all add: same_ring_def)

lemma observe_push_frame:
  fixes q :: tr_command_queue and c :: tr_command
  defines "r \<equiv> tr_command_queue_observe_push_locked q c"
  shows "same_ring r q" "cq_next_sequence r = cq_next_sequence q"
    "cq_stop_pending r = cq_stop_pending q" "cq_stop_closed r = cq_stop_closed q"
    "cq_stop_command r = cq_stop_command q" "cq_wake_pending r = cq_wake_pending q"
    "cq_wait_accepting r = cq_wait_accepting q" "cq_wait_generation r = cq_wait_generation q"
  by (simp_all add: r_def tr_command_queue_observe_push_locked_def same_ring_def)

lemma observe_full_frame:
  fixes q :: tr_command_queue and c :: tr_command
  defines "r \<equiv> tr_command_queue_observe_full_locked q c"
  shows "same_ring r q" "cq_next_sequence r = cq_next_sequence q"
    "cq_stop_pending r = cq_stop_pending q" "cq_stop_closed r = cq_stop_closed q"
    "cq_stop_command r = cq_stop_command q" "cq_wake_pending r = cq_wake_pending q"
    "cq_wait_accepting r = cq_wait_accepting q" "cq_wait_generation r = cq_wait_generation q"
  by (simp_all add: r_def tr_command_queue_observe_full_locked_def same_ring_def Let_def)

definition same_state :: "tr_command_queue \<Rightarrow> tr_command_queue \<Rightarrow> bool" where
  "same_state q' q \<longleftrightarrow> same_ring q' q \<and> cq_next_sequence q' = cq_next_sequence q \<and>
     cq_stop_pending q' = cq_stop_pending q \<and> cq_stop_closed q' = cq_stop_closed q \<and>
     cq_stop_command q' = cq_stop_command q \<and> cq_wake_pending q' = cq_wake_pending q \<and>
     cq_wait_accepting q' = cq_wait_accepting q \<and> cq_wait_generation q' = cq_wait_generation q"

lemma same_state_inv:
  assumes "same_state q' q"
  shows "cq_inv q' = cq_inv q" "pending q' = pending q"
  using assms same_ring_frame [of q' q] by (auto simp: same_state_def inv_defs pending_def same_ring_def)

lemma same_state_steps:
  "same_state (tr_command_queue_observe_full_locked q c) q"
  "same_state (cq_sleep q c w) q" "same_state (cq_wakeup q) q"
  using observe_full_frame [of q c]
  by (auto simp: same_state_def cq_sleep_def cq_wakeup_def same_ring_def Let_def)

text \<open>What appending one command does.\<close>

lemma enqueue_effect:
  assumes "cq_inv q" and "\<not> cq_stop_closed q" and "cq_count q \<noteq> cq_capacity q"
    and "tr_command_queue_enqueue_locked q c nw = (ret, q', nw')"
  shows "ret = TR_OK" and "cq_inv q'"
    and "pending q' = pending q @ [c\<lparr>cmd_sequence := cq_next_sequence q'\<rparr>]"
    and "cq_next_sequence q' = cq_next_sequence (cq_next_seq q)"
    and "nw' = map_option (\<lambda>_. pending q = []) nw" and "cq_capacity q' = cq_capacity q"
    and "cq_wait_accepting q' = cq_wait_accepting q" and "cq_wait_generation q' = cq_wait_generation q"
proof -
  define r where "r = cq_next_seq (tr_command_queue_observe_push_locked q c)"
  define x where "x = c\<lparr>cmd_sequence := cq_next_sequence r\<rparr>"
  have r: "same_ring r q" "cq_next_sequence r = cq_next_sequence (cq_next_seq q)"
    "cq_stop_pending r = cq_stop_pending q" "cq_stop_closed r = cq_stop_closed q"
    "cq_stop_command r = cq_stop_command q" "cq_wake_pending r = cq_wake_pending q"
    "cq_wait_accepting r = cq_wait_accepting q" "cq_wait_generation r = cq_wait_generation q"
    using observe_push_frame [of q c] by (simp_all add: r_def cq_next_seq_def same_ring_def)
  have q': "ret = TR_OK" "q' = (cq_store x r)\<lparr>cq_peak_count := tr_observe_high_water_u32
      (cq_peak_count (cq_store x r)) (cq_count (cq_store x r)), cq_wake_pending := True\<rparr>"
    "nw' = map_option (\<lambda>_. \<not> cq_wake_pending q) nw"
    using assms(4) r(6)
    by (auto simp: tr_command_queue_enqueue_locked_def Let_def cq_raise_wake_def r_def x_def cq_store_def
        split: option.splits)
  have ring: "cq.ring_inv r" "cq_count r \<noteq> cq_capacity r" "cq.contents r = cq.contents q"
    using assms r(1) same_ring_frame [OF r(1)] by (simp_all add: inv_defs same_ring_def)
  have st: "same_ring q' (cq_store x r)" by (simp add: q'(2) same_ring_def)
  have ri: "cq.ring_inv q'" and co: "cq.contents q' = cq.contents q @ [x]"
    using same_ring_frame [OF st] cq.store_inv [OF ring(1,2)] cq.store_contents [OF ring(1,2)] ring(3) by simp_all
  have nostop: "\<not> cq_stop_pending q" using assms(1,2) by (auto simp: inv_defs)
  have fields: "cq_stop_pending q' = cq_stop_pending q" "cq_stop_closed q' = cq_stop_closed q"
    "cq_wake_pending q'" "cq_next_sequence q' = cq_next_sequence r"
    "cq_wait_accepting q' = cq_wait_accepting q" "cq_wait_generation q' = cq_wait_generation q"
    "cq_capacity q' = cq_capacity q"
    using r by (simp_all add: q'(2) cq_store_def same_ring_def)
  have "cq_count q' \<noteq> 0" using co cq.contents_empty_iff [of q'] by auto
  then show "cq_inv q'" using assms(1) ri fields by (simp add: inv_defs)
  show "pending q' = pending q @ [c\<lparr>cmd_sequence := cq_next_sequence q'\<rparr>]"
    using co nostop fields by (simp add: pending_def x_def)
  show "nw' = map_option (\<lambda>_. pending q = []) nw"
    using assms(1) nostop by (simp add: q'(3) inv_defs pending_def cq.contents_empty_iff)
  show "ret = TR_OK" by (rule q'(1))
  show "cq_next_sequence q' = cq_next_sequence (cq_next_seq q)" using fields(4) r(2) by simp
  show "cq_capacity q' = cq_capacity q" "cq_wait_accepting q' = cq_wait_accepting q"
    "cq_wait_generation q' = cq_wait_generation q" using fields by simp_all
qed

lemma force_effect:
  assumes "cq_inv q" and "tr_command_queue_push_wait_force (Some q) (Some c) nw = (TR_OK, Some q', nw')"
  shows "cq_inv q'" and "pending q' = pending q @ [c\<lparr>cmd_sequence := cq_next_sequence q'\<rparr>]"
    and "cq_next_sequence q' = cq_next_sequence (cq_next_seq q)" and "cq_capacity q' = cq_capacity q"
    and "nw' = map_option (\<lambda>_. pending q = []) nw"
proof -
  define n where "n = cq_next_seq q"
  define r where "r = n\<lparr>cq_stop_command := c\<lparr>cmd_sequence := cq_next_sequence n\<rparr>, cq_stop_pending := True,
     cq_stop_closed := True, cq_wait_accepting := False\<rparr>"
  have open_: "\<not> cq_stop_closed q" and q': "q' = (tr_command_queue_observe_push_locked r c)\<lparr>cq_wake_pending := True\<rparr>"
    and nw: "nw' = map_option (\<lambda>_. \<not> cq_wake_pending q) nw"
    using assms(2) observe_push_frame(6) [of r c]
    by (auto simp: tr_command_queue_push_wait_force_def Let_def cq_raise_wake_def r_def n_def cq_next_seq_def
        split: if_splits option.splits)
  have ring: "same_ring q' q"
    using observe_push_frame(1) [of r c] by (simp add: q' same_ring_def) (simp add: r_def n_def cq_next_seq_def)
  have nostop: "\<not> cq_stop_pending q" using assms(1) open_ by (auto simp: inv_defs)
  have f: "cq_stop_pending q'" "cq_stop_closed q'" "\<not> cq_wait_accepting q'" "cq_wake_pending q'"
    "cq_stop_command q' = c\<lparr>cmd_sequence := cq_next_sequence n\<rparr>" "cq_next_sequence q' = cq_next_sequence n"
    using observe_push_frame [of r c] by (simp_all add: q' r_def)
  show "cq_inv q'" using assms(1) same_ring_frame [OF ring] f by (simp add: inv_defs)
  show "pending q' = pending q @ [c\<lparr>cmd_sequence := cq_next_sequence q'\<rparr>]"
    using same_ring_frame [OF ring] f nostop by (simp add: pending_def)
  show "cq_next_sequence q' = cq_next_sequence (cq_next_seq q)" using f by (simp add: n_def)
  show "cq_capacity q' = cq_capacity q" using ring by (simp add: same_ring_def)
  show "nw' = map_option (\<lambda>_. pending q = []) nw"
    using assms(1) nostop by (simp add: nw inv_defs pending_def cq.contents_empty_iff)
qed

lemma cq_pop_loop_frame:
  "cq_pop_loop n q = (xs, q') \<Longrightarrow>
     cq_stop_pending q' = cq_stop_pending q \<and> cq_stop_closed q' = cq_stop_closed q \<and>
     cq_stop_command q' = cq_stop_command q \<and> cq_wake_pending q' = cq_wake_pending q \<and>
     cq_wait_accepting q' = cq_wait_accepting q \<and> cq_next_sequence q' = cq_next_sequence q \<and>
     cq_capacity q' = cq_capacity q"
  by (induction n q arbitrary: xs rule: cq_pop_loop.induct)
    (auto simp: cq_advance_def split: if_splits prod.splits)

text \<open>A batch takes a prefix of what is pending.\<close>

lemma pop_batch_effect:
  assumes "cq_inv q" and "tr_command_queue_pop_batch (Some q) (Some dst) m = (n, Some q', Some out)"
  shows "cq_inv q'" and "pending q' = drop (unat m) (pending q)"
    and "out = poke 0 (take (unat m) (pending q)) dst" and "unat n = length (take (unat m) (pending q))"
    and "cq_next_sequence q' = cq_next_sequence q" and "cq_capacity q' = cq_capacity q"
proof -
  let ?k = "unat m"
  have "cq_inv q' \<and> pending q' = drop ?k (pending q) \<and> out = poke 0 (take ?k (pending q)) dst \<and>
      unat n = length (take ?k (pending q)) \<and> cq_next_sequence q' = cq_next_sequence q \<and>
      cq_capacity q' = cq_capacity q"
  proof (cases "m = 0")
    case True
    then show ?thesis
      using assms by (auto simp: tr_command_queue_pop_batch_def poke_def)
  next
    case False
    obtain xs1 q1 where l: "cq_pop_loop ?k q = (xs1, q1)" by fastforce
    obtain xs q2 where st: "cq_pop_stop ?k xs1 q1 = (xs, q2)" by fastforce
    have q': "q' = (if cq_count q2 = 0 \<and> \<not> cq_stop_pending q2 then q2\<lparr>cq_wake_pending := False\<rparr> else q2)"
      and out: "out = poke 0 xs dst" and n: "n = of_nat (length xs)"
      using assms(2) False l st by (simp_all add: tr_command_queue_pop_batch_def)
    note fr = cq_pop_loop_frame [OF l]
    have ri: "cq.ring_inv q" using assms(1) by (simp add: inv_defs)
    from cq.pop_upto_prefix [OF ri l [unfolded cq_pop_loop_ring]]
    have p: "cq.ring_inv q1" "xs1 = take ?k (cq.contents q)" "cq.contents q1 = drop ?k (cq.contents q)" by auto
    have ring: "same_ring q' q1" "same_ring q2 q1" using st q' by (auto simp: cq_pop_stop_def same_ring_def split: if_splits)
    have empty: "cq_count q1 = 0 \<longleftrightarrow> length (cq.contents q) \<le> ?k"
      by (metis p(3) cq.contents_empty_iff drop_eq_Nil2)
    have pend: "xs = take ?k (pending q)" "pending q' = drop ?k (pending q)"
      using st p(2,3) fr same_ring_frame(2) [OF ring(1)] empty q'
      by (auto simp: cq_pop_stop_def pending_def split: if_splits)
    have f2: "cq_stop_closed q2 = cq_stop_closed q" "cq_wait_accepting q2 = cq_wait_accepting q"
      "cq_wake_pending q2 = cq_wake_pending q" "cq_stop_pending q2 \<longrightarrow> cq_stop_pending q" "cq_count q2 = cq_count q1"
      using st fr by (auto simp: cq_pop_stop_def split: if_splits)
    have "cq_count q = 0 \<longrightarrow> cq_count q1 = 0" using p(3) by (simp flip: cq.contents_empty_iff)
    then have "cq_wake_pending q' \<longleftrightarrow> cq_count q' \<noteq> 0 \<or> cq_stop_pending q'"
      using assms(1) f2 unfolding q' inv_defs by auto
    then have inv: "cq_inv q'"
      using assms(1) f2 p(1) same_ring_frame(1) [OF ring(1)] unfolding q' inv_defs by auto
    have "length xs \<le> ?k" by (simp add: pend(1))
    then have "length xs < 2 ^ 64" using unat_lt_2p [of m] by simp
    then have "unat n = length xs" by (simp add: n unat_of_nat)
    then show ?thesis
      using inv pend out fr st q' by (auto simp: cq_pop_stop_def split: if_splits)
  qed
  then show "cq_inv q'" "pending q' = drop ?k (pending q)" "out = poke 0 (take ?k (pending q)) dst"
    "unat n = length (take ?k (pending q))" "cq_next_sequence q' = cq_next_sequence q"
    "cq_capacity q' = cq_capacity q" by auto
qed

section \<open>Histories\<close>

text \<open>\<open>cq_hist cap accepted popped q\<close>: some interleaving of critical sections from a fresh queue of
  capacity \<open>cap\<close> leads to \<open>q\<close>; \<open>accepted\<close> are the commands whose producers were told \<open>TR_OK\<close>, as
  queued and in the order of acceptance, \<open>popped\<close> those handed to the reactor. The last three rules
  are the critical sections of producers in \<open>tr_command_queue_push_wait\<close>.\<close>

inductive cq_hist :: "u32 \<Rightarrow> tr_command list \<Rightarrow> tr_command list \<Rightarrow> tr_command_queue \<Rightarrow> bool" for cap where
  hist_init: "tr_command_queue_init True True True (Some q0) cap = (TR_OK, Some q) \<Longrightarrow> cq_hist cap [] [] q"
| hist_push: "cq_hist cap acc pop q \<Longrightarrow> tr_command_queue_push (Some q) (Some c) nw = (ret, Some q', nw') \<Longrightarrow>
    cq_hist cap (acc @ (if ret = TR_OK then [c\<lparr>cmd_sequence := cq_next_sequence q'\<rparr>] else [])) pop q'"
| hist_force: "cq_hist cap acc pop q \<Longrightarrow>
    tr_command_queue_push_wait_force (Some q) (Some c) nw = (ret, Some q', nw') \<Longrightarrow>
    cq_hist cap (acc @ (if ret = TR_OK then [c\<lparr>cmd_sequence := cq_next_sequence q'\<rparr>] else [])) pop q'"
| hist_open: "cq_hist cap acc pop q \<Longrightarrow> tr_command_queue_wait_open (Some q) = (ret, Some q') \<Longrightarrow> cq_hist cap acc pop q'"
| hist_close: "cq_hist cap acc pop q \<Longrightarrow> tr_command_queue_wait_close (Some q) = Some q' \<Longrightarrow> cq_hist cap acc pop q'"
| hist_pop: "cq_hist cap acc pop q \<Longrightarrow> tr_command_queue_pop_batch (Some q) (Some dst) m = (n, Some q', Some out) \<Longrightarrow>
    cq_hist cap acc (pop @ take (unat n) out) q'"
| hist_wait_sleep: "cq_hist cap acc pop q \<Longrightarrow> cq_must_wait q g \<Longrightarrow> cq_hist cap acc pop (cq_sleep q c waited)"
| hist_wait_wakeup: "cq_hist cap acc pop q \<Longrightarrow> cq_hist cap acc pop (cq_wakeup q)"
| hist_wait_enqueue: "cq_hist cap acc pop q \<Longrightarrow> \<not> cq_must_wait q g \<Longrightarrow> cq_wait_accepting q \<Longrightarrow>
    cq_wait_generation q = g \<Longrightarrow> tr_command_queue_enqueue_locked q c nw = (ret, q', nw') \<Longrightarrow>
    cq_hist cap (acc @ [c\<lparr>cmd_sequence := cq_next_sequence q'\<rparr>]) pop q'"

text \<open>The sequence numbers of the first \<open>2 ^ 64 - 1\<close> accepted commands are consecutive; then the counter
  wraps, skipping 0.\<close>

definition seqs_ok :: "tr_command list \<Rightarrow> u64 \<Rightarrow> bool" where
  "seqs_ok acc n \<longleftrightarrow> (length acc < 2 ^ 64 \<longrightarrow> unat n = length acc \<and>
     map (\<lambda>c. unat (cmd_sequence c)) acc = [1..<Suc (length acc)])"

definition hist_inv :: "u32 \<Rightarrow> tr_command list \<Rightarrow> tr_command list \<Rightarrow> tr_command_queue \<Rightarrow> bool" where
  "hist_inv cap acc pop q \<longleftrightarrow> cq_inv q \<and> acc = pop @ pending q \<and> cq_capacity q = cap \<and>
     seqs_ok acc (cq_next_sequence q)"

lemma next_seq_unat:
  assumes "unat (cq_next_sequence q) + 1 < 2 ^ 64"
  shows "unat (cq_next_sequence (cq_next_seq q)) = unat (cq_next_sequence q) + 1"
proof -
  have "unat (cq_next_sequence q + 1) = unat (cq_next_sequence q) + 1" using assms by (simp add: unat_add_less)
  then show ?thesis by (auto simp: cq_next_seq_def)
qed

lemma hist_inv_append:
  assumes "hist_inv cap acc pop q" and "cq_inv q'" and "cq_capacity q' = cq_capacity q"
    and "pending q' = pending q @ [c\<lparr>cmd_sequence := cq_next_sequence q'\<rparr>]"
    and "cq_next_sequence q' = cq_next_sequence (cq_next_seq q)"
  shows "hist_inv cap (acc @ [c\<lparr>cmd_sequence := cq_next_sequence q'\<rparr>]) pop q'"
proof -
  have "seqs_ok (acc @ [c\<lparr>cmd_sequence := cq_next_sequence q'\<rparr>]) (cq_next_sequence q')"
    using assms(1,5) next_seq_unat [of q] by (auto simp: hist_inv_def seqs_ok_def)
  then show ?thesis using assms by (simp add: hist_inv_def)
qed

lemma hist_inv_same:
  assumes "hist_inv cap acc pop q" and "same_state q' q"
  shows "hist_inv cap acc pop q'"
  using assms same_state_inv [OF assms(2)] by (auto simp: hist_inv_def same_state_def same_ring_def)

lemma hist_inv_admission:
  assumes "hist_inv cap acc pop q" and "same_ring q' q" and "cq_stop_pending q' = cq_stop_pending q"
    "cq_stop_command q' = cq_stop_command q" "cq_wake_pending q' = cq_wake_pending q"
    "cq_next_sequence q' = cq_next_sequence q" "cq_stop_pending q' \<longrightarrow> cq_stop_closed q'"
    "cq_wait_accepting q' \<longrightarrow> \<not> cq_stop_closed q'"
  shows "hist_inv cap acc pop q'"
  using assms same_ring_frame [OF assms(2)]
  by (auto simp: hist_inv_def inv_defs pending_def same_ring_def)

lemma push_cases:
  assumes "cq_inv q" and "tr_command_queue_push (Some q) (Some c) nw = (ret, q'', nw')"
  obtains (closed) "cq_stop_closed q" "ret = TR_ERR_CLOSED" "q'' = Some q" "nw' = nw"
  | (full) "\<not> cq_stop_closed q" "length (cq.contents q) = unat (cq_capacity q)" "ret = TR_AGAIN"
      "q'' = Some (tr_command_queue_observe_full_locked q c)" "nw' = nw"
  | (room) q' where "\<not> cq_stop_closed q" "cq_count q \<noteq> cq_capacity q" "q'' = Some q'"
      "tr_command_queue_enqueue_locked q c nw = (ret, q', nw')"
  using assms(2)
  by (auto simp: tr_command_queue_push_def word_unat_eq_iff split: if_splits prod.splits)

lemma cq_hist_inv: "cq_hist cap acc pop q \<Longrightarrow> hist_inv cap acc pop q"
proof (induction rule: cq_hist.induct)
  case (hist_init q0 q)
  then show ?case
    by (auto simp: tr_command_queue_init_def command_queue_zero_def hist_inv_def inv_defs cq.ring_inv_def
        pending_def cq.contents_def word_neq_0_unat seqs_ok_def split: if_splits)
next
  case (hist_push acc pop q c nw ret q' nw')
  then have "cq_inv q" by (simp add: hist_inv_def)
  from this hist_push.hyps(2) show ?case
  proof (cases rule: push_cases)
    case closed
    then show ?thesis using hist_push.IH by simp
  next
    case full
    then show ?thesis using hist_push.IH hist_inv_same same_state_steps(1) by simp
  next
    case (room q'')
    with \<open>cq_inv q\<close> enqueue_effect [OF \<open>cq_inv q\<close> room(1,2,4)] show ?thesis
      using hist_inv_append [OF hist_push.IH] by simp
  qed
next
  case (hist_force acc pop q c nw ret q' nw')
  then have i: "cq_inv q" by (simp add: hist_inv_def)
  show ?case
  proof (cases "ret = TR_OK")
    case True
    from force_effect [OF i hist_force.hyps(2) [unfolded True]] True show ?thesis
      using hist_inv_append [OF hist_force.IH] by simp
  next
    case False
    then have "q' = q" using hist_force.hyps(2)
      by (auto simp: tr_command_queue_push_wait_force_def Let_def cq_raise_wake_def split: if_splits)
    then show ?thesis using False hist_force.IH by simp
  qed
next
  case (hist_open acc pop q ret q')
  then show ?case
    by (intro hist_inv_admission [OF hist_open.IH])
      (auto simp: tr_command_queue_wait_open_def cq_bump_generation_def same_ring_def hist_inv_def inv_defs
        split: if_splits)
next
  case (hist_close acc pop q q')
  then show ?case
    by (intro hist_inv_admission [OF hist_close.IH])
      (auto simp: tr_command_queue_wait_close_def cq_bump_generation_def same_ring_def hist_inv_def inv_defs)
next
  case (hist_pop acc pop q dst m n q' out)
  then have "cq_inv q" by (simp add: hist_inv_def)
  note e = pop_batch_effect [OF this hist_pop.hyps(2)]
  have "take (unat n) out = take (unat m) (pending q)" unfolding e(3,4) by (simp add: poke_def min_def)
  then have "acc = (pop @ take (unat n) out) @ pending q'" using hist_pop.IH e(2) by (simp add: hist_inv_def)
  then show ?case using hist_pop.IH e(1) unfolding hist_inv_def e(5,6) by blast
next
  case (hist_wait_sleep acc pop q g c waited)
  then show ?case using hist_inv_same same_state_steps(2) by blast
next
  case (hist_wait_wakeup acc pop q)
  then show ?case using hist_inv_same same_state_steps(3) by blast
next
  case (hist_wait_enqueue acc pop q g c nw ret q' nw')
  then have i: "cq_inv q" "\<not> cq_stop_closed q" "cq_count q \<noteq> cq_capacity q"
    by (auto simp: hist_inv_def inv_defs cq_must_wait_def)
  from enqueue_effect [OF i hist_wait_enqueue.hyps(5)] show ?case
    using hist_inv_append [OF hist_wait_enqueue.IH] by simp
qed

section \<open>Properties\<close>

text \<open>C5: the command queue is a bounded first-in first-out sequence. In every interleaving of producers,
  admission control and the reactor, the accepted commands are exactly those already popped followed
  by those pending, in the order of acceptance, with STOP in its place after everything accepted
  before it; the pending commands never exceed the capacity by more than the STOP slot; the wake-up
  flag is up exactly while something is pending; and the commands carry the consecutive sequence
  numbers 1, 2, and so on.\<close>

theorem command_queue_fifo:
  assumes "cq_hist cap accepted popped q"
  shows "accepted = popped @ pending q \<and> length (cq.contents q) \<le> unat cap \<and>
    length (pending q) \<le> unat cap + 1 \<and>
    (cq_wake_pending q \<longleftrightarrow> pending q \<noteq> []) \<and>
    (tr_command_queue_is_empty (Some q) \<longleftrightarrow> pending q = []) \<and>
    (length accepted < 2 ^ 64 \<longrightarrow>
       map (\<lambda>c. unat (cmd_sequence c)) accepted = [1..<Suc (length accepted)] \<and>
       unat (tr_command_queue_last_sequence (Some q)) = length accepted)"
proof -
  have h: "hist_inv cap accepted popped q" by (rule cq_hist_inv [OF assms])
  have "length (cq.contents q) \<le> unat cap" using h by (auto simp: hist_inv_def inv_defs cq.ring_inv_def)
  moreover have "pending q = [] \<longleftrightarrow> cq_count q = 0 \<and> \<not> cq_stop_pending q"
    by (simp add: pending_def cq.contents_empty_iff)
  ultimately show ?thesis
    using h by (auto simp: hist_inv_def seqs_ok_def inv_defs tr_command_queue_is_empty_def
        tr_command_queue_last_sequence_def pending_def)
qed

definition command_sample :: "u16 \<Rightarrow> tr_command" where
  "command_sample t = command_zero\<lparr>cmd_type := t\<rparr>"

definition command_queue_sample :: tr_command_queue where
  "command_queue_sample = command_queue_zero\<lparr>cq_items := replicate 1 command_zero, cq_capacity := 1\<rparr>"

lemma command_queue_sample_hist: "cq_hist 1 [] [] command_queue_sample"
  by (rule hist_init [of command_queue_zero])
    (simp add: tr_command_queue_init_def command_queue_sample_def)

definition command_queue_sample1 :: tr_command_queue where
  "command_queue_sample1 =
     the (fst (snd (tr_command_queue_push (Some command_queue_sample) (Some (command_sample 2)) (Some False))))"

lemma command_queue_sample1_hist: "\<exists>acc. length acc = 1 \<and> cq_hist 1 acc [] command_queue_sample1"
proof -
  obtain ret q' nw' where p: "tr_command_queue_push (Some command_queue_sample) (Some (command_sample 2)) (Some False) =
      (ret, Some q', nw')" and r: "ret = TR_OK"
    by (simp add: tr_command_queue_push_def command_queue_sample_def command_queue_zero_def
        tr_command_queue_enqueue_locked_def Let_def cq_raise_wake_def)
  then have "command_queue_sample1 = q'" by (simp add: command_queue_sample1_def)
  with hist_push [OF command_queue_sample_hist p] r show ?thesis
    by (intro exI [of _ "[] @ [(command_sample 2)\<lparr>cmd_sequence := cq_next_sequence q'\<rparr>]"]) simp
qed

theorem command_queue_fifo_witness: "cq_wake_pending command_queue_sample1 \<and> length (pending command_queue_sample1) = 1"
proof -
  obtain acc where a: "length acc = 1" "cq_hist 1 acc [] command_queue_sample1"
    using command_queue_sample1_hist by blast
  from command_queue_fifo [OF a(2)] a(1) show ?thesis by auto
qed

text \<open>C24: what one push does, on every branch, on a queue with its invariant. After STOP was submitted it is
  refused as closed; on a full ring it is refused with TR_AGAIN and only counters change; otherwise
  the command is appended with the next sequence number and the producer is told to wake the
  reactor exactly when nothing was pending.\<close>

theorem command_queue_push_contract:
  assumes "cq_inv q"
  shows "\<exists>ret q' nw'. tr_command_queue_push (Some q) (Some c) (Some nw) = (ret, Some q', Some nw') \<and> cq_inv q' \<and>
    (if cq_stop_closed q then ret = TR_ERR_CLOSED \<and> q' = q \<and> nw' = nw
     else if length (cq.contents q) = unat (cq_capacity q)
     then ret = TR_AGAIN \<and> pending q' = pending q \<and> nw' = nw
     else ret = TR_OK \<and> pending q' = pending q @ [c\<lparr>cmd_sequence := cq_next_sequence q'\<rparr>] \<and>
       nw' = (pending q = []))"
proof -
  obtain ret q'' nw'' where p: "tr_command_queue_push (Some q) (Some c) (Some nw) = (ret, q'', nw'')"
    by (metis surj_pair)
  from assms p show ?thesis
  proof (cases rule: push_cases)
    case closed
    then show ?thesis using assms p by auto
  next
    case full
    then show ?thesis using assms p same_state_inv [OF same_state_steps(1), of q c] by auto
  next
    case (room q')
    note e = enqueue_effect [OF assms room(1,2,4)]
    have "length (cq.contents q) \<noteq> unat (cq_capacity q)" using room(2) by (simp add: word_unat_eq_iff)
    then show ?thesis using p room(1,3) e(1-3,5) by auto
  qed
qed

lemma command_queue_sample_inv: "cq_inv command_queue_sample"
  using cq_hist_inv [OF command_queue_sample_hist] by (simp add: hist_inv_def)

theorem command_queue_push_contract_witness:
  "\<exists>ret q' nw'. tr_command_queue_push (Some command_queue_sample) (Some (command_sample 8)) (Some False) =
     (ret, Some q', Some nw') \<and> cq_inv q'"
  using command_queue_push_contract [OF command_queue_sample_inv, of "command_sample 8" False] by blast



text \<open>The half-range comparison of sequence numbers is the order of acceptance as long as two commands are less
  than \<open>2 ^ 63\<close> apart.\<close>

lemma sequence_after_eq_order:
  assumes "0 < t" and "t < 2 ^ 64" and "c < 2 ^ 64" and "c < t + 2 ^ 63" and "t \<le> c + 2 ^ 63"
  shows "tr_command_sequence_after_eq (of_nat c) (of_nat t) \<longleftrightarrow> t \<le> c"
proof -
  let ?d = "of_nat c - of_nat t :: u64"
  have t0: "(of_nat t :: u64) \<noteq> 0" using assms(1,2) by (simp add: word_unat_eq_iff unat_of_nat)
  have top: "w AND push_bit 63 1 = 0 \<longleftrightarrow> \<not> bit w 63" for w :: u64
    unfolding push_bit_of_1 by (rule and_exp_eq_0_iff_not_bit)
  have bit: "bit w 63 \<longleftrightarrow> 2 ^ 63 \<le> unat w" for w :: u64
  proof -
    have "bit w 63 \<longleftrightarrow> odd (unat w div 2 ^ 63)"
      using bit_unsigned_iff [of w 63, where 'a = nat] by (simp add: bit_iff_odd)
    moreover have "odd (n div 2 ^ 63) \<longleftrightarrow> 2 ^ 63 \<le> n" if "n < 2 ^ 64" for n :: nat
    proof (cases "2 ^ 63 \<le> n")
      case True
      then have "n div 2 ^ 63 = 1" using that by (intro div_nat_eqI) simp_all
      then show ?thesis using True by simp
    qed simp
    ultimately show ?thesis using unat_lt_2p [of w] by simp
  qed
  have "unat ?d = (if t \<le> c then c - t else c + 2 ^ 64 - t)"
    using assms by (simp add: unat_sub_if' unat_of_nat)
  then have "2 ^ 63 \<le> unat ?d \<longleftrightarrow> \<not> t \<le> c" using assms by auto
  then show ?thesis using t0 bit [of ?d] unfolding tr_command_sequence_after_eq_def top by simp
qed

end
