(* ===== verification/Tr_Completion_Queue.thy ===== *)
theory Tr_Completion_Queue
  imports Tr_Status Tr_Ring
begin

text \<open>
  The completion queue of a reactor, \<open>src/execution/completion_queue.c\<close>: a bounded ring that worker
  threads fill with callbacks and the reactor drains, with local admission control. It shares the ring
  contract of \<open>Tr_Ring\<close> with the command queue. The conventions are those of the command queue theory:
  a critical section is one function, and the blocking push is the loop of its critical sections with
  what other threads do during each sleep as an argument. A callback and its argument are addresses;
  a null callback is \<open>None\<close>.

  Shown here: completions are delivered first in first out and none is lost or duplicated, the wake-up
  flag is up exactly while completions are pending, nothing is accepted while the queue is closed, and
  a producer that waits is admitted only in the generation it asked for.
\<close>

record tr_completion =
  cp_fn :: "nat option"
  cp_arg :: "nat option"

record tr_completion_queue =
  pq_items :: "tr_completion list"
  pq_capacity :: u32
  pq_head :: u32
  pq_tail :: u32
  pq_count :: u32
  pq_peak_count :: u32
  pq_full_events :: u64
  pq_admission_generation :: u64
  pq_waiters :: u32
  pq_accepting :: bool
  pq_wake_pending :: bool

definition completion_queue_zero :: tr_completion_queue where
  "completion_queue_zero = \<lparr>pq_items = [], pq_capacity = 0, pq_head = 0, pq_tail = 0, pq_count = 0,
     pq_peak_count = 0, pq_full_events = 0, pq_admission_generation = 0, pq_waiters = 0,
     pq_accepting = False, pq_wake_pending = False\<rparr>"

definition tr_completion_queue_init ::
  "bool \<Rightarrow> bool \<Rightarrow> bool \<Rightarrow> tr_completion_queue option \<Rightarrow> u32 \<Rightarrow> tr_status \<times> tr_completion_queue option" where
  "tr_completion_queue_init alloc_ok mutex_ok cond_ok queue capacity =
     (if queue = None \<or> capacity = 0 then (TR_ERR_INVALID, queue)
      else if \<not> alloc_ok then (TR_ERR_NOMEM, Some completion_queue_zero)
      else if \<not> mutex_ok then (TR_ERR_INVALID, Some completion_queue_zero)
      else if \<not> cond_ok then (TR_ERR_INVALID, Some completion_queue_zero)
      else (TR_OK, Some (completion_queue_zero
        \<lparr>pq_items := replicate (unat capacity) \<lparr>cp_fn = None, cp_arg = None\<rparr>, pq_capacity := capacity\<rparr>)))"

definition tr_completion_queue_destroy :: "tr_completion_queue option \<Rightarrow> tr_completion_queue option" where
  "tr_completion_queue_destroy queue = (case queue of None \<Rightarrow> None | Some q \<Rightarrow> Some completion_queue_zero)"

definition pq_bump_generation :: "tr_completion_queue \<Rightarrow> tr_completion_queue" where
  "pq_bump_generation q = q\<lparr>pq_admission_generation :=
     (if pq_admission_generation q + 1 = 0 then 1 else pq_admission_generation q + 1)\<rparr>"

definition tr_completion_queue_open :: "tr_completion_queue option \<Rightarrow> tr_status \<times> tr_completion_queue option" where
  "tr_completion_queue_open queue =
     (case queue of None \<Rightarrow> (TR_ERR_INVALID, queue)
      | Some q \<Rightarrow> (TR_OK, Some ((pq_bump_generation q)\<lparr>pq_accepting := True\<rparr>)))"

definition tr_completion_queue_close :: "tr_completion_queue option \<Rightarrow> tr_completion_queue option" where
  "tr_completion_queue_close queue =
     (case queue of None \<Rightarrow> None | Some q \<Rightarrow> Some ((pq_bump_generation q)\<lparr>pq_accepting := False\<rparr>))"

definition tr_completion_queue_admission_generation :: "tr_completion_queue option \<Rightarrow> u64" where
  "tr_completion_queue_admission_generation queue =
     (case queue of None \<Rightarrow> 0 | Some q \<Rightarrow> if pq_accepting q then pq_admission_generation q else 0)"

definition pq_store :: "tr_completion \<Rightarrow> tr_completion_queue \<Rightarrow> tr_completion_queue" where
  "pq_store x q = q\<lparr>pq_items := (pq_items q)[unat (pq_tail q) := x],
     pq_tail := (pq_tail q + 1) mod pq_capacity q, pq_count := pq_count q + 1\<rparr>"

definition pq_advance :: "tr_completion_queue \<Rightarrow> tr_completion_queue" where
  "pq_advance q = q\<lparr>pq_head := (pq_head q + 1) mod pq_capacity q, pq_count := pq_count q - 1\<rparr>"

text \<open>The common end of both pushes: store, high-water mark, wake-up flag. The second component is the
  local \<open>wake\<close>.\<close>

definition pq_enqueue :: "tr_completion_queue \<Rightarrow> tr_completion \<Rightarrow> tr_completion_queue \<times> bool" where
  "pq_enqueue q completion =
     (let q = pq_store completion q;
          q = q\<lparr>pq_peak_count := (if pq_peak_count q < pq_count q then pq_count q else pq_peak_count q)\<rparr>
      in (q\<lparr>pq_wake_pending := True\<rparr>, \<not> pq_wake_pending q))"

definition tr_completion_queue_push ::
  "tr_completion_queue option \<Rightarrow> tr_completion option \<Rightarrow> bool option \<Rightarrow>
    tr_status \<times> tr_completion_queue option \<times> bool option" where
  "tr_completion_queue_push queue completion need_wake =
     (case (queue, completion) of
        (Some q, Some c) \<Rightarrow>
          if cp_fn c = None then (TR_ERR_INVALID, queue, need_wake)
          else if \<not> pq_accepting q then (TR_ERR_CLOSED, queue, need_wake)
          else if pq_count q = pq_capacity q
          then (TR_AGAIN, Some (q\<lparr>pq_full_events := pq_full_events q + 1\<rparr>), need_wake)
          else
            let (q, wake) = pq_enqueue q c in (TR_OK, Some q, map_option (\<lambda>_. wake) need_wake)
      | _ \<Rightarrow> (TR_ERR_INVALID, queue, need_wake))"

definition pq_must_wait :: "tr_completion_queue \<Rightarrow> u64 \<Rightarrow> bool" where
  "pq_must_wait q expected_generation \<longleftrightarrow> pq_accepting q \<and>
     pq_admission_generation q = expected_generation \<and> pq_count q = pq_capacity q"

definition pq_sleep :: "tr_completion_queue \<Rightarrow> bool \<Rightarrow> tr_completion_queue" where
  "pq_sleep q waited =
     (let q = (if \<not> waited then q\<lparr>pq_full_events := pq_full_events q + 1\<rparr> else q)
      in q\<lparr>pq_waiters := pq_waiters q + 1\<rparr>)"

definition pq_wakeup :: "tr_completion_queue \<Rightarrow> tr_completion_queue" where
  "pq_wakeup q = q\<lparr>pq_waiters := pq_waiters q - 1\<rparr>"

fun pq_push_wait_loop ::
  "((tr_completion_queue \<Rightarrow> tr_completion_queue) \<times> int) list \<Rightarrow> tr_completion_queue \<Rightarrow> tr_completion \<Rightarrow> u64 \<Rightarrow>
    bool \<Rightarrow> bool option \<Rightarrow> (tr_status \<times> tr_completion_queue \<times> bool option) option" where
  "pq_push_wait_loop env q completion expected_generation waited need_wake =
     (if pq_must_wait q expected_generation then
        (case env of [] \<Rightarrow> None
         | (others, error) # env \<Rightarrow>
             let q = pq_wakeup (others (pq_sleep q waited)) in
             if error \<noteq> 0 then Some (TR_ERR_SYS, q, need_wake)
             else pq_push_wait_loop env q completion expected_generation True need_wake)
      else if \<not> pq_accepting q \<or> pq_admission_generation q \<noteq> expected_generation
      then Some (TR_ERR_CLOSED, q, need_wake)
      else
        let (q, wake) = pq_enqueue q completion in Some (TR_OK, q, map_option (\<lambda>_. wake) need_wake))"

declare pq_push_wait_loop.simps [simp del]

definition tr_completion_queue_push_wait ::
  "((tr_completion_queue \<Rightarrow> tr_completion_queue) \<times> int) list \<Rightarrow> tr_completion_queue option \<Rightarrow>
    tr_completion option \<Rightarrow> u64 \<Rightarrow> bool option \<Rightarrow> (tr_status \<times> tr_completion_queue option \<times> bool option) option" where
  "tr_completion_queue_push_wait env queue completion expected_generation need_wake =
     (case (queue, completion) of
        (Some q, Some c) \<Rightarrow>
          if cp_fn c = None \<or> expected_generation = 0 then Some (TR_ERR_INVALID, queue, need_wake)
          else map_option (\<lambda>(ret, q, need_wake). (ret, Some q, need_wake))
            (pq_push_wait_loop env q c expected_generation False need_wake)
      | _ \<Rightarrow> Some (TR_ERR_INVALID, queue, need_wake))"

fun pq_pop_loop :: "nat \<Rightarrow> tr_completion_queue \<Rightarrow> tr_completion list \<times> tr_completion_queue" where
  "pq_pop_loop 0 q = ([], q)"
| "pq_pop_loop (Suc n) q =
     (if pq_count q = 0 then ([], q)
      else let (xs, q') = pq_pop_loop n (pq_advance q) in (pq_items q ! unat (pq_head q) # xs, q'))"

definition tr_completion_queue_pop_batch ::
  "tr_completion_queue option \<Rightarrow> tr_completion list option \<Rightarrow> size_t \<Rightarrow> bool option \<Rightarrow>
    size_t \<times> tr_completion_queue option \<times> tr_completion list option \<times> bool option" where
  "tr_completion_queue_pop_batch queue out max_completions has_more =
     (case (queue, out) of
        (Some q, Some dst) \<Rightarrow>
          let (xs, q) = pq_pop_loop (unat max_completions) q;
              more = (pq_count q \<noteq> 0);
              q = (if \<not> more then q\<lparr>pq_wake_pending := False\<rparr> else q)
          in (of_nat (length xs), Some q, Some (poke 0 xs dst), map_option (\<lambda>_. more) has_more)
      | _ \<Rightarrow> (0, queue, out, map_option (\<lambda>_. False) has_more))"

section \<open>The ring\<close>

interpretation pq: ring pq_items pq_capacity pq_head pq_tail pq_count pq_store pq_advance
  by unfold_locales (simp_all add: pq_store_def pq_advance_def)

lemma pq_pop_loop_ring: "pq_pop_loop n q = pq.pop_upto n q"
  by (induction n q rule: pq_pop_loop.induct) simp_all

definition pq_inv :: "tr_completion_queue \<Rightarrow> bool" where
  [inv_defs]: "pq_inv q \<longleftrightarrow> pq.ring_inv q \<and> (pq_wake_pending q \<longleftrightarrow> pq_count q \<noteq> 0)"

lemma pq_ring_frame:
  assumes "pq_items q' = pq_items q" "pq_capacity q' = pq_capacity q" "pq_head q' = pq_head q"
    "pq_tail q' = pq_tail q" "pq_count q' = pq_count q"
  shows "pq.ring_inv q' = pq.ring_inv q" "pq.contents q' = pq.contents q"
  using assms by (simp_all add: pq.ring_inv_def pq.contents_def)

text \<open>Steps that change only counters, admission or waiters.\<close>

definition same_completions :: "tr_completion_queue \<Rightarrow> tr_completion_queue \<Rightarrow> bool" where
  "same_completions q' q \<longleftrightarrow> pq_items q' = pq_items q \<and> pq_capacity q' = pq_capacity q \<and>
     pq_head q' = pq_head q \<and> pq_tail q' = pq_tail q \<and> pq_count q' = pq_count q \<and>
     pq_wake_pending q' = pq_wake_pending q"

lemma same_completions_inv:
  assumes "same_completions q' q"
  shows "pq_inv q' = pq_inv q" "pq.contents q' = pq.contents q" "pq_capacity q' = pq_capacity q"
  using assms pq_ring_frame [of q' q] by (auto simp: same_completions_def inv_defs)

lemma same_completions_steps:
  "same_completions (q\<lparr>pq_full_events := n\<rparr>) q" "same_completions (pq_sleep q w) q"
  "same_completions (pq_wakeup q) q" "same_completions (pq_bump_generation q) q"
  "same_completions ((pq_bump_generation q)\<lparr>pq_accepting := b\<rparr>) q"
  by (simp_all add: same_completions_def pq_sleep_def pq_wakeup_def pq_bump_generation_def Let_def)

lemma pq_enqueue_effect:
  assumes "pq_inv q" and "pq_count q \<noteq> pq_capacity q" and "pq_enqueue q c = (q', wake)"
  shows "pq_inv q'" and "pq.contents q' = pq.contents q @ [c]" and "wake = (pq.contents q = [])"
    and "pq_capacity q' = pq_capacity q"
proof -
  have ri: "pq.ring_inv q" using assms(1) by (simp add: inv_defs)
  have fr: "pq.ring_inv q' = pq.ring_inv (pq_store c q)" "pq.contents q' = pq.contents (pq_store c q)"
    using assms(3) pq_ring_frame [of q' "pq_store c q"] by (auto simp: pq_enqueue_def Let_def)
  show co: "pq.contents q' = pq.contents q @ [c]" using fr pq.store_contents [OF ri assms(2)] by simp
  then have "pq_count q' \<noteq> 0" using pq.contents_empty_iff [of q'] by auto
  then show "pq_inv q'"
    using assms(3) fr pq.store_inv [OF ri assms(2), of c] by (auto simp: inv_defs pq_enqueue_def Let_def)
  show "wake = (pq.contents q = [])"
    using assms by (auto simp: pq_enqueue_def Let_def inv_defs pq.contents_empty_iff pq_store_def)
  show "pq_capacity q' = pq_capacity q" using assms(3) by (auto simp: pq_enqueue_def Let_def pq_store_def)
qed

lemma pq_pop_loop_frame:
  "pq_pop_loop n q = (xs, q') \<Longrightarrow> pq_wake_pending q' = pq_wake_pending q \<and> pq_capacity q' = pq_capacity q"
  by (induction n q arbitrary: xs rule: pq_pop_loop.induct)
    (auto simp: pq_advance_def split: if_splits prod.splits)

lemma pq_pop_effect:
  assumes "pq_inv q" and "tr_completion_queue_pop_batch (Some q) (Some dst) m hm = (n, Some q', Some out, hm')"
  shows "pq_inv q'" and "pq.contents q' = drop (unat m) (pq.contents q)"
    and "take (unat n) out = take (unat m) (pq.contents q)" and "pq_capacity q' = pq_capacity q"
    and "hm' = map_option (\<lambda>_. pq.contents q' \<noteq> []) hm"
proof -
  obtain xs q1 where l: "pq_pop_loop (unat m) q = (xs, q1)" by fastforce
  have q': "q' = (if pq_count q1 = 0 then q1\<lparr>pq_wake_pending := False\<rparr> else q1)"
    and out: "out = poke 0 xs dst" and n: "n = of_nat (length xs)"
    and hm: "hm' = map_option (\<lambda>_. pq_count q1 \<noteq> 0) hm"
    using assms(2) l by (simp_all add: tr_completion_queue_pop_batch_def)
  have ri: "pq.ring_inv q" using assms(1) by (simp add: inv_defs)
  from pq.pop_upto_prefix [OF ri l [unfolded pq_pop_loop_ring]]
  have p: "pq.ring_inv q1" "xs = take (unat m) (pq.contents q)" "pq.contents q1 = drop (unat m) (pq.contents q)"
    by auto
  have fr: "pq.ring_inv q' = pq.ring_inv q1" "pq.contents q' = pq.contents q1" "pq_count q' = pq_count q1"
    using pq_ring_frame [of q' q1] by (simp_all add: q')
  show "pq.contents q' = drop (unat m) (pq.contents q)" using fr p by simp
  have "pq_count q = 0 \<longrightarrow> pq_count q1 = 0" using p(3) by (simp flip: pq.contents_empty_iff)
  then show "pq_inv q'"
    using assms(1) p(1) fr pq_pop_loop_frame [OF l] by (auto simp: inv_defs q')
  have "length xs \<le> unat m" by (simp add: p(2))
  then have "length xs < 2 ^ 64" using unat_lt_2p [of m] by simp
  then have "unat n = length xs" by (simp add: n unat_of_nat)
  then show "take (unat n) out = take (unat m) (pq.contents q)" by (simp add: out poke_def p(2) min_def)
  show "pq_capacity q' = pq_capacity q" using pq_pop_loop_frame [OF l] by (simp add: q')
  show "hm' = map_option (\<lambda>_. pq.contents q' \<noteq> []) hm" by (simp add: hm fr pq.contents_empty_iff)
qed

section \<open>Histories\<close>

text \<open>As for the command queue: \<open>accepted\<close> are the completions whose producers were told \<open>TR_OK\<close>,
  \<open>delivered\<close> those the reactor has taken.\<close>

inductive pq_hist :: "u32 \<Rightarrow> tr_completion list \<Rightarrow> tr_completion list \<Rightarrow> tr_completion_queue \<Rightarrow> bool" for cap where
  hist_init: "tr_completion_queue_init True True True (Some q0) cap = (TR_OK, Some q) \<Longrightarrow> pq_hist cap [] [] q"
| hist_open: "pq_hist cap acc del q \<Longrightarrow> tr_completion_queue_open (Some q) = (ret, Some q') \<Longrightarrow> pq_hist cap acc del q'"
| hist_close: "pq_hist cap acc del q \<Longrightarrow> tr_completion_queue_close (Some q) = Some q' \<Longrightarrow> pq_hist cap acc del q'"
| hist_push: "pq_hist cap acc del q \<Longrightarrow> tr_completion_queue_push (Some q) (Some c) nw = (ret, Some q', nw') \<Longrightarrow>
    pq_hist cap (acc @ (if ret = TR_OK then [c] else [])) del q'"
| hist_pop: "pq_hist cap acc del q \<Longrightarrow>
    tr_completion_queue_pop_batch (Some q) (Some dst) m hm = (n, Some q', Some out, hm') \<Longrightarrow>
    pq_hist cap acc (del @ take (unat n) out) q'"
| hist_wait_sleep: "pq_hist cap acc del q \<Longrightarrow> pq_must_wait q g \<Longrightarrow> pq_hist cap acc del (pq_sleep q waited)"
| hist_wait_wakeup: "pq_hist cap acc del q \<Longrightarrow> pq_hist cap acc del (pq_wakeup q)"
| hist_wait_enqueue: "pq_hist cap acc del q \<Longrightarrow> \<not> pq_must_wait q g \<Longrightarrow> pq_accepting q \<Longrightarrow>
    pq_admission_generation q = g \<Longrightarrow> pq_enqueue q c = (q', wake) \<Longrightarrow> pq_hist cap (acc @ [c]) del q'"

lemma pq_push_cases:
  assumes "tr_completion_queue_push (Some q) (Some c) nw = (ret, q'', nw')"
  obtains (refused) "ret \<in> {TR_ERR_INVALID, TR_ERR_CLOSED}" "q'' = Some q" "nw' = nw"
  | (full) "ret = TR_AGAIN" "q'' = Some (q\<lparr>pq_full_events := pq_full_events q + 1\<rparr>)" "nw' = nw"
  | (room) q' wake where "pq_accepting q" "pq_count q \<noteq> pq_capacity q" "ret = TR_OK" "q'' = Some q'"
      "pq_enqueue q c = (q', wake)" "nw' = map_option (\<lambda>_. wake) nw"
  using assms by (auto simp: tr_completion_queue_push_def split: if_splits prod.splits)

lemma pq_hist_inv: "pq_hist cap acc del q \<Longrightarrow> pq_inv q \<and> acc = del @ pq.contents q \<and> pq_capacity q = cap"
proof (induction rule: pq_hist.induct)
  case (hist_init q0 q)
  then show ?case
    by (auto simp: tr_completion_queue_init_def completion_queue_zero_def inv_defs pq.ring_inv_def
        pq.contents_def word_neq_0_unat split: if_splits)
next
  case (hist_open acc del q ret q')
  then show ?case using same_completions_inv [OF same_completions_steps(5), of True q]
    by (auto simp: tr_completion_queue_open_def)
next
  case (hist_close acc del q q')
  then show ?case using same_completions_inv [OF same_completions_steps(5), of False q]
    by (auto simp: tr_completion_queue_close_def)
next
  case (hist_push acc del q c nw ret q' nw')
  from hist_push.hyps(2) show ?case
  proof (cases rule: pq_push_cases)
    case refused
    then show ?thesis using hist_push.IH by auto
  next
    case full
    then show ?thesis
      using hist_push.IH same_completions_inv [OF same_completions_steps(1), of "pq_full_events q + 1" q] by simp
  next
    case (room q'' wake)
    then show ?thesis using hist_push.IH pq_enqueue_effect [of q c q'' wake] by simp
  qed
next
  case (hist_pop acc del q dst m hm n q' out hm')
  then show ?case using pq_pop_effect [of q dst m hm n q' out hm'] by simp
next
  case (hist_wait_sleep acc del q g waited)
  then show ?case using same_completions_inv [OF same_completions_steps(2)] by simp
next
  case (hist_wait_wakeup acc del q)
  then show ?case using same_completions_inv [OF same_completions_steps(3)] by simp
next
  case (hist_wait_enqueue acc del q g c q' wake)
  then have "pq_count q \<noteq> pq_capacity q" by (simp add: pq_must_wait_def)
  then show ?case using hist_wait_enqueue pq_enqueue_effect [of q c q' wake] by simp
qed

section \<open>Properties\<close>

text \<open>C29: the completion queue delivers first in first out. In every interleaving of worker threads, admission
  control and the reactor, the accepted completions are exactly the delivered ones followed by the
  pending ones in order, never more than the capacity are pending, the wake-up flag is up exactly
  while some are pending, and while the queue is closed a push is refused and leaves it unchanged.\<close>

theorem completion_queue_fifo:
  assumes "pq_hist cap accepted delivered q"
  shows "accepted = delivered @ pq.contents q \<and> length (pq.contents q) \<le> unat cap \<and>
    (pq_wake_pending q \<longleftrightarrow> pq.contents q \<noteq> []) \<and>
    (\<not> pq_accepting q \<and> cp_fn c \<noteq> None \<longrightarrow>
       tr_completion_queue_push (Some q) (Some c) nw = (TR_ERR_CLOSED, Some q, nw))"
  using pq_hist_inv [OF assms]
  by (auto simp: inv_defs pq.ring_inv_def pq.contents_empty_iff tr_completion_queue_push_def)

definition completion_queue_sample :: tr_completion_queue where
  "completion_queue_sample = completion_queue_zero
     \<lparr>pq_items := replicate 2 \<lparr>cp_fn = None, cp_arg = None\<rparr>, pq_capacity := 2\<rparr>"

lemma completion_queue_sample_hist: "pq_hist 2 [] [] completion_queue_sample"
  by (rule hist_init [of completion_queue_zero])
    (simp add: tr_completion_queue_init_def completion_queue_sample_def)

theorem completion_queue_fifo_witness:
  "tr_completion_queue_push (Some completion_queue_sample) (Some \<lparr>cp_fn = Some 7, cp_arg = None\<rparr>) None =
     (TR_ERR_CLOSED, Some completion_queue_sample, None)"
  using completion_queue_fifo [OF completion_queue_sample_hist, of "\<lparr>cp_fn = Some 7, cp_arg = None\<rparr>" None]
  by (simp add: completion_queue_sample_def completion_queue_zero_def)



end
