(* ===== verification/Tr_Heap_Order.thy ===== *)
theory Tr_Heap_Order
  imports Main
begin

text \<open>
  The order of an array-based binary heap whose positions hold keys \<open>f 0 .. f (n - 1)\<close>: what sifting up and
  sifting down need. The two weakened invariants allow one position to be out of order towards its
  parent or towards its children; exchanging it moves the exception along, and when no exchange is
  due the exception is gone.
\<close>

definition parent :: "nat \<Rightarrow> nat" where
  "parent i = (i - 1) div 2"

definition heap_ok :: "(nat \<Rightarrow> 'k::linorder) \<Rightarrow> nat \<Rightarrow> bool" where
  "heap_ok f n \<longleftrightarrow> (\<forall>i<n. 0 < i \<longrightarrow> f (parent i) \<le> f i)"

definition heap_above :: "(nat \<Rightarrow> 'k::linorder) \<Rightarrow> nat \<Rightarrow> nat \<Rightarrow> bool" where
  "heap_above f n p \<longleftrightarrow> (\<forall>i<n. 0 < i \<longrightarrow> parent i = p \<longrightarrow> 0 < p \<longrightarrow> f (parent p) \<le> f i)"

definition except_up :: "(nat \<Rightarrow> 'k::linorder) \<Rightarrow> nat \<Rightarrow> nat \<Rightarrow> bool" where
  "except_up f n p \<longleftrightarrow> (\<forall>i<n. 0 < i \<longrightarrow> i \<noteq> p \<longrightarrow> f (parent i) \<le> f i) \<and> heap_above f n p"

definition except_down :: "(nat \<Rightarrow> 'k::linorder) \<Rightarrow> nat \<Rightarrow> nat \<Rightarrow> bool" where
  "except_down f n p \<longleftrightarrow> (\<forall>i<n. 0 < i \<longrightarrow> parent i \<noteq> p \<longrightarrow> f (parent i) \<le> f i) \<and> heap_above f n p"

definition exchange :: "(nat \<Rightarrow> 'k) \<Rightarrow> nat \<Rightarrow> nat \<Rightarrow> nat \<Rightarrow> 'k" where
  "exchange f a b = f(a := f b, b := f a)"

lemma parent_less: "0 < i \<Longrightarrow> parent i < i"
  by (simp add: parent_def)

lemma parent_irrefl [simp]: "0 < i \<Longrightarrow> parent i \<noteq> i" "0 < i \<Longrightarrow> \<not> i < parent i"
  using parent_less [of i] by auto

lemma parent_children: "0 < i \<Longrightarrow> parent i = p \<longleftrightarrow> i = 2 * p + 1 \<or> i = 2 * p + 2"
  unfolding parent_def by presburger

lemma heap_ok_min: "heap_ok f n \<Longrightarrow> i < n \<Longrightarrow> f 0 \<le> f i"
proof (induction i rule: less_induct)
  case (less i)
  show ?case
  proof (cases "i = 0")
    case False
    then have "f (parent i) \<le> f i" and "parent i < i"
      using less.prems by (simp_all add: heap_ok_def parent_less)
    then show ?thesis using less by (meson order.strict_trans order_trans)
  qed simp
qed

text \<open>Changing one key leaves a heap with one exception.\<close>

lemma heap_ok_above: "heap_ok f n \<Longrightarrow> p < n \<Longrightarrow> heap_above f n p"
  unfolding heap_ok_def heap_above_def by (metis order_trans parent_less order.strict_trans)

lemma heap_ok_lower:
  assumes "heap_ok f n" and "p < n" and "k \<le> f p"
  shows "except_up (f(p := k)) n p"
  using assms heap_ok_above [OF assms(1,2)] parent_less
  by (auto simp: except_up_def heap_ok_def heap_above_def intro: order_trans)

lemma heap_ok_raise:
  assumes "heap_ok f n" and "p < n" and "f p \<le> k"
  shows "except_down (f(p := k)) n p"
  using assms heap_ok_above [OF assms(1,2)] parent_less
  by (auto simp: except_down_def heap_ok_def heap_above_def intro: order_trans)

lemma heap_ok_append: "heap_ok f n \<Longrightarrow> except_up (f(n := k)) (Suc n) n"
  using parent_less unfolding except_up_def heap_ok_def heap_above_def
  by (auto simp: less_Suc_eq)

text \<open>Replacing any key leaves an exception at that position in both directions.\<close>

definition except_both :: "(nat \<Rightarrow> 'k::linorder) \<Rightarrow> nat \<Rightarrow> nat \<Rightarrow> bool" where
  "except_both f n p \<longleftrightarrow> (\<forall>i<n. 0 < i \<longrightarrow> i \<noteq> p \<longrightarrow> parent i \<noteq> p \<longrightarrow> f (parent i) \<le> f i) \<and> heap_above f n p"

lemma heap_ok_replace:
  assumes "heap_ok f n" and "p < n"
  shows "except_both (f(p := k)) n p"
  using assms heap_ok_above [OF assms] parent_less
  by (auto simp: except_both_def heap_ok_def heap_above_def)

lemma heap_ok_shrink: "heap_ok f n \<Longrightarrow> m \<le> n \<Longrightarrow> heap_ok f m"
  by (simp add: heap_ok_def)

text \<open>Only the keys below \<open>n\<close> matter.\<close>

lemma parent_below: "0 < i \<Longrightarrow> i < n \<Longrightarrow> parent i < n"
  using parent_less order.strict_trans by blast

lemma heap_ok_cong: "(\<And>i. i < n \<Longrightarrow> f i = g i) \<Longrightarrow> heap_ok f n \<longleftrightarrow> heap_ok g n"
  by (simp add: heap_ok_def parent_below)

lemma heap_above_cong:
  "(\<And>i. i < n \<Longrightarrow> f i = g i) \<Longrightarrow> p < n \<Longrightarrow> heap_above f n p \<longleftrightarrow> heap_above g n p"
  by (auto simp: heap_above_def parent_below)

lemma except_up_cong:
  "(\<And>i. i < n \<Longrightarrow> f i = g i) \<Longrightarrow> p < n \<Longrightarrow> except_up f n p \<longleftrightarrow> except_up g n p"
  using heap_above_cong [of n f g p] by (simp add: except_up_def parent_below)

lemma except_down_cong:
  "(\<And>i. i < n \<Longrightarrow> f i = g i) \<Longrightarrow> p < n \<Longrightarrow> except_down f n p \<longleftrightarrow> except_down g n p"
  using heap_above_cong [of n f g p] by (simp add: except_down_def parent_below)

lemma heap_ok_except_down: "heap_ok f n \<Longrightarrow> p < n \<Longrightarrow> except_down f n p"
  using heap_ok_above [of f n p] by (auto simp: except_down_def heap_ok_def)

section \<open>Sifting\<close>

lemma except_up_step:
  assumes "except_up f n p" and "0 < p" and "p < n" and "f p < f (parent p)"
  shows "except_up (exchange f p (parent p)) n (parent p)"
proof -
  let ?g = "exchange f p (parent p)"
  have pp: "parent p < p" using assms(2) by (rule parent_less)
  have g: "?g (parent p) = f p" "?g p = f (parent p)" "\<And>i. i \<noteq> p \<Longrightarrow> i \<noteq> parent p \<Longrightarrow> ?g i = f i"
    using pp by (auto simp: exchange_def)
  have ord: "\<And>i. i < n \<Longrightarrow> 0 < i \<Longrightarrow> i \<noteq> p \<Longrightarrow> f (parent i) \<le> f i"
    and ab: "\<And>i. i < n \<Longrightarrow> 0 < i \<Longrightarrow> parent i = p \<Longrightarrow> f (parent p) \<le> f i"
    using assms(1,2) by (auto simp: except_up_def heap_above_def)
  have "?g (parent i) \<le> ?g i" if i: "i < n" "0 < i" "i \<noteq> parent p" for i
  proof (cases "i = p")
    case True
    then show ?thesis using assms(4) by (simp add: g)
  next
    case False
    then have gi: "?g i = f i" using i by (simp add: g)
    consider "parent i = p" | "parent i = parent p" | "parent i \<noteq> p" "parent i \<noteq> parent p" by blast
    then show ?thesis
    proof cases
      case 1
      then show ?thesis using ab i gi by (simp add: g)
    next
      case 2
      then have "f (parent p) \<le> f i" using ord [of i] i False by simp
      then show ?thesis using 2 gi assms(4) by (simp add: g)
    next
      case 3
      then show ?thesis using ord i False gi by (simp add: g)
    qed
  qed
  moreover have "?g (parent (parent p)) \<le> ?g i"
    if i: "i < n" "0 < i" "parent i = parent p" "0 < parent p" for i
  proof -
    have "parent (parent p) < parent p" using i(4) by (rule parent_less)
    then have gpp: "?g (parent (parent p)) = f (parent (parent p))" using pp g(3) by simp
    have top: "f (parent (parent p)) \<le> f (parent p)" using ord [of "parent p"] i(4) pp assms(3) by simp
    show ?thesis
    proof (cases "i = p")
      case True
      then show ?thesis using gpp top by (simp add: g)
    next
      case False
      moreover have "i \<noteq> parent p" using i(2,3) parent_less [of i] by auto
      ultimately have "?g i = f i" and "f (parent p) \<le> f i" using ord [of i] i by (simp_all add: g)
      then show ?thesis using gpp top by simp
    qed
  qed
  ultimately show ?thesis by (simp add: except_up_def heap_above_def)
qed

lemma except_up_done:
  assumes "except_up f n p" and "p = 0 \<or> \<not> f p < f (parent p)"
  shows "heap_ok f n"
  using assms by (auto simp: except_up_def heap_ok_def not_less)

lemma except_down_step:
  assumes "except_down f n p" and "p < n" and "b < n" and "0 < b" and "parent b = p"
    and "f b < f p" and "\<And>i. i < n \<Longrightarrow> 0 < i \<Longrightarrow> parent i = p \<Longrightarrow> f b \<le> f i"
  shows "except_down (exchange f p b) n b"
proof -
  let ?g = "exchange f p b"
  have pb: "p < b" using parent_less [OF assms(4)] assms(5) by simp
  have g: "?g p = f b" "?g b = f p" "\<And>i. i \<noteq> p \<Longrightarrow> i \<noteq> b \<Longrightarrow> ?g i = f i"
    using pb by (auto simp: exchange_def)
  have ord: "\<And>i. i < n \<Longrightarrow> 0 < i \<Longrightarrow> parent i \<noteq> p \<Longrightarrow> f (parent i) \<le> f i"
    and ab: "\<And>i. i < n \<Longrightarrow> 0 < i \<Longrightarrow> parent i = p \<Longrightarrow> 0 < p \<Longrightarrow> f (parent p) \<le> f i"
    using assms(1) by (auto simp: except_down_def heap_above_def)
  have "?g (parent i) \<le> ?g i" if i: "i < n" "0 < i" "parent i \<noteq> b" for i
  proof (cases "parent i = p")
    case True
    then show ?thesis
      using assms(6,7) i pb parent_less [OF i(2)] by (cases "i = b") (auto simp: g)
  next
    case False
    then have gp: "?g (parent i) = f (parent i)" using i(3) by (simp add: g)
    have "i \<noteq> b" using False assms(5) by auto
    show ?thesis
    proof (cases "i = p")
      case True
      then have "f (parent p) \<le> f b" using ab [OF assms(3,4,5)] i(2) by simp
      then show ?thesis using True gp by (simp add: g)
    next
      case False
      then show ?thesis using ord [of i] i \<open>parent i \<noteq> p\<close> \<open>i \<noteq> b\<close> gp by (simp add: g)
    qed
  qed
  moreover have "?g (parent b) \<le> ?g i" if i: "i < n" "0 < i" "parent i = b" for i
  proof -
    have "i \<noteq> p" "i \<noteq> b" using parent_less [OF i(2)] i(3) pb by auto
    moreover have "f b \<le> f i" using ord [of i] i pb by simp
    ultimately show ?thesis by (simp add: g assms(5))
  qed
  ultimately show ?thesis by (simp add: except_down_def heap_above_def)
qed

lemma except_down_done:
  assumes "except_down f n p" and "\<And>i. i < n \<Longrightarrow> 0 < i \<Longrightarrow> parent i = p \<Longrightarrow> f p \<le> f i"
  shows "heap_ok f n"
  using assms by (metis except_down_def heap_ok_def)

lemma except_both_cases:
  assumes "except_both f n p" and "p < n"
  shows "if 0 < p \<and> f p < f (parent p) then except_up f n p else except_down f n p"
proof (cases "0 < p \<and> f p < f (parent p)")
  case True
  then have "f p \<le> f i" if "i < n" "0 < i" "parent i = p" for i
    using assms(1) that by (force simp: except_both_def heap_above_def)
  then show ?thesis using True assms(1) by (auto simp: except_both_def except_up_def)
next
  case False
  then show ?thesis using assms(1) by (auto simp: except_both_def except_down_def not_less)
qed

end
