(* ===== verification/Tr_Timer_Queue.thy ===== *)
theory Tr_Timer_Queue
  imports Tr_Status Tr_Heap_Order "HOL-Library.Product_Lexorder" "HOL-Library.Monad_Syntax"
begin

text \<open>
  The timer queue of a reactor, \<open>src/execution/timer_queue.c\<close>: a fixed table of timer entries, a binary heap
  of the slots of armed timers ordered by deadline and slot, and a free list threaded through the unused
  entries. The union of \<open>heap_pos\<close> and \<open>next_free\<close> is one field, as in memory. Positions and slots are
  32-bit words, so the index \<open>pos * 2 + 1\<close> of a child can wrap: \<open>tr_timer_heap_down\<close> is a
  \<open>partial_function\<close>, \<open>None\<close> meaning that the loop does not end, and every operation that calls it
  returns an \<open>option\<close>. The operations always return for capacities below
  \<open>2 ^ 31\<close>; at \<open>2 ^ 31\<close> a child index really wraps to the root.

  Timer callbacks are application code: \<open>tr_timer_queue_run_due\<close> takes what a callback does to the queue
  and what it returns as an argument, and the theorems assume that a callback changes the queue only
  through the public operations.

  Shown here: what sifting and the removal of a position do to the heap, and where a child index wraps.
  The invariant and the properties of the operations are in \<open>Tr_Timer_Inv\<close>.
\<close>

abbreviation (input) TR_TIMER_HEAP_NONE :: u32 where "TR_TIMER_HEAP_NONE \<equiv> UINT32_MAX"

record tr_timer_token =
  tt_slot :: u32
  tt_generation :: u32

record tr_timer_entry =
  te_generation :: u32
  te_link :: u32
  te_deadline_ns :: u64
  te_version :: u64
  te_callback :: "nat option"
  te_arg :: "nat option"
  te_used :: bool
  te_running :: bool

record tr_timer_queue =
  tq_entries :: "tr_timer_entry list"
  tq_heap :: "u32 list"
  tq_capacity :: u32
  tq_size :: u32
  tq_free_head :: u32

definition timer_entry_zero :: tr_timer_entry where
  "timer_entry_zero = \<lparr>te_generation = 0, te_link = 0, te_deadline_ns = 0, te_version = 0,
     te_callback = None, te_arg = None, te_used = False, te_running = False\<rparr>"

definition timer_queue_zero :: tr_timer_queue where
  "timer_queue_zero = \<lparr>tq_entries = [], tq_heap = [], tq_capacity = 0, tq_size = 0, tq_free_head = 0\<rparr>"

definition tq_entry :: "tr_timer_queue \<Rightarrow> u32 \<Rightarrow> tr_timer_entry" where
  "tq_entry q slot = tq_entries q ! unat slot"

definition tq_set_entry :: "u32 \<Rightarrow> tr_timer_entry \<Rightarrow> tr_timer_queue \<Rightarrow> tr_timer_queue" where
  "tq_set_entry slot e q = q\<lparr>tq_entries := (tq_entries q)[unat slot := e]\<rparr>"

definition tq_set_link :: "u32 \<Rightarrow> u32 \<Rightarrow> tr_timer_queue \<Rightarrow> tr_timer_queue" where
  "tq_set_link slot l q = tq_set_entry slot ((tq_entry q slot)\<lparr>te_link := l\<rparr>) q"

definition tr_timer_token_valid :: "tr_timer_queue option \<Rightarrow> tr_timer_token \<Rightarrow> bool" where
  "tr_timer_token_valid queue token =
     (case queue of None \<Rightarrow> False
      | Some q \<Rightarrow>
          if tq_capacity q \<le> tt_slot token then False
          else te_used (tq_entry q (tt_slot token)) \<and>
            te_generation (tq_entry q (tt_slot token)) = tt_generation token)"

definition tr_timer_before :: "tr_timer_queue \<Rightarrow> u32 \<Rightarrow> u32 \<Rightarrow> bool" where
  "tr_timer_before q a_slot b_slot =
     (let a = tq_entry q a_slot; b = tq_entry q b_slot in
      if te_deadline_ns a \<noteq> te_deadline_ns b then te_deadline_ns a < te_deadline_ns b
      else a_slot < b_slot)"

definition tr_timer_heap_swap :: "tr_timer_queue \<Rightarrow> u32 \<Rightarrow> u32 \<Rightarrow> tr_timer_queue" where
  "tr_timer_heap_swap q a b =
     (let tmp = tq_heap q ! unat a;
          q = q\<lparr>tq_heap := (tq_heap q)[unat a := tq_heap q ! unat b]\<rparr>;
          q = q\<lparr>tq_heap := (tq_heap q)[unat b := tmp]\<rparr>;
          q = tq_set_link (tq_heap q ! unat a) a q
      in tq_set_link (tq_heap q ! unat b) b q)"

lemma unat_parent: "pos \<noteq> 0 \<Longrightarrow> unat ((pos - 1) div 2 :: u32) = parent (unat pos)"
  using unat_sub_le [of 1 pos] by (simp add: unat_div word_le_nat_alt word_neq_0_unat parent_def)

function tr_timer_heap_up :: "tr_timer_queue \<Rightarrow> u32 \<Rightarrow> tr_timer_queue" where
  "tr_timer_heap_up q pos =
     (if pos = 0 then q
      else
        let par = (pos - 1) div 2 in
        if \<not> tr_timer_before q (tq_heap q ! unat pos) (tq_heap q ! unat par) then q
        else tr_timer_heap_up (tr_timer_heap_swap q pos par) par)"
  by pat_completeness auto

termination
  by (relation "measure (\<lambda>(q, pos). unat pos)") (auto simp: unat_parent parent_less word_neq_0_unat)

declare tr_timer_heap_up.simps [simp del]

definition tq_best_child :: "tr_timer_queue \<Rightarrow> u32 \<Rightarrow> u32" where
  "tq_best_child q pos =
     (let left = pos * 2 + 1;
          right = left + 1;
          best = pos;
          best = (if left < tq_size q \<and> tr_timer_before q (tq_heap q ! unat left) (tq_heap q ! unat best)
                  then left else best)
      in if right < tq_size q \<and> tr_timer_before q (tq_heap q ! unat right) (tq_heap q ! unat best)
         then right else best)"

partial_function (option) tr_timer_heap_down :: "tr_timer_queue \<Rightarrow> u32 \<Rightarrow> tr_timer_queue option" where
  "tr_timer_heap_down q pos =
     (let best = tq_best_child q pos in
      if best = pos then Some q
      else tr_timer_heap_down (tr_timer_heap_swap q pos best) best)"

definition tr_timer_heap_remove :: "tr_timer_queue \<Rightarrow> u32 \<Rightarrow> tr_timer_queue option" where
  "tr_timer_heap_remove q pos =
     (if tq_size q \<le> pos then Some q
      else do {
        let removed_slot = tq_heap q ! unat pos;
        let q = q\<lparr>tq_size := tq_size q - 1\<rparr>;
        q \<leftarrow> (if pos \<noteq> tq_size q then
            let last_slot = tq_heap q ! unat (tq_size q);
                q = q\<lparr>tq_heap := (tq_heap q)[unat pos := last_slot]\<rparr>;
                q = tq_set_link last_slot pos q;
                q = tr_timer_heap_up q pos
            in tr_timer_heap_down q (te_link (tq_entry q last_slot))
          else Some q);
        Some (tq_set_link removed_slot TR_TIMER_HEAP_NONE q)
      })"

definition timer_free_entry :: "u32 \<Rightarrow> u32 \<Rightarrow> tr_timer_entry" where
  "timer_free_entry capacity i =
     timer_entry_zero\<lparr>te_link := (if i + 1 < capacity then i + 1 else TR_TIMER_HEAP_NONE)\<rparr>"

definition tr_timer_queue_init ::
  "bool \<Rightarrow> bool \<Rightarrow> tr_timer_queue option \<Rightarrow> u32 \<Rightarrow> tr_status \<times> tr_timer_queue option" where
  "tr_timer_queue_init entries_alloc heap_alloc queue capacity =
     (if queue = None \<or> capacity = 0 then (TR_ERR_INVALID, queue)
      else if \<not> entries_alloc \<or> \<not> heap_alloc then (TR_ERR_NOMEM, Some timer_queue_zero)
      else (TR_OK, Some (timer_queue_zero
        \<lparr>tq_entries := map (\<lambda>i. timer_free_entry capacity (of_nat i)) [0..<unat capacity],
         tq_heap := replicate (unat capacity) 0, tq_capacity := capacity\<rparr>)))"

definition tr_timer_queue_destroy :: "tr_timer_queue option \<Rightarrow> tr_timer_queue option" where
  "tr_timer_queue_destroy queue = (case queue of None \<Rightarrow> None | Some q \<Rightarrow> Some timer_queue_zero)"

definition tr_timer_queue_register ::
  "tr_timer_queue option \<Rightarrow> nat option \<Rightarrow> nat option \<Rightarrow> tr_timer_token option \<Rightarrow>
    tr_status \<times> tr_timer_queue option \<times> tr_timer_token option" where
  "tr_timer_queue_register queue callback arg out =
     (case queue of None \<Rightarrow> (TR_ERR_INVALID, queue, out)
      | Some q \<Rightarrow>
          if callback = None \<or> out = None then (TR_ERR_INVALID, queue, out)
          else if tq_capacity q = 0 \<or> tq_free_head q = TR_TIMER_HEAP_NONE then (TR_AGAIN, queue, out)
          else
            let slot = tq_free_head q;
                entry = tq_entry q slot;
                q = q\<lparr>tq_free_head := te_link entry\<rparr>;
                generation = te_generation entry + 1;
                generation = (if generation = 0 then 1 else generation);
                entry = timer_entry_zero\<lparr>te_generation := generation, te_link := TR_TIMER_HEAP_NONE,
                  te_version := 1, te_callback := callback, te_arg := arg, te_used := True\<rparr>
            in (TR_OK, Some (tq_set_entry slot entry q),
                Some \<lparr>tt_slot = slot, tt_generation = generation\<rparr>))"

text \<open>Storing the new deadline and version in \<open>tr_timer_queue_arm\<close>.\<close>

definition tq_store_deadline :: "u32 \<Rightarrow> u64 \<Rightarrow> tr_timer_queue \<Rightarrow> tr_timer_queue" where
  "tq_store_deadline slot deadline_ns q =
     (let e = tq_entry q slot;
          v = te_version e + 1
      in tq_set_entry slot (e\<lparr>te_deadline_ns := deadline_ns, te_version := (if v = 0 then 1 else v)\<rparr>) q)"

definition tr_timer_queue_arm ::
  "tr_timer_queue option \<Rightarrow> tr_timer_token \<Rightarrow> u64 \<Rightarrow> (tr_status \<times> tr_timer_queue option) option" where
  "tr_timer_queue_arm queue token deadline_ns =
     (if \<not> tr_timer_token_valid queue token then Some (TR_ERR_STALE, queue)
      else do {
        let q = the queue;
        let slot = tt_slot token;
        let old_deadline = te_deadline_ns (tq_entry q slot);
        let q = tq_store_deadline slot deadline_ns q;
        let heap_pos = te_link (tq_entry q slot);
        if deadline_ns = 0 then
          (if heap_pos \<noteq> TR_TIMER_HEAP_NONE
           then map_option (\<lambda>q. (TR_OK, Some q)) (tr_timer_heap_remove q heap_pos)
           else Some (TR_OK, Some q))
        else if heap_pos = TR_TIMER_HEAP_NONE then
          (if tq_size q = tq_capacity q then Some (TR_AGAIN, Some q)
           else
             let pos = tq_size q;
                 q = q\<lparr>tq_size := tq_size q + 1\<rparr>;
                 q = q\<lparr>tq_heap := (tq_heap q)[unat pos := slot]\<rparr>;
                 q = tq_set_link slot pos q
             in Some (TR_OK, Some (tr_timer_heap_up q pos)))
        else if old_deadline = 0 \<or> deadline_ns < old_deadline
        then Some (TR_OK, Some (tr_timer_heap_up q heap_pos))
        else if old_deadline < deadline_ns
        then map_option (\<lambda>q. (TR_OK, Some q)) (tr_timer_heap_down q heap_pos)
        else Some (TR_OK, Some q)
      })"

definition tr_timer_queue_unregister ::
  "tr_timer_queue option \<Rightarrow> tr_timer_token \<Rightarrow> (tr_status \<times> tr_timer_queue option) option" where
  "tr_timer_queue_unregister queue token =
     (if \<not> tr_timer_token_valid queue token then Some (TR_ERR_STALE, queue)
      else do {
        let q = the queue;
        let slot = tt_slot token;
        q \<leftarrow> (if te_link (tq_entry q slot) \<noteq> TR_TIMER_HEAP_NONE
               then tr_timer_heap_remove q (te_link (tq_entry q slot)) else Some q);
        let e = tq_entry q slot;
        let e = e\<lparr>te_deadline_ns := 0, te_version := te_version e + 1, te_used := False, te_running := False,
          te_callback := None, te_arg := None, te_link := tq_free_head q\<rparr>;
        Some (TR_OK, Some ((tq_set_entry slot e q)\<lparr>tq_free_head := slot\<rparr>))
      })"

definition tr_timer_queue_next_deadline :: "tr_timer_queue option \<Rightarrow> u64" where
  "tr_timer_queue_next_deadline queue =
     (case queue of None \<Rightarrow> 0
      | Some q \<Rightarrow> if tq_size q = 0 then 0 else te_deadline_ns (tq_entry q (tq_heap q ! 0)))"

text \<open>What a callback, called with its argument and the clock, does to the queue and returns.\<close>

type_synonym timer_callbacks = "nat \<Rightarrow> nat option \<Rightarrow> u64 \<Rightarrow> tr_timer_queue \<Rightarrow> tr_timer_queue \<times> u64"

text \<open>The end of one round of \<open>tr_timer_queue_run_due\<close>, after the callback.\<close>

definition tq_after_callback ::
  "tr_timer_queue \<Rightarrow> tr_timer_token \<Rightarrow> u64 \<Rightarrow> u64 \<Rightarrow> tr_timer_queue option" where
  "tq_after_callback q token version next_ns =
     (let e = tq_entry q (tt_slot token) in
      if te_used e \<and> te_generation e = tt_generation token then
        (let q = tq_set_entry (tt_slot token) (e\<lparr>te_running := False\<rparr>) q in
         if te_version e = version \<and> next_ns \<noteq> 0
         then map_option (\<lambda>(ret, q). the q) (tr_timer_queue_arm (Some q) token next_ns)
         else Some q)
      else Some q)"

text \<open>One round: the earliest timer is removed from the heap, marked running and its callback called. The
  entry is recorded with the deadline it had.\<close>

definition tq_run_one ::
  "timer_callbacks \<Rightarrow> u64 \<Rightarrow> tr_timer_queue \<Rightarrow> ((u32 \<times> u64) \<times> tr_timer_queue) option" where
  "tq_run_one cb now_ns q =
     do {
       let slot = tq_heap q ! 0;
       let e = tq_entry q slot;
       let token = \<lparr>tt_slot = slot, tt_generation = te_generation e\<rparr>;
       q \<leftarrow> tr_timer_heap_remove q 0;
       let q = tq_set_entry slot ((tq_entry q slot)\<lparr>te_deadline_ns := 0, te_running := True\<rparr>) q;
       let (q, next_ns) = (case te_callback e of None \<Rightarrow> (q, 0) | Some f \<Rightarrow> cb f (te_arg e) now_ns q);
       q \<leftarrow> tq_after_callback q token (te_version e) next_ns;
       Some ((slot, te_deadline_ns e), q)
     }"

text \<open>The loop; \<open>n\<close> is \<open>max_callbacks - count\<close>, the list has the timers run, in order.\<close>

fun tq_run_loop ::
  "timer_callbacks \<Rightarrow> u64 \<Rightarrow> nat \<Rightarrow> tr_timer_queue \<Rightarrow> ((u32 \<times> u64) list \<times> tr_timer_queue) option" where
  "tq_run_loop cb now_ns 0 q = Some ([], q)"
| "tq_run_loop cb now_ns (Suc n) q =
     (if tq_size q = 0 \<or> now_ns < te_deadline_ns (tq_entry q (tq_heap q ! 0)) then Some ([], q)
      else do {
        (r, q) \<leftarrow> tq_run_one cb now_ns q;
        (rs, q) \<leftarrow> tq_run_loop cb now_ns n q;
        Some (r # rs, q)
      })"

definition tr_timer_queue_run_due ::
  "timer_callbacks \<Rightarrow> tr_timer_queue option \<Rightarrow> u64 \<Rightarrow> size_t \<Rightarrow> bool option \<Rightarrow>
    (size_t \<times> tr_timer_queue option \<times> bool option \<times> (u32 \<times> u64) list) option" where
  "tr_timer_queue_run_due cb queue now_ns max_callbacks has_more_due =
     (case queue of None \<Rightarrow> Some (0, None, map_option (\<lambda>_. False) has_more_due, [])
      | Some q \<Rightarrow> do {
          (rs, q) \<leftarrow> tq_run_loop cb now_ns (unat max_callbacks) q;
          let more = (tq_size q \<noteq> 0 \<and> te_deadline_ns (tq_entry q (tq_heap q ! 0)) \<le> now_ns);
          Some (of_nat (length rs), Some q, map_option (\<lambda>_. more) has_more_due, rs)
        })"

section \<open>Keys and positions\<close>

definition tkey :: "tr_timer_queue \<Rightarrow> u32 \<Rightarrow> u64 \<times> u32" where
  "tkey q s = (te_deadline_ns (tq_entry q s), s)"

definition hkey :: "tr_timer_queue \<Rightarrow> nat \<Rightarrow> u64 \<times> u32" where
  "hkey q i = tkey q (tq_heap q ! i)"

lemma tr_timer_before_key: "tr_timer_before q a b \<longleftrightarrow> tkey q a < tkey q b"
  by (auto simp: tr_timer_before_def tkey_def less_prod_def Let_def)

definition armed_slots :: "tr_timer_queue \<Rightarrow> u32 set" where
  "armed_slots q = (\<lambda>i. tq_heap q ! i) ` {..<unat (tq_size q)}"

text \<open>Lengths of the arrays, and the back pointer of every heap position.\<close>

definition arrays_ok :: "tr_timer_queue \<Rightarrow> bool" where
  "arrays_ok q \<longleftrightarrow> length (tq_entries q) = unat (tq_capacity q) \<and> length (tq_heap q) = unat (tq_capacity q) \<and>
     unat (tq_size q) \<le> unat (tq_capacity q) \<and> unat (tq_capacity q) < 2 ^ 31"

definition pos_ok :: "tr_timer_queue \<Rightarrow> bool" where
  "pos_ok q \<longleftrightarrow> arrays_ok q \<and> (\<forall>i<unat (tq_size q). unat (tq_heap q ! i) < unat (tq_capacity q) \<and>
     te_link (tq_entry q (tq_heap q ! i)) = of_nat i)"

text \<open>Two queues that differ only in the arrangement of the heap.\<close>

definition rearranged :: "tr_timer_queue \<Rightarrow> tr_timer_queue \<Rightarrow> bool" where
  "rearranged q q' \<longleftrightarrow> tq_size q' = tq_size q \<and> tq_capacity q' = tq_capacity q \<and> tq_free_head q' = tq_free_head q \<and>
     length (tq_entries q') = length (tq_entries q) \<and> length (tq_heap q') = length (tq_heap q) \<and>
     armed_slots q' = armed_slots q \<and>
     (\<forall>s. (tq_entry q' s)\<lparr>te_link := 0\<rparr> = (tq_entry q s)\<lparr>te_link := 0\<rparr>) \<and>
     (\<forall>s. s \<notin> armed_slots q \<longrightarrow> tq_entry q' s = tq_entry q s)"

lemma rearranged_refl [simp]: "rearranged q q"
  by (simp add: rearranged_def)

lemma rearranged_trans: "rearranged q r \<Longrightarrow> rearranged r t \<Longrightarrow> rearranged q t"
  by (simp add: rearranged_def)

lemma link_only_fields:
  assumes "e'\<lparr>te_link := 0\<rparr> = e\<lparr>te_link := 0\<rparr>"
  shows "te_generation e' = te_generation e" "te_deadline_ns e' = te_deadline_ns e" "te_version e' = te_version e"
    "te_callback e' = te_callback e" "te_arg e' = te_arg e" "te_used e' = te_used e" "te_running e' = te_running e"
  using assms by (metis tr_timer_entry.select_convs tr_timer_entry.surjective tr_timer_entry.update_convs(2))+

lemma rearranged_fields:
  assumes "rearranged q q'"
  shows "te_generation (tq_entry q' s) = te_generation (tq_entry q s)"
    "te_deadline_ns (tq_entry q' s) = te_deadline_ns (tq_entry q s)"
    "te_version (tq_entry q' s) = te_version (tq_entry q s)" "te_callback (tq_entry q' s) = te_callback (tq_entry q s)"
    "te_arg (tq_entry q' s) = te_arg (tq_entry q s)" "te_used (tq_entry q' s) = te_used (tq_entry q s)"
    "te_running (tq_entry q' s) = te_running (tq_entry q s)"
  using assms link_only_fields [of "tq_entry q' s" "tq_entry q s"] by (simp_all add: rearranged_def)

lemma rearranged_tkey: "rearranged q q' \<Longrightarrow> tkey q' s = tkey q s"
  by (simp add: tkey_def rearranged_fields)

section \<open>Exchanging two heap positions\<close>

lemma tq_entry_set_entry:
  "unat s < length (tq_entries q) \<Longrightarrow> tq_entry (tq_set_entry s e q) t = (if t = s then e else tq_entry q t)"
  by (auto simp: tq_entry_def tq_set_entry_def nth_list_update word_unat_eq_iff)

lemma tq_entry_heap_update [simp]: "tq_entry (q\<lparr>tq_heap := h\<rparr>) s = tq_entry q s"
  "tq_entry (q\<lparr>tq_size := n\<rparr>) s = tq_entry q s" "tq_entry (q\<lparr>tq_free_head := f\<rparr>) s = tq_entry q s"
  by (simp_all add: tq_entry_def)

lemma tq_set_entry_fields [simp]:
  "tq_heap (tq_set_entry s e q) = tq_heap q" "tq_size (tq_set_entry s e q) = tq_size q"
  "tq_capacity (tq_set_entry s e q) = tq_capacity q" "tq_free_head (tq_set_entry s e q) = tq_free_head q"
  "length (tq_entries (tq_set_entry s e q)) = length (tq_entries q)"
  by (simp_all add: tq_set_entry_def)

lemma tq_set_link_fields [simp]:
  "tq_heap (tq_set_link s l q) = tq_heap q" "tq_size (tq_set_link s l q) = tq_size q"
  "tq_capacity (tq_set_link s l q) = tq_capacity q" "tq_free_head (tq_set_link s l q) = tq_free_head q"
  "length (tq_entries (tq_set_link s l q)) = length (tq_entries q)"
  by (simp_all add: tq_set_link_def)

lemma tq_entry_set_link:
  "unat s < length (tq_entries q) \<Longrightarrow>
     tq_entry (tq_set_link s l q) t = (if t = s then (tq_entry q s)\<lparr>te_link := l\<rparr> else tq_entry q t)"
  by (simp add: tq_set_link_def tq_entry_set_entry)

lemma pos_ok_inj:
  assumes "pos_ok q" and "i < unat (tq_size q)" and "j < unat (tq_size q)" and "tq_heap q ! i = tq_heap q ! j"
  shows "i = j"
proof -
  have "(of_nat i :: u32) = of_nat j" using assms by (metis pos_ok_def)
  moreover have "i < 2 ^ 32" "j < 2 ^ 32" using assms unat_lt_2p [of "tq_size q"] by simp_all
  ultimately show ?thesis by (simp add: word_unat_eq_iff unat_of_nat)
qed

lemma heap_swap_effect:
  assumes "pos_ok q" and "unat a < unat (tq_size q)" and "unat b < unat (tq_size q)" and "a \<noteq> b"
  defines "q' \<equiv> tr_timer_heap_swap q a b"
  shows "pos_ok q'" and "rearranged q q'" and "hkey q' = exchange (hkey q) (unat a) (unat b)"
    and "tq_heap q' = (tq_heap q)[unat a := tq_heap q ! unat b, unat b := tq_heap q ! unat a]"
proof -
  let ?A = "unat a" and ?B = "unat b" and ?h = "tq_heap q"
  let ?sa = "?h ! ?A" and ?sb = "?h ! ?B"
  have AB: "?A \<noteq> ?B" using assms(4) by (simp add: word_unat_eq_iff)
  have len: "?A < length ?h" "?B < length ?h" "unat ?sa < length (tq_entries q)" "unat ?sb < length (tq_entries q)"
    using assms(1-3) by (auto simp: pos_ok_def arrays_ok_def)
  have s: "?sa \<noteq> ?sb" using pos_ok_inj [OF assms(1-3)] AB by blast
  show heap: "tq_heap q' = ?h[?A := ?sb, ?B := ?sa]"
    by (simp add: q'_def tr_timer_heap_swap_def Let_def)
  have entry: "tq_entry q' t = (if t = ?sb then (tq_entry q t)\<lparr>te_link := a\<rparr>
      else if t = ?sa then (tq_entry q t)\<lparr>te_link := b\<rparr> else tq_entry q t)" for t
    using len AB s by (simp add: q'_def tr_timer_heap_swap_def Let_def tq_entry_set_link)
  have f: "tq_size q' = tq_size q" "tq_capacity q' = tq_capacity q" "tq_free_head q' = tq_free_head q"
    "length (tq_entries q') = length (tq_entries q)" "length (tq_heap q') = length ?h"
    by (simp_all add: q'_def tr_timer_heap_swap_def Let_def)
  have nth: "tq_heap q' ! i = (if i = ?B then ?sa else if i = ?A then ?sb else ?h ! i)" for i
    using len AB by (auto simp: heap nth_list_update)
  show "pos_ok q'"
  proof -
    have "te_link (tq_entry q' (tq_heap q' ! i)) = of_nat i" "unat (tq_heap q' ! i) < unat (tq_capacity q)"
      if "i < unat (tq_size q)" for i
      using that assms(1-3) s pos_ok_inj [OF assms(1)] by (auto simp: nth entry pos_ok_def)
    then show ?thesis using assms(1) f by (simp add: pos_ok_def arrays_ok_def)
  qed
  show "hkey q' = exchange (hkey q) ?A ?B"
    by (rule ext) (auto simp: hkey_def tkey_def exchange_def nth entry)
  have "armed_slots q' = armed_slots q"
  proof -
    have "(\<lambda>i. tq_heap q' ! i) ` {..<unat (tq_size q)} = (\<lambda>i. ?h ! i) ` {..<unat (tq_size q)}"
    proof (intro subset_antisym image_subsetI)
      fix i assume "i \<in> {..<unat (tq_size q)}"
      then show "tq_heap q' ! i \<in> (\<lambda>i. ?h ! i) ` {..<unat (tq_size q)}"
        using assms(2,3) by (auto simp: nth)
    next
      fix i assume i: "i \<in> {..<unat (tq_size q)}"
      have eq: "?h ! i = tq_heap q' ! (if i = ?A then ?B else if i = ?B then ?A else i)" using AB by (simp add: nth)
      show "?h ! i \<in> (\<lambda>i. tq_heap q' ! i) ` {..<unat (tq_size q)}"
        by (subst eq, rule imageI) (use i assms(2,3) in auto)
    qed
    then show ?thesis by (simp add: armed_slots_def f)
  qed
  then show "rearranged q q'"
    using f entry assms(2,3) by (auto simp: rearranged_def armed_slots_def)
qed

section \<open>Sifting\<close>

lemma heap_up_effect:
  assumes "pos_ok q" and "unat pos < unat (tq_size q)" and "except_up (hkey q) (unat (tq_size q)) (unat pos)"
  shows "pos_ok (tr_timer_heap_up q pos) \<and> rearranged q (tr_timer_heap_up q pos) \<and>
    heap_ok (hkey (tr_timer_heap_up q pos)) (unat (tq_size q))"
  using assms
proof (induction q pos rule: tr_timer_heap_up.induct)
  case (1 q pos)
  let ?par = "(pos - 1) div 2"
  show ?case
  proof (cases "pos = 0 \<or> \<not> tkey q (tq_heap q ! unat pos) < tkey q (tq_heap q ! unat ?par)")
    case True
    then have "tr_timer_heap_up q pos = q"
      by (auto simp: tr_timer_heap_up.simps [of q] tr_timer_before_key Let_def)
    moreover have "unat pos = 0 \<or> \<not> hkey q (unat pos) < hkey q (parent (unat pos))"
      using True unat_parent [of pos] by (cases "pos = 0") (auto simp: hkey_def)
    ultimately show ?thesis using 1(2,4) except_up_done by auto
  next
    case False
    then have p0: "pos \<noteq> 0" and lt: "hkey q (unat pos) < hkey q (parent (unat pos))"
      using unat_parent [of pos] by (auto simp: hkey_def)
    have p1: "0 < unat pos" using p0 by (simp add: word_neq_0_unat)
    have up: "unat ?par = parent (unat pos)" by (rule unat_parent [OF p0])
    have ne: "pos \<noteq> ?par" using up parent_less [OF p1] by (auto simp: word_unat_eq_iff)
    have small: "unat ?par < unat (tq_size q)" using up parent_less [OF p1] 1(3) by simp
    note sw = heap_swap_effect [OF 1(2) 1(3) small ne]
    let ?q = "tr_timer_heap_swap q pos ?par"
    have sz: "tq_size ?q = tq_size q" using sw(2) by (simp add: rearranged_def)
    have eu: "except_up (hkey ?q) (unat (tq_size ?q)) (unat ?par)"
      unfolding sw(3) sz up using 1(4) p1 1(3) lt by (rule except_up_step)
    have step: "tr_timer_heap_up q pos = tr_timer_heap_up ?q ?par"
      using False p0 by (simp add: tr_timer_heap_up.simps [of q] tr_timer_before_key Let_def)
    have "pos_ok (tr_timer_heap_up ?q ?par) \<and> rearranged ?q (tr_timer_heap_up ?q ?par) \<and>
        heap_ok (hkey (tr_timer_heap_up ?q ?par)) (unat (tq_size ?q))"
      using False p0 small eu sw(1) sz by (intro 1(1)) (auto simp: tr_timer_before_key)
    then show ?thesis unfolding step using rearranged_trans [OF sw(2)] sz by auto
  qed
qed

lemma heap_up_still:
  "\<not> (pos \<noteq> 0 \<and> hkey q (unat pos) < hkey q (parent (unat pos))) \<Longrightarrow> tr_timer_heap_up q pos = q"
  using unat_parent [of pos]
  by (cases "pos = 0") (auto simp: tr_timer_heap_up.simps [of q] tr_timer_before_key Let_def hkey_def)

lemma child_indices:
  assumes "unat (pos :: u32) < 2 ^ 31 - 1"
  shows "unat (pos * 2 + 1) = 2 * unat pos + 1" and "unat (pos * 2 + 1 + 1) = 2 * unat pos + 2"
proof -
  have d: "unat (pos * 2) = 2 * unat pos" using assms by (simp add: unat_word_ariths)
  then show l: "unat (pos * 2 + 1) = 2 * unat pos + 1" using assms by (subst unat_add_less) simp_all
  then show "unat (pos * 2 + 1 + 1) = 2 * unat pos + 2" using assms by (subst unat_add_less) simp_all
qed

lemma best_child_cases:
  assumes "arrays_ok q" and "unat pos < unat (tq_size q)"
  obtains (leaf) "tq_best_child q pos = pos"
      "\<And>i. i < unat (tq_size q) \<Longrightarrow> 0 < i \<Longrightarrow> parent i = unat pos \<Longrightarrow> hkey q (unat pos) \<le> hkey q i"
  | (child) b where "b = tq_best_child q pos" "unat b < unat (tq_size q)" "0 < unat b" "parent (unat b) = unat pos"
      "hkey q (unat b) < hkey q (unat pos)"
      "\<And>i. i < unat (tq_size q) \<Longrightarrow> 0 < i \<Longrightarrow> parent i = unat pos \<Longrightarrow> hkey q (unat b) \<le> hkey q i"
proof -
  have "unat pos < 2 ^ 31 - 1" using assms by (simp add: arrays_ok_def)
  note ch = child_indices [OF this]
  define l where "l = pos * 2 + 1"
  define r where "r = l + 1"
  note ch = ch [folded l_def, folded r_def]
  let ?n = "unat (tq_size q)" and ?p = "unat pos"
  let ?l = "2 * ?p + 1" and ?r = "2 * ?p + 2"
  define b1 where "b1 = (if ?l < ?n \<and> hkey q ?l < hkey q ?p then l else pos)"
  define b where "b = (if ?r < ?n \<and> hkey q ?r < hkey q (unat b1) then r else b1)"
  have best: "tq_best_child q pos = b"
    unfolding tq_best_child_def Let_def b_def b1_def tr_timer_before_key hkey_def word_less_nat_alt
      l_def [symmetric] r_def [symmetric] ch
    by (rule refl)
  have kids: "i = ?l \<or> i = ?r" if "0 < i" "parent i = ?p" for i using that by (simp add: parent_children)
  have pl: "parent ?l = ?p" "parent ?r = ?p" by (simp_all add: parent_children)
  have le1: "hkey q (unat b1) \<le> hkey q ?p" and le1l: "?l < ?n \<Longrightarrow> hkey q (unat b1) \<le> hkey q ?l"
    by (auto simp: b1_def ch)
  have le: "hkey q (unat b) \<le> hkey q (unat b1)" and ler: "?r < ?n \<Longrightarrow> hkey q (unat b) \<le> hkey q ?r"
    by (auto simp: b_def ch)
  have small: "hkey q (unat b) \<le> hkey q i" if "i < ?n" "0 < i" "parent i = ?p" for i
    using kids [OF that(2,3)]
  proof
    assume "i = ?l"
    then show ?thesis using le le1l that(1) by (meson order_trans)
  next
    assume "i = ?r"
    then show ?thesis using ler that(1) by simp
  qed
  show thesis
  proof (cases "b = pos")
    case True
    then show thesis using leaf best small by simp
  next
    case False
    have "unat b < ?n \<and> 0 < unat b \<and> parent (unat b) = ?p \<and> hkey q (unat b) < hkey q ?p"
    proof (cases "?r < ?n \<and> hkey q ?r < hkey q (unat b1)")
      case True
      then have b: "b = r" unfolding b_def by (rule if_P)
      show ?thesis using conjunct1 [OF True] pl(2) order.strict_trans2 [OF conjunct2 [OF True] le1]
        unfolding b ch by simp
    next
      case False
      then have "b = b1" unfolding b_def by (rule if_not_P)
      then show ?thesis using \<open>b \<noteq> pos\<close> ch pl(1) by (auto simp: b1_def split: if_splits)
    qed
    then show thesis using child [of b] best small by blast
  qed
qed

lemma heap_down_effect:
  assumes "pos_ok q" and "unat pos < unat (tq_size q)" and "except_down (hkey q) (unat (tq_size q)) (unat pos)"
  shows "\<exists>q'. tr_timer_heap_down q pos = Some q' \<and> pos_ok q' \<and> rearranged q q' \<and>
    heap_ok (hkey q') (unat (tq_size q))"
  using assms
proof (induction "unat (tq_size q) - unat pos" arbitrary: q pos rule: less_induct)
  case less
  have arr: "arrays_ok q" using less.prems(1) by (simp add: pos_ok_def)
  from arr less.prems(2) show ?case
  proof (cases rule: best_child_cases)
    case leaf
    then have "tr_timer_heap_down q pos = Some q" by (simp add: tr_timer_heap_down.simps)
    moreover have "heap_ok (hkey q) (unat (tq_size q))"
      using less.prems(3) leaf(2) by (rule except_down_done)
    ultimately show ?thesis using less.prems(1) by simp
  next
    case (child b)
    have lt: "unat pos < unat b" using parent_less [OF child(3)] child(4) by simp
    then have ne: "pos \<noteq> b" by auto
    note sw = heap_swap_effect [OF less.prems(1,2) child(2) ne]
    let ?q = "tr_timer_heap_swap q pos b"
    have sz: "tq_size ?q = tq_size q" using sw(2) by (simp add: rearranged_def)
    have "except_down (hkey ?q) (unat (tq_size ?q)) (unat b)"
      unfolding sw(3) sz using less.prems(3,2) child(2-6) by (rule except_down_step)
    then have "\<exists>q'. tr_timer_heap_down ?q b = Some q' \<and> pos_ok q' \<and> rearranged ?q q' \<and>
        heap_ok (hkey q') (unat (tq_size ?q))"
      using child(2) lt sw(1) sz by (intro less.hyps) auto
    moreover have "tr_timer_heap_down q pos = tr_timer_heap_down ?q b"
      using ne child(1) by (simp add: tr_timer_heap_down.simps [of q] Let_def)
    ultimately show ?thesis using rearranged_trans [OF sw(2)] sz by auto
  qed
qed

text \<open>With \<open>2 ^ 31\<close> armed timers the right child of the last leaf is computed as position 0: the sift
  exchanges the leaf with the root.\<close>

lemma heap_down_index_wraps:
  assumes "tq_size q = 2 ^ 31" and "pos = 2 ^ 31 - 1" and "tkey q (tq_heap q ! 0) < tkey q (tq_heap q ! unat pos)"
  shows "tq_best_child q pos = 0"
proof -
  have "pos * 2 + 1 = UINT32_MAX" "pos * 2 + 1 + 1 = 0" using assms(2) by simp_all
  then show ?thesis
    unfolding tq_best_child_def Let_def tr_timer_before_key using assms(1,3) by (simp add: word_less_nat_alt)
qed

section \<open>The heap under the operations\<close>

text \<open>Writing an entry that is not armed does not touch the heap.\<close>

definition timer_heap :: "tr_timer_queue \<Rightarrow> bool" where
  "timer_heap q \<longleftrightarrow> pos_ok q \<and> heap_ok (hkey q) (unat (tq_size q))"

lemma armed_slots_set_entry [simp]: "armed_slots (tq_set_entry s e q) = armed_slots q"
  "armed_slots (tq_set_link s l q) = armed_slots q" "armed_slots (q\<lparr>tq_free_head := h\<rparr>) = armed_slots q"
  by (simp_all add: armed_slots_def)

lemma armed_slot_bound: "pos_ok q \<Longrightarrow> s \<in> armed_slots q \<Longrightarrow> unat s < unat (tq_capacity q)"
  by (auto simp: armed_slots_def pos_ok_def)

lemma armed_position:
  assumes "pos_ok q" and "s \<in> armed_slots q"
  shows "unat (te_link (tq_entry q s)) < unat (tq_size q)" and "tq_heap q ! unat (te_link (tq_entry q s)) = s"
proof -
  obtain i where i: "i < unat (tq_size q)" "s = tq_heap q ! i" using assms(2) by (auto simp: armed_slots_def)
  then have l: "te_link (tq_entry q s) = of_nat i" using assms(1) by (simp add: pos_ok_def)
  have "i < 2 ^ 32" using i(1) unat_lt_2p [of "tq_size q"] by simp
  then have "unat (te_link (tq_entry q s)) = i" using l by (simp add: unat_of_nat)
  then show "unat (te_link (tq_entry q s)) < unat (tq_size q)" "tq_heap q ! unat (te_link (tq_entry q s)) = s"
    using i by simp_all
qed

lemma set_unarmed:
  assumes "pos_ok q" and "unat s < unat (tq_capacity q)" and "s \<notin> armed_slots q"
  shows "pos_ok (tq_set_entry s e q)" and "heap_ok (hkey (tq_set_entry s e q)) (unat (tq_size q)) \<longleftrightarrow> heap_ok (hkey q) (unat (tq_size q))"
proof -
  have len: "unat s < length (tq_entries q)" using assms by (simp add: pos_ok_def arrays_ok_def)
  have same: "tq_entry (tq_set_entry s e q) (tq_heap q ! i) = tq_entry q (tq_heap q ! i)"
    if "i < unat (tq_size q)" for i
    using that assms(3) len by (auto simp: tq_entry_set_entry armed_slots_def)
  then show "pos_ok (tq_set_entry s e q)" using assms(1) by (simp add: pos_ok_def arrays_ok_def)
  show "heap_ok (hkey (tq_set_entry s e q)) (unat (tq_size q)) \<longleftrightarrow> heap_ok (hkey q) (unat (tq_size q))"
    by (rule heap_ok_cong) (simp add: hkey_def tkey_def same)
qed

lemma unarmed_room:
  assumes "pos_ok q" and "unat s < unat (tq_capacity q)" and "s \<notin> armed_slots q"
  shows "unat (tq_size q) < unat (tq_capacity q)"
proof -
  have inj: "inj_on (\<lambda>i. unat (tq_heap q ! i)) {..<unat (tq_size q)}"
    using pos_ok_inj [OF assms(1)] by (auto simp: inj_on_def word_unat_eq_iff [symmetric])
  have "(\<lambda>i. unat (tq_heap q ! i)) ` {..<unat (tq_size q)} \<subseteq> {..<unat (tq_capacity q)} - {unat s}"
    using assms by (auto simp: pos_ok_def armed_slots_def word_unat_eq_iff [symmetric])
  then have "card ((\<lambda>i. unat (tq_heap q ! i)) ` {..<unat (tq_size q)}) \<le> card ({..<unat (tq_capacity q)} - {unat s})"
    by (intro card_mono) auto
  then show ?thesis using assms(2) by (simp add: card_image [OF inj])
qed

text \<open>What the removal of slot \<open>s\<close> from the heap does: the other armed slots stay armed, only links change.\<close>

definition without_slot :: "tr_timer_queue \<Rightarrow> u32 \<Rightarrow> tr_timer_queue \<Rightarrow> bool" where
  "without_slot q s q' \<longleftrightarrow> timer_heap q' \<and> tq_capacity q' = tq_capacity q \<and> tq_free_head q' = tq_free_head q \<and>
     armed_slots q' = armed_slots q - {s} \<and>
     (\<forall>t. (tq_entry q' t)\<lparr>te_link := 0\<rparr> = (tq_entry q t)\<lparr>te_link := 0\<rparr>) \<and>
     (\<forall>t. t \<notin> armed_slots q \<longrightarrow> tq_entry q' t = tq_entry q t)"

definition disarmed :: "tr_timer_queue \<Rightarrow> u32 \<Rightarrow> tr_timer_queue \<Rightarrow> bool" where
  "disarmed q s q' \<longleftrightarrow> without_slot q s q' \<and> te_link (tq_entry q' s) = TR_TIMER_HEAP_NONE"

lemma resift:
  assumes "pos_ok q" and "unat pos < unat (tq_size q)" and "except_both (hkey q) (unat (tq_size q)) (unat pos)"
    and "tq_heap q ! unat pos = s"
  shows "\<exists>q'. tr_timer_heap_down (tr_timer_heap_up q pos) (te_link (tq_entry (tr_timer_heap_up q pos) s)) = Some q' \<and>
    pos_ok q' \<and> rearranged q q' \<and> heap_ok (hkey q') (unat (tq_size q))"
proof (cases "0 < unat pos \<and> hkey q (unat pos) < hkey q (parent (unat pos))")
  case True
  let ?q = "tr_timer_heap_up q pos"
  have "except_up (hkey q) (unat (tq_size q)) (unat pos)"
    using except_both_cases [OF assms(3,2)] True by (simp only: if_True)
  note up = heap_up_effect [OF assms(1,2) this]
  have sz: "tq_size ?q = tq_size q" using up by (simp add: rearranged_def)
  have "s \<in> armed_slots ?q" using up assms(2,4) by (auto simp: rearranged_def armed_slots_def)
  then have l: "unat (te_link (tq_entry ?q s)) < unat (tq_size ?q)" using up armed_position(1) by blast
  have "except_down (hkey ?q) (unat (tq_size ?q)) (unat (te_link (tq_entry ?q s)))"
    using up l sz by (intro heap_ok_except_down) simp_all
  from heap_down_effect [OF conjunct1 [OF up] l this] show ?thesis using up rearranged_trans sz by metis
next
  case False
  have "except_down (hkey q) (unat (tq_size q)) (unat pos)"
    using except_both_cases [OF assms(3,2)] False by (simp only: if_False)
  note down = heap_down_effect [OF assms(1,2) this]
  have up: "tr_timer_heap_up q pos = q" using False by (intro heap_up_still) (auto simp: word_neq_0_unat)
  have "te_link (tq_entry q s) = pos" using assms(1,2,4) by (auto simp: pos_ok_def)
  then show ?thesis using down up by simp
qed

lemma armed_slots_nth: "i < unat (tq_size q) \<Longrightarrow> tq_heap q ! i \<in> armed_slots q"
  by (simp add: armed_slots_def)

lemma remove_last:
  assumes "pos_ok q" and "unat (tq_size q) = Suc p" and "heap_ok ((hkey q)(p := k)) (Suc p)"
    and "tq_heap q ! p = s" and "unat n = p"
  shows "without_slot q s (q\<lparr>tq_size := n\<rparr>)" (is "without_slot q s ?q")
proof -
  have hk: "hkey ?q = hkey q" by (simp add: hkey_def tkey_def fun_eq_iff)
  have "heap_ok (hkey ?q) p \<longleftrightarrow> heap_ok ((hkey q)(p := k)) p"
    unfolding hk by (rule heap_ok_cong) simp
  then have ok: "heap_ok (hkey ?q) p" using heap_ok_shrink [OF assms(3), of p] by simp
  have "tq_heap q ! i \<noteq> s" if "i < p" for i using pos_ok_inj [OF assms(1), of i p] that assms(2,4) by auto
  then have "armed_slots ?q = armed_slots q - {s}"
    using assms(2,4,5) by (auto simp: armed_slots_def lessThan_Suc)
  then show ?thesis using assms(1,2,5) ok by (simp add: without_slot_def timer_heap_def pos_ok_def arrays_ok_def)
qed

lemma replace_by_last:
  assumes "pos_ok q" and "unat (tq_size q) = Suc m" and "unat pos < m" and "tq_heap q ! unat pos = s"
    and "heap_ok ((hkey q)(unat pos := k)) (Suc m)" and "unat n = m" and "l = tq_heap q ! m"
  defines "q1 \<equiv> tq_set_link l pos (q\<lparr>tq_size := n, tq_heap := (tq_heap q)[unat pos := l]\<rparr>)"
  shows "pos_ok q1" and "except_both (hkey q1) m (unat pos)" and "armed_slots q1 = armed_slots q - {s}"
    and "\<And>t. (tq_entry q1 t)\<lparr>te_link := 0\<rparr> = (tq_entry q t)\<lparr>te_link := 0\<rparr>"
    and "\<And>t. t \<notin> armed_slots q \<Longrightarrow> tq_entry q1 t = tq_entry q t"
proof -
  let ?p = "unat pos"
  have len: "unat l < length (tq_entries q)" "?p < length (tq_heap q)" and larm: "l \<in> armed_slots q"
    using assms(1-3,7) by (auto simp: pos_ok_def arrays_ok_def armed_slots_def)
  have entry: "tq_entry q1 t = (if t = l then (tq_entry q l)\<lparr>te_link := pos\<rparr> else tq_entry q t)" for t
    using len by (simp add: q1_def tq_entry_set_link)
  have nth: "tq_heap q1 ! i = (if i = ?p then l else tq_heap q ! i)" for i
    using len by (simp add: q1_def nth_list_update)
  have ne: "tq_heap q ! i \<noteq> l" if "i < m" for i
    using pos_ok_inj [OF assms(1), of i m] that assms(2,7) by auto
  have ns: "tq_heap q ! i \<noteq> s" if "i < Suc m" "i \<noteq> ?p" for i
    using pos_ok_inj [OF assms(1), of i ?p] that assms(2-4) by auto
  have f: "tq_size q1 = n" "tq_capacity q1 = tq_capacity q" "length (tq_entries q1) = length (tq_entries q)"
    "length (tq_heap q1) = length (tq_heap q)" by (simp_all add: q1_def)
  have "te_link (tq_entry q1 (tq_heap q1 ! i)) = of_nat i \<and> unat (tq_heap q1 ! i) < unat (tq_capacity q)"
    if "i < m" for i
    using that assms(1-3) ne [OF that] len by (auto simp: nth entry pos_ok_def arrays_ok_def)
  then show "pos_ok q1" using assms(1,2,6) f by (simp add: pos_ok_def arrays_ok_def)
  have hk: "hkey q1 = ((hkey q)(?p := k)) (?p := tkey q l)"
    by (rule ext) (simp add: hkey_def tkey_def nth entry)
  have "heap_ok ((hkey q)(?p := k)) m" using assms(5) by (rule heap_ok_shrink) simp
  then show "except_both (hkey q1) m ?p" unfolding hk using assms(3) by (rule heap_ok_replace)
  show "armed_slots q1 = armed_slots q - {s}"
  proof (intro subset_antisym subsetI)
    fix t assume "t \<in> armed_slots q1"
    then obtain i where i: "i < m" "t = tq_heap q1 ! i" using f assms(6) by (auto simp: armed_slots_def)
    then show "t \<in> armed_slots q - {s}"
      using ns [of i] ns [of m] larm assms(2,3,7) armed_slots_nth [of i q] by (auto simp: nth)
  next
    fix t assume "t \<in> armed_slots q - {s}"
    then obtain i where i: "i < Suc m" "t = tq_heap q ! i" "i \<noteq> ?p" using assms(2,4) by (auto simp: armed_slots_def)
    then have "t = tq_heap q1 ! (if i = m then ?p else i)" "(if i = m then ?p else i) < unat (tq_size q1)"
      using assms(3,6,7) f by (auto simp: nth)
    then show "t \<in> armed_slots q1" using armed_slots_nth by metis
  qed
  show "(tq_entry q1 t)\<lparr>te_link := 0\<rparr> = (tq_entry q t)\<lparr>te_link := 0\<rparr>" for t by (simp add: entry)
  show "t \<notin> armed_slots q \<Longrightarrow> tq_entry q1 t = tq_entry q t" for t using larm by (auto simp: entry)
qed

lemma remove_middle:
  assumes "pos_ok q" and "unat (tq_size q) = Suc m" and "unat pos < m" and "tq_heap q ! unat pos = s"
    and "heap_ok ((hkey q)(unat pos := k)) (Suc m)" and "unat n = m" and "l = tq_heap q ! m"
  defines "q1 \<equiv> tq_set_link l pos (q\<lparr>tq_size := n, tq_heap := (tq_heap q)[unat pos := l]\<rparr>)"
  shows "\<exists>q'. tr_timer_heap_down (tr_timer_heap_up q1 pos) (te_link (tq_entry (tr_timer_heap_up q1 pos) l)) = Some q' \<and>
    without_slot q s q'"
proof -
  note r = replace_by_last [OF assms(1-7), folded q1_def]
  have f: "tq_size q1 = n" "tq_capacity q1 = tq_capacity q" "tq_free_head q1 = tq_free_head q"
    by (simp_all add: q1_def)
  have "unat pos < length (tq_heap q)" using assms(1-3) by (auto simp: pos_ok_def arrays_ok_def)
  then have "tq_heap q1 ! unat pos = l" by (simp add: q1_def)
  then obtain q' where q': "tr_timer_heap_down (tr_timer_heap_up q1 pos) (te_link (tq_entry (tr_timer_heap_up q1 pos) l)) = Some q'"
      "pos_ok q'" "rearranged q1 q'" "heap_ok (hkey q') m"
    using resift [OF r(1), of pos l] r(2) f(1) assms(3,6) by auto
  have "tq_entry q' t = tq_entry q t" if "t \<notin> armed_slots q" for t
    using that q'(3) r(3,5) by (simp add: rearranged_def)
  then have "without_slot q s q'"
    using q'(2-4) r(3,4) f assms(6) by (simp add: without_slot_def timer_heap_def rearranged_def)
  then show ?thesis using q'(1) by blast
qed

lemma heap_remove_effect:
  assumes "pos_ok q" and "unat pos < unat (tq_size q)" and "heap_ok ((hkey q)(unat pos := k)) (unat (tq_size q))"
    and "tq_heap q ! unat pos = s"
  shows "\<exists>q'. tr_timer_heap_remove q pos = Some q' \<and> disarmed q s q'"
proof -
  define n where "n = tq_size q - 1"
  define m where "m = unat n"
  have n: "unat (tq_size q) = Suc m" using assms(2) by (simp add: m_def n_def unat_sub_le word_le_nat_alt)
  note k = assms(3) [unfolded n]
  obtain q2 where q2: "(if pos \<noteq> n then
            let last_slot = tq_heap q ! m;
                q = q\<lparr>tq_size := n, tq_heap := (tq_heap q)[unat pos := last_slot]\<rparr>;
                q = tq_set_link last_slot pos q;
                q = tr_timer_heap_up q pos
            in tr_timer_heap_down q (te_link (tq_entry q last_slot))
          else Some (q\<lparr>tq_size := n\<rparr>)) = Some q2" and w: "without_slot q s q2"
  proof (cases "pos = n")
    case True
    then have p: "unat pos = m" by (simp add: m_def)
    have "without_slot q s (q\<lparr>tq_size := n\<rparr>)"
      by (rule remove_last [OF assms(1) n k [unfolded p] assms(4) [unfolded p] m_def [symmetric]])
    then show ?thesis using that True by simp
  next
    case False
    then have "unat pos < m" using assms(2) n by (auto simp: m_def word_unat_eq_iff)
    from remove_middle [OF assms(1) n this assms(4) k m_def [symmetric] refl] show ?thesis
      using that False by (auto simp: Let_def)
  qed
  have len: "unat s < length (tq_entries q2)" and cap: "unat s < unat (tq_capacity q2)" "s \<notin> armed_slots q2" "pos_ok q2"
    using w assms(1,2,4) by (auto simp: without_slot_def timer_heap_def pos_ok_def arrays_ok_def)
  have "tr_timer_heap_remove q pos = Some (tq_set_link s TR_TIMER_HEAP_NONE q2)"
  proof (cases "pos = n")
    case True
    then have e: "q2 = q\<lparr>tq_size := n\<rparr>" using q2 by simp
    show ?thesis unfolding tr_timer_heap_remove_def e using assms(2,4) True
      by (simp add: word_le_nat_alt Let_def n_def [symmetric])
  next
    case False
    then show ?thesis using assms(2,4) q2 unfolding tr_timer_heap_remove_def
      by (simp add: word_le_nat_alt Let_def n_def [symmetric] m_def [symmetric])
  qed
  moreover have "s \<in> armed_slots q" using assms(2,4) armed_slots_nth by blast
  then have "disarmed q s (tq_set_link s TR_TIMER_HEAP_NONE q2)"
    using w set_unarmed [OF cap(3,1,2)] len
    by (auto simp: disarmed_def without_slot_def timer_heap_def tq_set_link_def tq_entry_set_entry)
  ultimately show ?thesis by blast
qed

end
