(* ===== verification/Tr_Timer_Inv.thy ===== *)
theory Tr_Timer_Inv
  imports Tr_Timer_Queue
begin

text \<open>
  The invariant of the timer queue and what its operations do to it: heap order, back pointers, the free
  list, and the agreement of the entries with the heap. The operations implement a map from slots to
  generations and deadlines; the next deadline is its minimum; stale tokens are refused; running due
  timers ends, runs only timers that are due, earliest first, and reports exactly whether due timers
  remain.
\<close>

section \<open>The invariant\<close>

text \<open>The free list: a chain of links from the head to the end marker, through exactly the unused slots.\<close>

fun free_chain :: "(u32 \<Rightarrow> u32) \<Rightarrow> u32 \<Rightarrow> u32 list \<Rightarrow> bool" where
  "free_chain nx h [] \<longleftrightarrow> h = TR_TIMER_HEAP_NONE"
| "free_chain nx h (s # ss) \<longleftrightarrow> h = s \<and> free_chain nx (nx s) ss"

definition free_slots :: "tr_timer_queue \<Rightarrow> u32 set" where
  "free_slots q = {s. unat s < unat (tq_capacity q) \<and> \<not> te_used (tq_entry q s)}"

definition free_ok :: "tr_timer_queue \<Rightarrow> bool" where
  "free_ok q \<longleftrightarrow> (\<exists>fs. free_chain (\<lambda>s. te_link (tq_entry q s)) (tq_free_head q) fs \<and> distinct fs \<and> set fs = free_slots q)"

text \<open>The entries agree with the heap, the slots of \<open>X\<close> apart: an armed slot is in use and has a deadline, a
  slot in use that is not armed has none and no heap position.\<close>

definition entries_ok :: "u32 set \<Rightarrow> tr_timer_queue \<Rightarrow> bool" where
  "entries_ok X q \<longleftrightarrow> free_ok q \<and> (\<forall>s\<in>armed_slots q. te_used (tq_entry q s)) \<and>
     (\<forall>s\<in>armed_slots q - X. te_deadline_ns (tq_entry q s) \<noteq> 0) \<and>
     (\<forall>s. unat s < unat (tq_capacity q) \<longrightarrow> te_used (tq_entry q s) \<longrightarrow> s \<notin> armed_slots q \<longrightarrow> s \<notin> X \<longrightarrow>
        te_link (tq_entry q s) = TR_TIMER_HEAP_NONE \<and> te_deadline_ns (tq_entry q s) = 0)"

definition timer_inv :: "tr_timer_queue \<Rightarrow> bool" where
  "timer_inv q \<longleftrightarrow> timer_heap q \<and> entries_ok {} q"

text \<open>The timers of a queue, by slot: the generation and the deadline, 0 for a timer that is not armed.\<close>

definition timers :: "tr_timer_queue \<Rightarrow> u32 \<Rightarrow> (u32 \<times> u64) option" where
  "timers q s =
     (if unat s < unat (tq_capacity q) \<and> te_used (tq_entry q s)
      then Some (te_generation (tq_entry q s), te_deadline_ns (tq_entry q s)) else None)"

lemma free_chain_cong: "(\<And>s. s \<in> set fs \<Longrightarrow> nx s = nx' s) \<Longrightarrow> free_chain nx h fs \<longleftrightarrow> free_chain nx' h fs"
  by (induction fs arbitrary: h) auto

lemma free_ok_keep:
  assumes "free_ok q" and "tq_capacity q' = tq_capacity q" and "tq_free_head q' = tq_free_head q"
    and "\<And>s. te_used (tq_entry q' s) = te_used (tq_entry q s)"
    and "\<And>s. s \<in> free_slots q \<Longrightarrow> te_link (tq_entry q' s) = te_link (tq_entry q s)"
  shows "free_ok q'"
proof -
  obtain fs where fs: "free_chain (\<lambda>s. te_link (tq_entry q s)) (tq_free_head q) fs" "distinct fs" "set fs = free_slots q"
    using assms(1) by (auto simp: free_ok_def)
  have "free_chain (\<lambda>s. te_link (tq_entry q' s)) (tq_free_head q') fs"
    using fs(1) free_chain_cong [of fs "\<lambda>s. te_link (tq_entry q' s)" "\<lambda>s. te_link (tq_entry q s)"] assms(3,5) fs(3)
    by simp
  moreover have "free_slots q' = free_slots q" using assms(2,4) by (simp add: free_slots_def)
  ultimately show ?thesis using fs by (auto simp: free_ok_def)
qed

lemma free_not_armed: "entries_ok X q \<Longrightarrow> s \<in> free_slots q \<Longrightarrow> s \<notin> armed_slots q"
  by (auto simp: entries_ok_def free_slots_def)

lemma rearranged_frame:
  assumes "rearranged q q'"
  shows "tq_size q' = tq_size q" "tq_capacity q' = tq_capacity q" "tq_free_head q' = tq_free_head q"
    "armed_slots q' = armed_slots q" "\<And>s. s \<notin> armed_slots q \<Longrightarrow> tq_entry q' s = tq_entry q s"
  using assms by (simp_all add: rearranged_def)

lemma disarmed_frame:
  assumes "disarmed q s q'"
  shows "timer_heap q'" "tq_capacity q' = tq_capacity q" "tq_free_head q' = tq_free_head q"
    "armed_slots q' = armed_slots q - {s}" "te_link (tq_entry q' s) = TR_TIMER_HEAP_NONE"
    "\<And>t. t \<notin> armed_slots q \<Longrightarrow> tq_entry q' t = tq_entry q t"
  using assms by (simp_all add: disarmed_def without_slot_def)

lemma disarmed_fields:
  assumes "disarmed q s q'"
  shows "te_generation (tq_entry q' t) = te_generation (tq_entry q t)"
    "te_deadline_ns (tq_entry q' t) = te_deadline_ns (tq_entry q t)"
    "te_version (tq_entry q' t) = te_version (tq_entry q t)" "te_callback (tq_entry q' t) = te_callback (tq_entry q t)"
    "te_arg (tq_entry q' t) = te_arg (tq_entry q t)" "te_used (tq_entry q' t) = te_used (tq_entry q t)"
    "te_running (tq_entry q' t) = te_running (tq_entry q t)"
  using assms link_only_fields [of "tq_entry q' t" "tq_entry q t"] by (simp_all add: disarmed_def without_slot_def)

lemma entries_ok_rearranged:
  assumes "entries_ok X q" and "rearranged q q'"
  shows "entries_ok X q'"
proof -
  note r = rearranged_frame [OF assms(2)] and f = rearranged_fields [OF assms(2)]
  have "free_ok q" using assms(1) by (simp add: entries_ok_def)
  then have "free_ok q'"
    using r(2,3) f(6) by (rule free_ok_keep) (simp add: r(5) free_not_armed [OF assms(1)])
  then show ?thesis using assms(1) by (simp add: entries_ok_def r f)
qed

lemma entries_ok_disarmed:
  assumes "entries_ok X q" and "disarmed q s q'" and "s \<in> X \<or> te_deadline_ns (tq_entry q s) = 0"
  shows "entries_ok X q'"
proof -
  note r = disarmed_frame [OF assms(2)] and f = disarmed_fields [OF assms(2)]
  have "free_ok q" using assms(1) by (simp add: entries_ok_def)
  then have "free_ok q'"
    using r(2,3) f(6) by (rule free_ok_keep) (simp add: r(6) free_not_armed [OF assms(1)])
  moreover have "te_link (tq_entry q' t) = TR_TIMER_HEAP_NONE \<and> te_deadline_ns (tq_entry q' t) = 0"
    if "unat t < unat (tq_capacity q)" "te_used (tq_entry q t)" "t \<notin> armed_slots q \<or> t = s" "t \<notin> X" for t
    using that assms(1,3) r(5) by (cases "t = s") (simp_all add: f r(6) entries_ok_def)
  ultimately show ?thesis using assms(1) by (simp add: entries_ok_def r(2,4) f)
qed

lemma timers_rearranged: "rearranged q q' \<Longrightarrow> timers q' = timers q"
  by (simp add: timers_def fun_eq_iff rearranged_fields rearranged_frame)

lemma timers_disarmed: "disarmed q s q' \<Longrightarrow> timers q' = timers q"
  by (simp add: timers_def fun_eq_iff disarmed_fields disarmed_frame)

section \<open>Arming\<close>

lemma store_deadline_fields [simp]:
  "tq_heap (tq_store_deadline s d q) = tq_heap q" "tq_size (tq_store_deadline s d q) = tq_size q"
  "tq_capacity (tq_store_deadline s d q) = tq_capacity q" "tq_free_head (tq_store_deadline s d q) = tq_free_head q"
  "armed_slots (tq_store_deadline s d q) = armed_slots q"
  by (simp_all add: tq_store_deadline_def Let_def)

lemma store_deadline_entry:
  assumes "pos_ok q" and "unat s < unat (tq_capacity q)"
  shows "te_link (tq_entry (tq_store_deadline s d q) t) = te_link (tq_entry q t)"
    "te_used (tq_entry (tq_store_deadline s d q) t) = te_used (tq_entry q t)"
    "te_generation (tq_entry (tq_store_deadline s d q) t) = te_generation (tq_entry q t)"
    "te_deadline_ns (tq_entry (tq_store_deadline s d q) t) = (if t = s then d else te_deadline_ns (tq_entry q t))"
    "pos_ok (tq_store_deadline s d q)"
proof -
  have len: "unat s < length (tq_entries q)" using assms by (simp add: pos_ok_def arrays_ok_def)
  then show e: "te_link (tq_entry (tq_store_deadline s d q) t) = te_link (tq_entry q t)"
    "te_used (tq_entry (tq_store_deadline s d q) t) = te_used (tq_entry q t)"
    "te_generation (tq_entry (tq_store_deadline s d q) t) = te_generation (tq_entry q t)"
    "te_deadline_ns (tq_entry (tq_store_deadline s d q) t) = (if t = s then d else te_deadline_ns (tq_entry q t))" for t
    by (simp_all add: tq_store_deadline_def Let_def tq_entry_set_entry)
  have "length (tq_entries (tq_store_deadline s d q)) = length (tq_entries q)"
    by (simp add: tq_store_deadline_def Let_def)
  then show "pos_ok (tq_store_deadline s d q)" using assms(1) by (simp add: pos_ok_def arrays_ok_def e)
qed

lemma store_deadline_ok:
  assumes "pos_ok q" and "unat s < unat (tq_capacity q)" and "entries_ok {} q" and "te_used (tq_entry q s)"
  shows "entries_ok {s} (tq_store_deadline s d q)"
    and "timers (tq_store_deadline s d q) = (timers q)(s \<mapsto> (te_generation (tq_entry q s), d))"
proof -
  note e = store_deadline_entry [OF assms(1,2), of d]
  have "free_ok q" using assms(3) by (simp add: entries_ok_def)
  then have "free_ok (tq_store_deadline s d q)" by (rule free_ok_keep) (simp_all add: e)
  then show "entries_ok {s} (tq_store_deadline s d q)" using assms(3) by (auto simp: entries_ok_def e)
  show "timers (tq_store_deadline s d q) = (timers q)(s \<mapsto> (te_generation (tq_entry q s), d))"
    using assms(2,4) by (auto simp: timers_def fun_eq_iff e)
qed

lemma store_deadline_hkey:
  assumes "pos_ok q" and "p < unat (tq_size q)" and "tq_heap q ! p = s" and "i < unat (tq_size q)"
  shows "hkey (tq_store_deadline s d q) i = ((hkey q)(p := (d, s))) i"
proof -
  have s: "unat s < unat (tq_capacity q)" using assms(1-3) by (auto simp: pos_ok_def)
  have "tq_heap q ! i = s \<longleftrightarrow> i = p" using pos_ok_inj [OF assms(1,4,2)] assms(3) by auto
  then show ?thesis by (auto simp: hkey_def tkey_def store_deadline_entry [OF assms(1) s])
qed

lemma store_deadline_heap:
  assumes "pos_ok q" and "unat s < unat (tq_capacity q)" and "s \<notin> armed_slots q"
  shows "heap_ok (hkey (tq_store_deadline s d q)) (unat (tq_size q)) \<longleftrightarrow> heap_ok (hkey q) (unat (tq_size q))"
proof (rule heap_ok_cong)
  fix i assume "i < unat (tq_size q)"
  then have "tq_heap q ! i \<noteq> s" using assms(3) armed_slots_nth by blast
  then show "hkey (tq_store_deadline s d q) i = hkey q i"
    by (simp add: hkey_def tkey_def store_deadline_entry [OF assms(1,2)])
qed

text \<open>Completing the exception once the slot has the deadline its heap membership asks for.\<close>

lemma entries_ok_armed:
  "entries_ok {s} q \<Longrightarrow> s \<in> armed_slots q \<Longrightarrow> te_deadline_ns (tq_entry q s) \<noteq> 0 \<Longrightarrow> entries_ok {} q"
  by (auto simp: entries_ok_def)

lemma entries_ok_unarmed:
  "entries_ok {s} q \<Longrightarrow> s \<notin> armed_slots q \<Longrightarrow> te_deadline_ns (tq_entry q s) = 0 \<Longrightarrow>
     te_link (tq_entry q s) = TR_TIMER_HEAP_NONE \<Longrightarrow> entries_ok {} q"
  by (auto simp: entries_ok_def)

lemma append_slot:
  assumes "pos_ok q" and "heap_ok (hkey q) (unat (tq_size q))" and "unat s < unat (tq_capacity q)" and "s \<notin> armed_slots q"
  defines "q1 \<equiv> tq_set_link s (tq_size q) (q\<lparr>tq_size := tq_size q + 1, tq_heap := (tq_heap q)[unat (tq_size q) := s]\<rparr>)"
  shows "pos_ok q1" and "unat (tq_size q) < unat (tq_size q1)"
    and "except_up (hkey q1) (unat (tq_size q1)) (unat (tq_size q))" and "armed_slots q1 = insert s (armed_slots q)"
    and "\<And>t. tq_entry q1 t = (if t = s then (tq_entry q s)\<lparr>te_link := tq_size q\<rparr> else tq_entry q t)"
    and "tq_capacity q1 = tq_capacity q" and "tq_free_head q1 = tq_free_head q"
proof -
  let ?n = "unat (tq_size q)"
  have room: "?n < unat (tq_capacity q)" by (rule unarmed_room [OF assms(1,3,4)])
  have len: "length (tq_entries q) = unat (tq_capacity q)" "length (tq_heap q) = unat (tq_capacity q)"
    "unat (tq_capacity q) < 2 ^ 31" using assms(1) by (auto simp: pos_ok_def arrays_ok_def)
  show entry: "tq_entry q1 t = (if t = s then (tq_entry q s)\<lparr>te_link := tq_size q\<rparr> else tq_entry q t)" for t
    using len assms(3) by (simp add: q1_def tq_entry_set_link)
  have n1: "unat (tq_size q1) = Suc ?n"
    using room len by (simp add: q1_def) (subst unat_add_less, simp_all)
  then show "?n < unat (tq_size q1)" by simp
  have nth: "tq_heap q1 ! i = (if i = ?n then s else tq_heap q ! i)" for i
    using room len by (simp add: q1_def nth_list_update)
  show f: "tq_capacity q1 = tq_capacity q" "tq_free_head q1 = tq_free_head q" by (simp_all add: q1_def)
  have ne: "tq_heap q ! i \<noteq> s" if "i < ?n" for i using that assms(4) armed_slots_nth by blast
  have "te_link (tq_entry q1 (tq_heap q1 ! i)) = of_nat i \<and> unat (tq_heap q1 ! i) < unat (tq_capacity q)"
    if "i < Suc ?n" for i
    using that assms(1,3) ne [of i] by (auto simp: nth entry pos_ok_def less_Suc_eq)
  moreover have "length (tq_entries q1) = length (tq_entries q)" "length (tq_heap q1) = length (tq_heap q)"
    by (simp_all add: q1_def)
  ultimately show "pos_ok q1" using assms(1) f n1 room by (simp add: pos_ok_def arrays_ok_def)
  have hk: "hkey q1 = (hkey q)(?n := tkey q s)" by (rule ext) (simp add: hkey_def tkey_def nth entry)
  show "except_up (hkey q1) (unat (tq_size q1)) ?n" unfolding hk n1 using assms(2) by (rule heap_ok_append)
  have "(\<lambda>i. tq_heap q1 ! i) ` {..<?n} = (\<lambda>i. tq_heap q ! i) ` {..<?n}" by (rule image_cong) (simp_all add: nth)
  then show "armed_slots q1 = insert s (armed_slots q)"
    unfolding armed_slots_def n1 lessThan_Suc image_insert by (simp add: nth)
qed

lemma position_not_none: "pos_ok q \<Longrightarrow> unat l < unat (tq_size q) \<Longrightarrow> l \<noteq> TR_TIMER_HEAP_NONE"
  by (auto simp: pos_ok_def arrays_ok_def)

lemma arm_sifted:
  assumes "pos_ok q1" and "entries_ok {s} q1" and "s \<in> armed_slots q1" and "te_deadline_ns (tq_entry q1 s) \<noteq> 0"
    and "pos_ok q'" and "rearranged q1 q'" and "heap_ok (hkey q') (unat (tq_size q1))"
  shows "timer_inv q'" and "timers q' = timers q1" and "tq_capacity q' = tq_capacity q1"
  using assms(5,7) entries_ok_rearranged [OF entries_ok_armed [OF assms(2-4)] assms(6)] timers_rearranged [OF assms(6)]
    rearranged_frame [OF assms(6)] by (simp_all add: timer_inv_def timer_heap_def)

lemma arm_armed:
  assumes "timer_inv q" and "s \<in> armed_slots q" and "d \<noteq> 0"
  defines "q1 \<equiv> tq_store_deadline s d q" and "pos \<equiv> te_link (tq_entry q s)" and "old \<equiv> te_deadline_ns (tq_entry q s)"
  shows "\<exists>q'. (if old = 0 \<or> d < old then Some (tr_timer_heap_up q1 pos)
      else if old < d then tr_timer_heap_down q1 pos else Some q1) = Some q' \<and>
    timer_inv q' \<and> timers q' = timers q1 \<and> tq_capacity q' = tq_capacity q"
proof -
  have p: "pos_ok q" and h: "heap_ok (hkey q) (unat (tq_size q))" and e: "entries_ok {} q"
    using assms(1) by (simp_all add: timer_inv_def timer_heap_def)
  have cap: "unat s < unat (tq_capacity q)" and used: "te_used (tq_entry q s)" and old: "old \<noteq> 0"
    using armed_slot_bound [OF p assms(2)] e assms(2) by (auto simp: entries_ok_def old_def)
  note at = armed_position [OF p assms(2), folded pos_def]
  have q1: "pos_ok q1" "entries_ok {s} q1" "s \<in> armed_slots q1" "te_deadline_ns (tq_entry q1 s) \<noteq> 0"
    using store_deadline_entry [OF p cap, of d] store_deadline_ok [OF p cap e used, of d] assms(2,3)
    by (simp_all add: q1_def)
  have sz: "tq_size q1 = tq_size q" "tq_capacity q1 = tq_capacity q" by (simp_all add: q1_def)
  have hk: "hkey q1 i = ((hkey q)(unat pos := (d, s))) i" if "i < unat (tq_size q)" for i
    unfolding q1_def by (rule store_deadline_hkey [OF p at that])
  have key: "hkey q (unat pos) = (old, s)" by (simp add: hkey_def tkey_def at(2) old_def)
  consider "d < old" | "old < d" | "d = old" by fastforce
  then show ?thesis
  proof cases
    case 1
    then have "except_up ((hkey q)(unat pos := (d, s))) (unat (tq_size q)) (unat pos)"
      by (intro heap_ok_lower [OF h at(1)]) (simp add: key less_eq_prod_def)
    then have "except_up (hkey q1) (unat (tq_size q1)) (unat pos)"
      unfolding sz using except_up_cong [of "unat (tq_size q)" "hkey q1" "(hkey q)(unat pos := (d, s))" "unat pos"] hk at(1) by blast
    from heap_up_effect [OF q1(1) _ this] at(1) sz have
      "pos_ok (tr_timer_heap_up q1 pos)" "rearranged q1 (tr_timer_heap_up q1 pos)" "heap_ok (hkey (tr_timer_heap_up q1 pos)) (unat (tq_size q1))"
      by auto
    from arm_sifted [OF q1 this] show ?thesis using 1 sz by simp
  next
    case 2
    then have "except_down ((hkey q)(unat pos := (d, s))) (unat (tq_size q)) (unat pos)"
      by (intro heap_ok_raise [OF h at(1)]) (simp add: key less_eq_prod_def)
    then have "except_down (hkey q1) (unat (tq_size q1)) (unat pos)"
      unfolding sz using except_down_cong [of "unat (tq_size q)" "hkey q1" "(hkey q)(unat pos := (d, s))" "unat pos"] hk at(1) by blast
    from heap_down_effect [OF q1(1) _ this] at(1) sz obtain q' where
      q': "tr_timer_heap_down q1 pos = Some q'" "pos_ok q'" "rearranged q1 q'" "heap_ok (hkey q') (unat (tq_size q1))"
      by auto
    from arm_sifted [OF q1 q'(2-4)] show ?thesis using 2 sz q'(1) old by auto
  next
    case 3
    then have "(hkey q)(unat pos := (d, s)) = hkey q" by (simp add: key [symmetric])
    then have "heap_ok (hkey q1) (unat (tq_size q1))" using heap_ok_cong [of "unat (tq_size q)" "hkey q1" "(hkey q)(unat pos := (d, s))"] hk h sz by simp
    from arm_sifted [OF q1 q1(1) rearranged_refl this] show ?thesis using 3 sz old by simp
  qed
qed

lemma arm_unarmed:
  assumes "timer_inv q" and "unat s < unat (tq_capacity q)" and "te_used (tq_entry q s)" and "s \<notin> armed_slots q" and "d \<noteq> 0"
  defines "q1 \<equiv> tq_store_deadline s d q"
  defines "q2 \<equiv> tq_set_link s (tq_size q1) (q1\<lparr>tq_size := tq_size q1 + 1, tq_heap := (tq_heap q1)[unat (tq_size q1) := s]\<rparr>)"
  shows "timer_inv (tr_timer_heap_up q2 (tq_size q1)) \<and> timers (tr_timer_heap_up q2 (tq_size q1)) = timers q1 \<and>
    tq_capacity (tr_timer_heap_up q2 (tq_size q1)) = tq_capacity q"
proof -
  have p: "pos_ok q" and h: "heap_ok (hkey q) (unat (tq_size q))" and e: "entries_ok {} q"
    using assms(1) by (simp_all add: timer_inv_def timer_heap_def)
  note st = store_deadline_entry [OF p assms(2), of d, folded q1_def] and ok = store_deadline_ok [OF p assms(2) e assms(3), of d, folded q1_def]
  have f: "tq_size q1 = tq_size q" "tq_capacity q1 = tq_capacity q" "armed_slots q1 = armed_slots q" "tq_heap q1 = tq_heap q"
    by (simp_all add: q1_def)
  have h1: "heap_ok (hkey q1) (unat (tq_size q1))"
    using h store_deadline_heap [OF p assms(2,4)] by (simp add: q1_def)
  have s: "unat s < unat (tq_capacity q1)" "s \<notin> armed_slots q1" using assms(2,4) f by simp_all
  note a = append_slot [OF st(5) h1 s, folded q2_def]
  have "free_ok q1" using ok(1) by (simp add: entries_ok_def)
  then have "free_ok q2"
    using a(6,7) by (rule free_ok_keep) (use assms(3) in \<open>auto simp: a(5) st free_slots_def\<close>)
  then have e2: "entries_ok {s} q2" using ok(1) assms(3) by (auto simp: entries_ok_def a st)
  have t2: "timers q2 = timers q1" by (auto simp: timers_def fun_eq_iff a)
  have d2: "s \<in> armed_slots q2" "te_deadline_ns (tq_entry q2 s) \<noteq> 0" using assms(5) by (simp_all add: a st)
  note up = heap_up_effect [OF a(1-3)]
  show ?thesis
    using arm_sifted [OF a(1) e2 d2 conjunct1 [OF up] conjunct1 [OF conjunct2 [OF up]] conjunct2 [OF conjunct2 [OF up]]]
      t2 a(6) f by simp
qed

lemma token_valid_iff:
  "tr_timer_token_valid (Some q) token \<longleftrightarrow>
     unat (tt_slot token) < unat (tq_capacity q) \<and> te_used (tq_entry q (tt_slot token)) \<and>
     te_generation (tq_entry q (tt_slot token)) = tt_generation token"
  by (auto simp: tr_timer_token_valid_def word_le_nat_alt)

lemma token_valid_timers:
  "tr_timer_token_valid (Some q) token \<longleftrightarrow> (\<exists>d. timers q (tt_slot token) = Some (tt_generation token, d))"
  by (auto simp: token_valid_iff timers_def)

lemma arm_effect:
  assumes "timer_inv q" and "tr_timer_token_valid (Some q) token"
  shows "\<exists>q'. tr_timer_queue_arm (Some q) token d = Some (TR_OK, Some q') \<and> timer_inv q' \<and>
    timers q' = (timers q)(tt_slot token \<mapsto> (tt_generation token, d)) \<and> tq_capacity q' = tq_capacity q"
proof -
  define s where "s = tt_slot token"
  have p: "pos_ok q" and h: "heap_ok (hkey q) (unat (tq_size q))" and e: "entries_ok {} q"
    using assms(1) by (simp_all add: timer_inv_def timer_heap_def)
  have v: "unat s < unat (tq_capacity q)" "te_used (tq_entry q s)" "te_generation (tq_entry q s) = tt_generation token"
    using assms(2) by (simp_all add: token_valid_iff s_def)
  let ?q1 = "tq_store_deadline s d q"
  note st = store_deadline_entry [OF p v(1), of d] and ok = store_deadline_ok [OF p v(1) e v(2), of d, unfolded v(3)]
  have run: "tr_timer_queue_arm (Some q) token d =
      (let q1 = ?q1; pos = te_link (tq_entry q s); old = te_deadline_ns (tq_entry q s) in
       if d = 0 then
         (if pos \<noteq> TR_TIMER_HEAP_NONE then map_option (\<lambda>q. (TR_OK, Some q)) (tr_timer_heap_remove q1 pos) else Some (TR_OK, Some q1))
       else if pos = TR_TIMER_HEAP_NONE then
         (if tq_size q = tq_capacity q then Some (TR_AGAIN, Some q1)
          else Some (TR_OK, Some (tr_timer_heap_up
            (tq_set_link s (tq_size q1) (q1\<lparr>tq_size := tq_size q1 + 1, tq_heap := (tq_heap q1)[unat (tq_size q1) := s]\<rparr>)) (tq_size q1))))
       else map_option (\<lambda>q. (TR_OK, Some q))
         (if old = 0 \<or> d < old then Some (tr_timer_heap_up q1 pos) else if old < d then tr_timer_heap_down q1 pos else Some q1))"
    using assms(2) by (simp add: tr_timer_queue_arm_def s_def [symmetric] store_deadline_entry [OF p v(1)] Let_def)
  show ?thesis
  proof (cases "s \<in> armed_slots q")
    case True
    note at = armed_position [OF p True]
    have none: "te_link (tq_entry q s) \<noteq> TR_TIMER_HEAP_NONE" by (rule position_not_none [OF p at(1)])
    show ?thesis
    proof (cases "d = 0")
      case False
      then show ?thesis using arm_armed [OF assms(1) True False] none ok(2) unfolding run Let_def s_def [symmetric] by auto
    next
      case d: True
      let ?pos = "te_link (tq_entry q s)"
      have "((hkey ?q1)(unat ?pos := hkey q (unat ?pos))) i = hkey q i" if "i < unat (tq_size q)" for i
        using store_deadline_hkey [OF p at that, of d] by auto
      then have "heap_ok ((hkey ?q1)(unat ?pos := hkey q (unat ?pos))) (unat (tq_size ?q1))"
        using heap_ok_cong [of "unat (tq_size q)" "(hkey ?q1)(unat ?pos := hkey q (unat ?pos))" "hkey q"] h by simp
      then obtain q' where q': "tr_timer_heap_remove ?q1 ?pos = Some q'" "disarmed ?q1 s q'"
        using heap_remove_effect [OF st(5), of ?pos "hkey q (unat ?pos)" s] at by auto
      have "entries_ok {s} q'" using entries_ok_disarmed [OF ok(1) q'(2)] by simp
      then have "entries_ok {} q'"
        using disarmed_frame [OF q'(2)] disarmed_fields [OF q'(2)] st d by (intro entries_ok_unarmed) auto
      then have "timer_inv q'" using disarmed_frame(1) [OF q'(2)] by (simp add: timer_inv_def)
      then show ?thesis
        unfolding run Let_def s_def [symmetric] using d none q'(1) timers_disarmed [OF q'(2)] ok(2) disarmed_frame(2) [OF q'(2)] by simp
    qed
  next
    case False
    have none: "te_link (tq_entry q s) = TR_TIMER_HEAP_NONE" using e v False by (simp add: entries_ok_def)
    show ?thesis
    proof (cases "d = 0")
      case True
      have "entries_ok {} ?q1" using entries_ok_unarmed [OF ok(1)] st False none True by simp
      then have "timer_inv ?q1" using st(5) h store_deadline_heap [OF p v(1) False] by (simp add: timer_inv_def timer_heap_def)
      then show ?thesis using ok(2) True none unfolding run Let_def s_def [symmetric] by simp
    next
      case d: False
      have "tq_size q \<noteq> tq_capacity q" using unarmed_room [OF p v(1) False] by auto
      then show ?thesis using arm_unarmed [OF assms(1) v(1,2) False d] none ok(2) d
        unfolding run Let_def s_def [symmetric] by simp
    qed
  qed
qed

section \<open>Registering and unregistering\<close>

lemma free_chain_head:
  "free_chain nx h fs \<Longrightarrow> TR_TIMER_HEAP_NONE \<notin> set fs \<Longrightarrow> h = TR_TIMER_HEAP_NONE \<longleftrightarrow> fs = []"
  "free_chain nx h fs \<Longrightarrow> h \<noteq> TR_TIMER_HEAP_NONE \<Longrightarrow> h \<in> set fs"
  by (cases fs; auto)+

lemma free_head_cases:
  assumes "pos_ok q" and "free_ok q"
  shows "tq_free_head q = TR_TIMER_HEAP_NONE \<longleftrightarrow> free_slots q = {}"
    and "tq_free_head q \<noteq> TR_TIMER_HEAP_NONE \<Longrightarrow> tq_free_head q \<in> free_slots q"
proof -
  obtain fs where fs: "free_chain (\<lambda>s. te_link (tq_entry q s)) (tq_free_head q) fs" "set fs = free_slots q"
    using assms(2) by (auto simp: free_ok_def)
  have none: "TR_TIMER_HEAP_NONE \<notin> set fs" using assms(1) fs(2) by (simp add: free_slots_def pos_ok_def arrays_ok_def)
  show "tq_free_head q = TR_TIMER_HEAP_NONE \<longleftrightarrow> free_slots q = {}"
    using free_chain_head(1) [OF fs(1) none] fs(2) by auto
  show "tq_free_head q \<noteq> TR_TIMER_HEAP_NONE \<Longrightarrow> tq_free_head q \<in> free_slots q"
    using free_chain_head(2) [OF fs(1)] fs(2) by simp
qed

text \<open>Taking the first slot of the free list, and putting a slot in front of it.\<close>

lemma free_chain_other:
  "free_chain nx h fs \<Longrightarrow> s \<notin> set fs \<Longrightarrow> (\<And>t. t \<noteq> s \<Longrightarrow> nx' t = nx t) \<Longrightarrow> free_chain nx' h fs"
  by (induction fs arbitrary: h) auto

lemma free_take:
  assumes "free_ok q" and "tq_free_head q = s" and "s \<in> free_slots q" and "pos_ok q" and "te_used e"
    and "tq_free_head q' = te_link (tq_entry q s)" and "tq_capacity q' = tq_capacity q"
    and "\<And>t. tq_entry q' t = (if t = s then e else tq_entry q t)"
  shows "free_ok q'"
proof -
  obtain fs where fs: "free_chain (\<lambda>s. te_link (tq_entry q s)) s fs" "distinct fs" "set fs = free_slots q"
    using assms(1,2) by (auto simp: free_ok_def)
  have "s \<noteq> TR_TIMER_HEAP_NONE" using assms(3,4) by (auto simp: free_slots_def pos_ok_def arrays_ok_def)
  then obtain ss where ss: "fs = s # ss" using fs(1) by (cases fs) auto
  have "free_chain (\<lambda>s. te_link (tq_entry q' s)) (tq_free_head q') ss"
    by (rule free_chain_other [of "\<lambda>s. te_link (tq_entry q s)" _ ss s]) (use fs(1,2) ss assms(6,8) in auto)
  moreover have "free_slots q' = free_slots q - {s}" using assms(5,7,8) by (auto simp: free_slots_def)
  ultimately show ?thesis using fs ss by (auto simp: free_ok_def)
qed

lemma free_put:
  assumes "free_ok q" and "unat s < unat (tq_capacity q)" and "te_used (tq_entry q s)"
    and "\<not> te_used e" and "te_link e = tq_free_head q" and "tq_free_head q' = s" and "tq_capacity q' = tq_capacity q"
    and "\<And>t. tq_entry q' t = (if t = s then e else tq_entry q t)"
  shows "free_ok q'"
proof -
  obtain fs where fs: "free_chain (\<lambda>s. te_link (tq_entry q s)) (tq_free_head q) fs" "distinct fs" "set fs = free_slots q"
    using assms(1) by (auto simp: free_ok_def)
  have s: "s \<notin> set fs" using fs(3) assms(3) by (simp add: free_slots_def)
  have "free_chain (\<lambda>s. te_link (tq_entry q' s)) (tq_free_head q) fs"
    by (rule free_chain_other [OF fs(1) s]) (simp add: assms(8))
  then have "free_chain (\<lambda>s. te_link (tq_entry q' s)) (tq_free_head q') (s # fs)" using assms(5,6,8) by simp
  moreover have "free_slots q' = insert s (free_slots q)" using assms(2,4,7,8) by (auto simp: free_slots_def)
  ultimately show ?thesis using fs s unfolding free_ok_def by (intro exI [of _ "s # fs"]) simp
qed

lemma pos_ok_free_head [simp]: "pos_ok (q\<lparr>tq_free_head := h\<rparr>) \<longleftrightarrow> pos_ok q"
  by (simp add: pos_ok_def arrays_ok_def)

lemma hkey_free_head [simp]: "hkey (q\<lparr>tq_free_head := h\<rparr>) = hkey q"
  by (simp add: hkey_def tkey_def fun_eq_iff)

lemma register_effect:
  fixes callback arg :: "nat option" and out :: tr_timer_token
  assumes "timer_inv q" and "callback \<noteq> None"
  defines "r \<equiv> tr_timer_queue_register (Some q) callback arg (Some out)"
  shows "free_slots q = {} \<Longrightarrow> r = (TR_AGAIN, Some q, Some out)"
    and "free_slots q \<noteq> {} \<Longrightarrow> \<exists>q' s g. r = (TR_OK, Some q', Some \<lparr>tt_slot = s, tt_generation = g\<rparr>) \<and>
      s \<in> free_slots q \<and> g \<noteq> 0 \<and> g \<noteq> te_generation (tq_entry q s) \<and> timer_inv q' \<and> timers q' = (timers q)(s \<mapsto> (g, 0)) \<and>
      tq_capacity q' = tq_capacity q"
proof -
  have p: "pos_ok q" and h: "heap_ok (hkey q) (unat (tq_size q))" and e: "entries_ok {} q" and f: "free_ok q"
    using assms(1) by (simp_all add: timer_inv_def timer_heap_def entries_ok_def)
  note fh = free_head_cases [OF p f]
  show "free_slots q = {} \<Longrightarrow> r = (TR_AGAIN, Some q, Some out)"
    using assms(2) fh(1) by (simp add: r_def tr_timer_queue_register_def)
  assume ne: "free_slots q \<noteq> {}"
  define s where "s = tq_free_head q"
  define g where "g = (let g = te_generation (tq_entry q s) + 1 in if g = 0 then 1 else g)"
  define e' where "e' = timer_entry_zero\<lparr>te_generation := g, te_link := TR_TIMER_HEAP_NONE,
                  te_version := 1, te_callback := callback, te_arg := arg, te_used := True\<rparr>"
  define q0 where "q0 = q\<lparr>tq_free_head := te_link (tq_entry q s)\<rparr>"
  define q' where "q' = tq_set_entry s e' q0"
  have s: "s \<in> free_slots q" "s \<noteq> TR_TIMER_HEAP_NONE" using fh ne by (auto simp: s_def)
  have cap: "unat s < unat (tq_capacity q)" using s(1) by (simp add: free_slots_def)
  then have "tq_capacity q \<noteq> 0" by auto
  then have run: "r = (TR_OK, Some q', Some \<lparr>tt_slot = s, tt_generation = g\<rparr>)"
    using assms(2) s(2) by (simp add: r_def tr_timer_queue_register_def s_def g_def e'_def q0_def q'_def Let_def)
  have g: "g \<noteq> 0" "g \<noteq> te_generation (tq_entry q s)" by (auto simp: g_def Let_def)
  have na: "s \<notin> armed_slots q" using free_not_armed [OF e s(1)] .
  have ent: "tq_entry q' t = (if t = s then e' else tq_entry q t)" for t
    using cap p by (simp add: q'_def q0_def tq_entry_set_entry pos_ok_def arrays_ok_def)
  have u: "te_used e'" "te_link e' = TR_TIMER_HEAP_NONE" "te_deadline_ns e' = 0" "te_generation e' = g"
    by (simp_all add: e'_def timer_entry_zero_def)
  have fr: "tq_free_head q' = te_link (tq_entry q s)" "tq_capacity q' = tq_capacity q" "armed_slots q' = armed_slots q"
    "tq_size q' = tq_size q"
    by (simp_all add: q'_def q0_def)
  have "free_ok q'" using f s_def [symmetric] s(1) p u(1) fr(1,2) ent by (rule free_take)
  then have "entries_ok {} q'" using e na by (auto simp: entries_ok_def ent u fr)
  moreover have "timer_heap q'"
    using set_unarmed [of q0 s e'] p h cap na by (simp add: timer_heap_def q'_def q0_def)
  ultimately have "timer_inv q'" by (simp add: timer_inv_def)
  moreover have "timers q' = (timers q)(s \<mapsto> (g, 0))" using cap by (auto simp: timers_def fun_eq_iff ent u fr)
  ultimately show "\<exists>q' s g. r = (TR_OK, Some q', Some \<lparr>tt_slot = s, tt_generation = g\<rparr>) \<and>
      s \<in> free_slots q \<and> g \<noteq> 0 \<and> g \<noteq> te_generation (tq_entry q s) \<and> timer_inv q' \<and> timers q' = (timers q)(s \<mapsto> (g, 0)) \<and>
      tq_capacity q' = tq_capacity q"
    using run s(1) g fr(2) by auto
qed

lemma unregister_effect:
  assumes "timer_inv q" and "tr_timer_token_valid (Some q) token"
  shows "\<exists>q'. tr_timer_queue_unregister (Some q) token = Some (TR_OK, Some q') \<and> timer_inv q' \<and>
    timers q' = (timers q)(tt_slot token := None) \<and> tq_capacity q' = tq_capacity q \<and>
    te_generation (tq_entry q' (tt_slot token)) = tt_generation token"
proof -
  define s where "s = tt_slot token"
  have p: "pos_ok q" and h: "heap_ok (hkey q) (unat (tq_size q))" and e: "entries_ok {} q"
    using assms(1) by (simp_all add: timer_inv_def timer_heap_def)
  have v: "unat s < unat (tq_capacity q)" "te_used (tq_entry q s)" "te_generation (tq_entry q s) = tt_generation token"
    using assms(2) by (simp_all add: token_valid_iff s_def)
  have "\<exists>q1. (if te_link (tq_entry q s) \<noteq> TR_TIMER_HEAP_NONE
               then tr_timer_heap_remove q (te_link (tq_entry q s)) else Some q) = Some q1 \<and> disarmed q s q1"
  proof (cases "s \<in> armed_slots q")
    case True
    note at = armed_position [OF p True]
    show ?thesis using position_not_none [OF p at(1)] heap_remove_effect [OF p at(1) _ at(2)] h
      by (metis fun_upd_triv)
  next
    case False
    then have "te_link (tq_entry q s) = TR_TIMER_HEAP_NONE" using e v by (simp add: entries_ok_def)
    then show ?thesis using False p h by (auto simp: disarmed_def without_slot_def timer_heap_def)
  qed
  then obtain q1 where q1: "(if te_link (tq_entry q s) \<noteq> TR_TIMER_HEAP_NONE
               then tr_timer_heap_remove q (te_link (tq_entry q s)) else Some q) = Some q1" and d: "disarmed q s q1" by blast
  have f1: "pos_ok q1" "heap_ok (hkey q1) (unat (tq_size q1))" "s \<notin> armed_slots q1" "unat s < unat (tq_capacity q1)"
      "te_used (tq_entry q1 s)" "te_generation (tq_entry q1 s) = tt_generation token"
    using disarmed_frame [OF d] disarmed_fields [OF d] v by (simp_all add: timer_heap_def)
  have "entries_ok {s} q" using e by (auto simp: entries_ok_def)
  then have e1: "entries_ok {s} q1" using d by (rule entries_ok_disarmed) simp
  define e' where "e' = (tq_entry q1 s)\<lparr>te_deadline_ns := 0, te_version := te_version (tq_entry q1 s) + 1, te_used := False,
      te_running := False, te_callback := None, te_arg := None, te_link := tq_free_head q1\<rparr>"
  define q' where "q' = (tq_set_entry s e' q1)\<lparr>tq_free_head := s\<rparr>"
  have run: "tr_timer_queue_unregister (Some q) token = Some (TR_OK, Some q')"
    using assms(2) q1 by (simp add: tr_timer_queue_unregister_def s_def [symmetric] e'_def q'_def Let_def del: not_None_eq)
  have ent: "tq_entry q' t = (if t = s then e' else tq_entry q1 t)" for t
    using f1 by (simp add: q'_def tq_entry_set_entry pos_ok_def arrays_ok_def)
  have u: "\<not> te_used e'" "te_link e' = tq_free_head q1" "te_generation e' = tt_generation token"
    using f1(6) by (simp_all add: e'_def)
  have fr: "tq_free_head q' = s" "tq_capacity q' = tq_capacity q1" "armed_slots q' = armed_slots q1"
    by (simp_all add: q'_def)
  have "free_ok q1" using e1 by (simp add: entries_ok_def)
  then have "free_ok q'" using f1(4,5) u(1,2) fr(1,2) ent by (rule free_put)
  then have "entries_ok {} q'" using e1 f1(3) u(1) by (auto simp: entries_ok_def ent fr)
  moreover have "timer_heap q'" using set_unarmed [OF f1(1,4,3)] f1(2) by (simp add: timer_heap_def q'_def)
  ultimately have "timer_inv q'" by (simp add: timer_inv_def)
  moreover have "timers q' = (timers q1)(s := None)" using u by (auto simp: timers_def fun_eq_iff ent fr)
  ultimately show ?thesis
    using run timers_disarmed [OF d] disarmed_frame(2) [OF d] u(3) ent [of s] fr(2) unfolding s_def [symmetric] by simp
qed

section \<open>A new queue and its earliest timer\<close>

lemma init_free_chain:
  assumes "\<And>i. i < n \<Longrightarrow> nx (of_nat i) = (if Suc i < n then of_nat (Suc i) else TR_TIMER_HEAP_NONE)" and "k \<le> n"
  shows "free_chain nx (if k < n then of_nat k else TR_TIMER_HEAP_NONE) (map of_nat [k..<n])"
  using assms(2)
proof (induction "n - k" arbitrary: k)
  case 0
  then show ?case by simp
next
  case (Suc m)
  then have "free_chain nx (if Suc k < n then of_nat (Suc k) else TR_TIMER_HEAP_NONE) (map of_nat [Suc k..<n])"
    by (intro Suc.hyps) auto
  moreover have "k < n" using Suc.hyps(2) by simp
  ultimately show ?case using assms(1) [of k] by (simp add: upt_conv_Cons del: of_nat_Suc)
qed

lemma init_effect:
  assumes "0 < unat capacity" and "unat capacity < 2 ^ 31"
  shows "\<exists>q. tr_timer_queue_init True True (Some q0) capacity = (TR_OK, Some q) \<and> timer_inv q \<and>
    timers q = Map.empty \<and> tq_capacity q = capacity"
proof -
  let ?n = "unat capacity"
  define q where "q = timer_queue_zero
        \<lparr>tq_entries := map (\<lambda>i. timer_free_entry capacity (of_nat i)) [0..<?n], tq_heap := replicate ?n 0, tq_capacity := capacity\<rparr>"
  have run: "tr_timer_queue_init True True (Some q0) capacity = (TR_OK, Some q)"
    using assms(1) by (auto simp: tr_timer_queue_init_def q_def)
  have f: "tq_size q = 0" "tq_capacity q = capacity" "tq_free_head q = 0"
    by (simp_all add: q_def timer_queue_zero_def)
  then have f4: "armed_slots q = {}" by (simp add: armed_slots_def)
  have e: "tq_entry q (of_nat i) = timer_free_entry capacity (of_nat i)" if "i < ?n" for i
  proof -
    have "unat (of_nat i :: u32) = i" using that assms(2) by (simp add: unat_of_nat)
    moreover have "tq_entries q = map (\<lambda>i. timer_free_entry capacity (of_nat i)) [0..<?n]" by (simp add: q_def)
    ultimately show ?thesis using that by (simp add: tq_entry_def)
  qed
  have un: "\<not> te_used (tq_entry q s)" if "unat s < ?n" for s
    using e [OF that] by (simp add: timer_free_entry_def timer_entry_zero_def)
  have nx: "te_link (tq_entry q (of_nat i)) = (if Suc i < ?n then of_nat (Suc i) else TR_TIMER_HEAP_NONE)" if "i < ?n" for i
  proof -
    have "(of_nat i + 1 :: u32) < capacity \<longleftrightarrow> Suc i < ?n"
    proof -
      have "unat (of_nat i + 1 :: u32) = Suc i" using that assms(2) by (subst unat_add_less) (simp_all add: unat_of_nat)
      then show ?thesis by (simp add: word_less_nat_alt)
    qed
    then show ?thesis using e [OF that] by (simp add: timer_free_entry_def)
  qed
  have "free_chain (\<lambda>s. te_link (tq_entry q s)) (if 0 < ?n then of_nat 0 else TR_TIMER_HEAP_NONE) (map of_nat [0..<?n])"
    by (rule init_free_chain) (use nx in auto)
  then have "free_chain (\<lambda>s. te_link (tq_entry q s)) (tq_free_head q) (map of_nat [0..<?n])" using assms(1) f(3) by simp
  moreover have "inj_on (of_nat :: nat \<Rightarrow> u32) (set [0..<?n])"
    using assms(2) by (intro inj_onI) (simp add: word_unat_eq_iff unat_of_nat)
  then have "distinct (map (of_nat :: nat \<Rightarrow> u32) [0..<?n])" by (simp add: distinct_map)
  moreover have "set (map (of_nat :: nat \<Rightarrow> u32) [0..<?n]) = free_slots q"
  proof (intro subset_antisym subsetI)
    fix s assume "s \<in> free_slots q"
    then have "unat s < ?n" by (simp add: free_slots_def f)
    then have "of_nat (unat s) \<in> (of_nat :: nat \<Rightarrow> u32) ` {0..<?n}" by (intro imageI) simp
    then show "s \<in> set (map of_nat [0..<?n])" by simp
  next
    fix s :: u32 assume "s \<in> set (map of_nat [0..<?n])"
    then obtain i where "s = of_nat i" "i < ?n" by auto
    moreover have "unat (of_nat i :: u32) = i" using \<open>i < ?n\<close> assms(2) by (simp add: unat_of_nat)
    ultimately show "s \<in> free_slots q" using un by (simp add: free_slots_def f)
  qed
  ultimately have "free_ok q" unfolding free_ok_def by blast
  then have "entries_ok {} q" using un by (simp add: entries_ok_def f f4)
  moreover have "timer_heap q"
    using assms(2) f by (simp add: timer_heap_def pos_ok_def arrays_ok_def heap_ok_def q_def)
  ultimately have "timer_inv q" by (simp add: timer_inv_def)
  moreover have "timers q = Map.empty" using un by (simp add: timers_def f fun_eq_iff)
  ultimately show ?thesis using run f(2) by (intro exI [of _ q]) simp
qed

lemma armed_timers:
  "timer_inv q \<Longrightarrow> s \<in> armed_slots q \<longleftrightarrow> (\<exists>g d. timers q s = Some (g, d) \<and> d \<noteq> 0)"
  using armed_slot_bound [of q s] by (auto simp: timer_inv_def timer_heap_def entries_ok_def timers_def)

text \<open>The root of the heap is the earliest armed timer.\<close>

lemma earliest:
  assumes "timer_inv q"
  shows "tq_size q = 0 \<longleftrightarrow> (\<forall>s g d. timers q s = Some (g, d) \<longrightarrow> d = 0)"
    and "tq_size q \<noteq> 0 \<Longrightarrow> timers q (tq_heap q ! 0) =
      Some (te_generation (tq_entry q (tq_heap q ! 0)), te_deadline_ns (tq_entry q (tq_heap q ! 0)))"
    and "tq_size q \<noteq> 0 \<Longrightarrow> te_deadline_ns (tq_entry q (tq_heap q ! 0)) \<noteq> 0"
    and "timers q s = Some (g, d) \<Longrightarrow> d \<noteq> 0 \<Longrightarrow>
      (te_deadline_ns (tq_entry q (tq_heap q ! 0)), tq_heap q ! 0) \<le> (d, s)"
proof -
  have p: "pos_ok q" and h: "heap_ok (hkey q) (unat (tq_size q))" and e: "entries_ok {} q"
    using assms by (simp_all add: timer_inv_def timer_heap_def)
  have "armed_slots q = {} \<longleftrightarrow> tq_size q = 0" by (simp add: armed_slots_def lessThan_empty_iff unat_eq_zero)
  then show "tq_size q = 0 \<longleftrightarrow> (\<forall>s g d. timers q s = Some (g, d) \<longrightarrow> d = 0)"
    using armed_timers [OF assms] by blast
  have root: "tq_heap q ! 0 \<in> armed_slots q" if "tq_size q \<noteq> 0"
    using that by (intro armed_slots_nth) (simp add: word_neq_0_unat)
  then show "tq_size q \<noteq> 0 \<Longrightarrow> timers q (tq_heap q ! 0) =
      Some (te_generation (tq_entry q (tq_heap q ! 0)), te_deadline_ns (tq_entry q (tq_heap q ! 0)))"
    using armed_timers [OF assms] by (auto simp: timers_def split: if_splits)
  show "tq_size q \<noteq> 0 \<Longrightarrow> te_deadline_ns (tq_entry q (tq_heap q ! 0)) \<noteq> 0"
    using root e by (simp add: entries_ok_def)
  assume t: "timers q s = Some (g, d)" "d \<noteq> 0"
  then have a: "s \<in> armed_slots q" using armed_timers [OF assms] by blast
  have "hkey q 0 \<le> hkey q (unat (te_link (tq_entry q s)))" using heap_ok_min [OF h armed_position(1) [OF p a]] .
  moreover have "te_deadline_ns (tq_entry q s) = d" using t(1) by (simp add: timers_def split: if_splits)
  ultimately show "(te_deadline_ns (tq_entry q (tq_heap q ! 0)), tq_heap q ! 0) \<le> (d, s)"
    by (simp add: hkey_def tkey_def armed_position(2) [OF p a])
qed

section \<open>Running due timers\<close>

text \<open>What a callback may do to the queue: any sequence of the public operations.\<close>

inductive timer_ops :: "tr_timer_queue \<Rightarrow> tr_timer_queue \<Rightarrow> bool" where
  idle: "timer_ops q q"
| register: "timer_ops q r \<Longrightarrow> tr_timer_queue_register (Some r) callback arg out = (st, Some r', out') \<Longrightarrow> timer_ops q r'"
| arm: "timer_ops q r \<Longrightarrow> tr_timer_queue_arm (Some r) token d = Some (st, Some r') \<Longrightarrow> timer_ops q r'"
| unregister: "timer_ops q r \<Longrightarrow> tr_timer_queue_unregister (Some r) token = Some (st, Some r') \<Longrightarrow> timer_ops q r'"

lemma timer_ops_inv: "timer_ops q r \<Longrightarrow> timer_inv q \<Longrightarrow> timer_inv r \<and> tq_capacity r = tq_capacity q"
proof (induction rule: timer_ops.induct)
  case (register q r callback arg out st r' out')
  show ?case
  proof (cases "callback = None \<or> out = None")
    case True
    then show ?thesis using register by (simp add: tr_timer_queue_register_def)
  next
    case False
    then obtain o' where "out = Some o'" by auto
    then show ?thesis using register False register_effect [of r callback arg o'] by (cases "free_slots r = {}") auto
  qed
next
  case (arm q r token d st r')
  then show ?case using arm_effect [of r token d]
    by (cases "tr_timer_token_valid (Some r) token") (auto simp: tr_timer_queue_arm_def)
next
  case (unregister q r token st r')
  then show ?case using unregister_effect [of r token]
    by (cases "tr_timer_token_valid (Some r) token") (auto simp: tr_timer_queue_unregister_def)
qed simp

lemma set_running:
  fixes b :: bool
  assumes "timer_inv q" and "unat s < unat (tq_capacity q)"
  defines "q' \<equiv> tq_set_entry s ((tq_entry q s)\<lparr>te_running := b\<rparr>) q"
  shows "timer_inv q'" and "timers q' = timers q" and "tq_capacity q' = tq_capacity q"
    and "te_generation (tq_entry q' t) = te_generation (tq_entry q t)" and "te_used (tq_entry q' t) = te_used (tq_entry q t)"
proof -
  have len: "unat s < length (tq_entries q)" using assms(1,2) by (simp add: timer_inv_def timer_heap_def pos_ok_def arrays_ok_def)
  have f: "te_link (tq_entry q' t) = te_link (tq_entry q t)" "te_deadline_ns (tq_entry q' t) = te_deadline_ns (tq_entry q t)"
    "te_used (tq_entry q' t) = te_used (tq_entry q t)" "te_generation (tq_entry q' t) = te_generation (tq_entry q t)" for t
    using len by (simp_all add: q'_def tq_entry_set_entry)
  show c: "tq_capacity q' = tq_capacity q" by (simp add: q'_def)
  have g: "tq_heap q' = tq_heap q" "tq_size q' = tq_size q" "armed_slots q' = armed_slots q" "tq_free_head q' = tq_free_head q"
    "length (tq_entries q') = length (tq_entries q)" by (simp_all add: q'_def)
  have "hkey q' = hkey q" by (simp add: hkey_def tkey_def fun_eq_iff f g)
  then have "timer_heap q'" using assms(1) by (simp add: timer_inv_def timer_heap_def pos_ok_def arrays_ok_def f g c)
  moreover have "free_ok q" using assms(1) by (simp add: timer_inv_def entries_ok_def)
  then have "free_ok q'" by (rule free_ok_keep) (simp_all add: f g c)
  then have "entries_ok {} q'" using assms(1) by (simp add: timer_inv_def entries_ok_def f g c)
  ultimately show "timer_inv q'" by (simp add: timer_inv_def)
  show "timers q' = timers q" by (simp add: timers_def fun_eq_iff f c)
  show "te_generation (tq_entry q' t) = te_generation (tq_entry q t)" "te_used (tq_entry q' t) = te_used (tq_entry q t)"
    by (simp_all add: f)
qed

lemma after_callback_effect:
  assumes "timer_inv q" and "unat (tt_slot token) < unat (tq_capacity q)"
  shows "\<exists>q'. tq_after_callback q token v next_ns = Some q' \<and> timer_inv q' \<and> tq_capacity q' = tq_capacity q \<and>
    (next_ns = 0 \<longrightarrow> timers q' = timers q)"
proof (cases "tr_timer_token_valid (Some q) token")
  case False
  then show ?thesis using assms by (auto simp: tq_after_callback_def token_valid_iff Let_def)
next
  case True
  let ?s = "tt_slot token" and ?q = "tq_set_entry (tt_slot token) ((tq_entry q (tt_slot token))\<lparr>te_running := False\<rparr>) q"
  note r = set_running [OF assms, of False]
  have "tr_timer_token_valid (Some ?q) token" using True r by (simp add: token_valid_iff)
  from arm_effect [OF r(1) this, of next_ns] obtain q' where
    q': "tr_timer_queue_arm (Some ?q) token next_ns = Some (TR_OK, Some q')" "timer_inv q'" "tq_capacity q' = tq_capacity ?q"
    by blast
  show ?thesis
  proof (cases "te_version (tq_entry q ?s) = v \<and> next_ns \<noteq> 0")
    case rearm: True
    then have "tq_after_callback q token v next_ns = Some q'"
      using True q'(1) by (simp add: tq_after_callback_def token_valid_iff Let_def)
    then show ?thesis using q'(2,3) r(3) rearm by simp
  next
    case False
    then have "tq_after_callback q token v next_ns = Some ?q"
      using True by (auto simp: tq_after_callback_def token_valid_iff Let_def)
    then show ?thesis using r(1-3) by simp
  qed
qed

text \<open>The timer at the root taken out of the heap, its deadline cleared.\<close>

lemma take_root:
  assumes "timer_inv q" and "tq_size q \<noteq> 0"
  defines "s \<equiv> tq_heap q ! 0"
  shows "\<exists>q1. tr_timer_heap_remove q 0 = Some q1 \<and>
    timer_inv (tq_set_entry s ((tq_entry q1 s)\<lparr>te_deadline_ns := 0, te_running := True\<rparr>) q1) \<and>
    tq_capacity q1 = tq_capacity q \<and> unat s < unat (tq_capacity q) \<and>
    timers (tq_set_entry s ((tq_entry q1 s)\<lparr>te_deadline_ns := 0, te_running := True\<rparr>) q1) =
      (timers q)(s \<mapsto> (te_generation (tq_entry q s), 0))"
proof -
  have p: "pos_ok q" and h: "heap_ok (hkey q) (unat (tq_size q))" and e: "entries_ok {} q"
    using assms(1) by (simp_all add: timer_inv_def timer_heap_def)
  have z: "unat (0 :: u32) < unat (tq_size q)" using assms(2) by (simp add: word_neq_0_unat)
  have a: "s \<in> armed_slots q" unfolding s_def using z by (intro armed_slots_nth) simp
  have cap: "unat s < unat (tq_capacity q)" using armed_slot_bound [OF p a] .
  have used: "te_used (tq_entry q s)" using e a by (simp add: entries_ok_def)
  obtain q1 where q1: "tr_timer_heap_remove q 0 = Some q1" "disarmed q s q1"
    using heap_remove_effect [OF p z, of "hkey q 0" s] h by (auto simp: s_def)
  define q2 where "q2 = tq_set_entry s ((tq_entry q1 s)\<lparr>te_deadline_ns := 0, te_running := True\<rparr>) q1"
  note d = disarmed_frame [OF q1(2)] and df = disarmed_fields [OF q1(2)]
  have p1: "pos_ok q1" and h1: "heap_ok (hkey q1) (unat (tq_size q1))" using d(1) by (simp_all add: timer_heap_def)
  have len: "unat s < length (tq_entries q1)" using p1 cap d(2) by (simp add: pos_ok_def arrays_ok_def)
  have s1: "unat s < unat (tq_capacity q1)" "s \<notin> armed_slots q1" using cap d(2,4) by simp_all
  have ent: "te_link (tq_entry q2 t) = te_link (tq_entry q1 t)" "te_used (tq_entry q2 t) = te_used (tq_entry q1 t)"
    "te_generation (tq_entry q2 t) = te_generation (tq_entry q1 t)"
    "te_deadline_ns (tq_entry q2 t) = (if t = s then 0 else te_deadline_ns (tq_entry q1 t))" for t
    using len by (simp_all add: q2_def tq_entry_set_entry)
  have g: "tq_capacity q2 = tq_capacity q1" "armed_slots q2 = armed_slots q1" "tq_free_head q2 = tq_free_head q1" "tq_size q2 = tq_size q1"
    by (simp_all add: q2_def)
  have "entries_ok {s} q" using e by (auto simp: entries_ok_def)
  then have e1: "entries_ok {s} q1" using q1(2) by (rule entries_ok_disarmed) simp
  then have "free_ok q1" by (simp add: entries_ok_def)
  then have "free_ok q2" by (rule free_ok_keep) (simp_all add: ent g)
  then have "entries_ok {s} q2" using e1 by (auto simp: entries_ok_def ent g)
  then have "entries_ok {} q2" by (rule entries_ok_unarmed) (simp_all add: ent g s1 d(5))
  moreover have "timer_heap q2" using set_unarmed [OF p1 s1] h1 by (simp add: timer_heap_def q2_def)
  ultimately have "timer_inv q2" by (simp add: timer_inv_def)
  moreover have "timers q2 = (timers q)(s \<mapsto> (te_generation (tq_entry q s), 0))"
    using cap used by (auto simp: timers_def fun_eq_iff ent g df d(2))
  ultimately show ?thesis using q1(1) cap d(2) by (auto simp: q2_def)
qed

text \<open>The timers due at an instant, as pairs of slot and deadline.\<close>

definition due_timers :: "tr_timer_queue \<Rightarrow> u64 \<Rightarrow> (u32 \<times> u64) set" where
  "due_timers q now_ns = {(s, d). d \<noteq> 0 \<and> d \<le> now_ns \<and> (\<exists>g. timers q s = Some (g, d))}"

definition timer_key :: "u32 \<times> u64 \<Rightarrow> u64 \<times> u32" where
  "timer_key r = (snd r, fst r)"

lemma timer_key_inj: "timer_key r = timer_key r' \<longleftrightarrow> r = r'"
  by (auto simp: timer_key_def prod_eq_iff)

lemma due_root:
  assumes "timer_inv q"
  shows "due_timers q now_ns = {} \<longleftrightarrow> tq_size q = 0 \<or> now_ns < te_deadline_ns (tq_entry q (tq_heap q ! 0))"
    and "\<not> (tq_size q = 0 \<or> now_ns < te_deadline_ns (tq_entry q (tq_heap q ! 0))) \<Longrightarrow>
      (tq_heap q ! 0, te_deadline_ns (tq_entry q (tq_heap q ! 0))) \<in> due_timers q now_ns"
    and "r \<in> due_timers q now_ns \<Longrightarrow>
      timer_key (tq_heap q ! 0, te_deadline_ns (tq_entry q (tq_heap q ! 0))) \<le> timer_key r"
proof -
  let ?r = "(tq_heap q ! 0, te_deadline_ns (tq_entry q (tq_heap q ! 0)))"
  note e = earliest [OF assms]
  show least: "timer_key ?r \<le> timer_key r" if r: "r \<in> due_timers q now_ns" for r
  proof -
    obtain s d g where "r = (s, d)" and d: "timers q s = Some (g, d)" "d \<noteq> 0" using r by (auto simp: due_timers_def)
    then show ?thesis unfolding timer_key_def fst_conv snd_conv using e(4) [OF d] by simp
  qed
  show root: "\<not> (tq_size q = 0 \<or> now_ns < te_deadline_ns (tq_entry q (tq_heap q ! 0))) \<Longrightarrow> ?r \<in> due_timers q now_ns"
    using e(2,3) by (auto simp: due_timers_def)
  have "tq_size q \<noteq> 0 \<and> te_deadline_ns (tq_entry q (tq_heap q ! 0)) \<le> now_ns" if r: "r \<in> due_timers q now_ns" for r
  proof -
    obtain s d g where "d \<le> now_ns" and d: "timers q s = Some (g, d)" "d \<noteq> 0" using r by (auto simp: due_timers_def)
    moreover have "te_deadline_ns (tq_entry q (tq_heap q ! 0)) \<le> d"
      using e(4) [OF d] by (auto simp: less_eq_prod_def)
    ultimately show ?thesis using e(1) by auto
  qed
  then show "due_timers q now_ns = {} \<longleftrightarrow> tq_size q = 0 \<or> now_ns < te_deadline_ns (tq_entry q (tq_heap q ! 0))"
    using root by fastforce
qed

definition callbacks_use_api :: "timer_callbacks \<Rightarrow> bool" where
  "callbacks_use_api cb \<longleftrightarrow> (\<forall>f arg now_ns q. timer_inv q \<longrightarrow> timer_ops q (fst (cb f arg now_ns q)))"

lemma run_one_effect:
  assumes "timer_inv q" and "tq_size q \<noteq> 0" and "callbacks_use_api cb"
  shows "\<exists>q'. tq_run_one cb now_ns q = Some ((tq_heap q ! 0, te_deadline_ns (tq_entry q (tq_heap q ! 0))), q') \<and>
    timer_inv q' \<and> tq_capacity q' = tq_capacity q"
proof -
  let ?s = "tq_heap q ! 0"
  let ?e = "tq_entry q ?s"
  obtain q1 where q1: "tr_timer_heap_remove q 0 = Some q1" and
    q2: "timer_inv (tq_set_entry ?s ((tq_entry q1 ?s)\<lparr>te_deadline_ns := 0, te_running := True\<rparr>) q1)" (is "timer_inv ?q2")
    and c: "tq_capacity q1 = tq_capacity q" "unat ?s < unat (tq_capacity q)"
    using take_root [OF assms(1,2)] by blast
  define r where "r = (case te_callback ?e of None \<Rightarrow> (?q2, 0) | Some f \<Rightarrow> cb f (te_arg ?e) now_ns ?q2)"
  have "timer_ops ?q2 (fst r)"
    using assms(3) q2 by (cases "te_callback ?e") (auto simp: r_def callbacks_use_api_def timer_ops.idle)
  then have q3: "timer_inv (fst r)" "tq_capacity (fst r) = tq_capacity q" using timer_ops_inv q2 c(1) by auto
  obtain q' where "tq_after_callback (fst r) \<lparr>tt_slot = ?s, tt_generation = te_generation ?e\<rparr> (te_version ?e) (snd r) = Some q'"
    "timer_inv q'" "tq_capacity q' = tq_capacity q"
    using after_callback_effect [OF q3(1), of "\<lparr>tt_slot = ?s, tt_generation = te_generation ?e\<rparr>"] q3(2) c(2) by auto
  then show ?thesis using q1 by (simp add: tq_run_one_def Let_def r_def [symmetric] split_beta)
qed

lemma run_loop_effect:
  assumes "callbacks_use_api cb"
  shows "timer_inv q \<Longrightarrow> \<exists>rs q'. tq_run_loop cb now_ns n q = Some (rs, q') \<and> timer_inv q' \<and> length rs \<le> n \<and>
    (\<forall>r\<in>set rs. snd r \<noteq> 0 \<and> snd r \<le> now_ns) \<and> (length rs < n \<longrightarrow> due_timers q' now_ns = {}) \<and>
    (0 < n \<longrightarrow> due_timers q now_ns \<noteq> {} \<longrightarrow> rs \<noteq> [] \<and> hd rs \<in> due_timers q now_ns \<and>
       (\<forall>r\<in>due_timers q now_ns. timer_key (hd rs) \<le> timer_key r))"
proof (induction n arbitrary: q)
  case (Suc n)
  note root = due_root [OF Suc.prems, where now_ns = now_ns]
  show ?case
  proof (cases "tq_size q = 0 \<or> now_ns < te_deadline_ns (tq_entry q (tq_heap q ! 0))")
    case True
    then show ?thesis using Suc.prems root(1) by simp
  next
    case False
    let ?r = "(tq_heap q ! 0, te_deadline_ns (tq_entry q (tq_heap q ! 0)))"
    obtain q1 where q1: "tq_run_one cb now_ns q = Some (?r, q1)" "timer_inv q1"
      using run_one_effect [OF Suc.prems _ assms] False by blast
    from Suc.IH [OF q1(2)] obtain rs q' where "tq_run_loop cb now_ns n q1 = Some (rs, q')" "timer_inv q'" "length rs \<le> n"
      "\<forall>r\<in>set rs. snd r \<noteq> 0 \<and> snd r \<le> now_ns" "length rs < n \<longrightarrow> due_timers q' now_ns = {}" by blast
    moreover have "snd ?r \<noteq> 0" "snd ?r \<le> now_ns" using root(2) [OF False] by (auto simp: due_timers_def)
    ultimately show ?thesis using False q1(1) root(2,3) by auto
  qed
qed simp

text \<open>With callbacks that neither touch the queue nor ask to be run again, the due timers are run in the order of
  deadline and slot.\<close>

abbreviation (input) one_shot :: timer_callbacks where "one_shot \<equiv> \<lambda>f arg now_ns q. (q, 0)"

lemma run_one_shot:
  assumes "timer_inv q" and "tq_size q \<noteq> 0"
  shows "\<exists>q'. tq_run_one one_shot now_ns q = Some ((tq_heap q ! 0, te_deadline_ns (tq_entry q (tq_heap q ! 0))), q') \<and>
    timer_inv q' \<and> timers q' = (timers q)(tq_heap q ! 0 \<mapsto> (te_generation (tq_entry q (tq_heap q ! 0)), 0))"
proof -
  let ?s = "tq_heap q ! 0"
  let ?e = "tq_entry q ?s"
  let ?run = "\<lambda>q1. tq_set_entry ?s ((tq_entry q1 ?s)\<lparr>te_deadline_ns := 0, te_running := True\<rparr>) q1"
  obtain q1 where q1: "tr_timer_heap_remove q 0 = Some q1" and q2: "timer_inv (?run q1)"
    and c: "unat ?s < unat (tq_capacity (?run q1))" and t: "timers (?run q1) = (timers q)(?s \<mapsto> (te_generation ?e, 0))"
    using take_root [OF assms] by auto
  let ?q2 = "?run q1"
  have r: "(case te_callback ?e of None \<Rightarrow> (?q2, 0) | Some f \<Rightarrow> one_shot f (te_arg ?e) now_ns ?q2) = (?q2, 0)"
    by (simp split: option.split)
  obtain q' where "tq_after_callback ?q2 \<lparr>tt_slot = ?s, tt_generation = te_generation ?e\<rparr> (te_version ?e) 0 = Some q'"
    "timer_inv q'" "timers q' = timers ?q2"
    using after_callback_effect [OF q2, of "\<lparr>tt_slot = ?s, tt_generation = te_generation ?e\<rparr>" "te_version ?e" 0] c by auto
  then show ?thesis using q1 t unfolding tq_run_one_def Let_def by (simp add: r split_beta)
qed

lemma one_shot_loop:
  "timer_inv q \<Longrightarrow> \<exists>rs q'. tq_run_loop one_shot now_ns n q = Some (rs, q') \<and> timer_inv q' \<and>
     sorted_wrt (\<lambda>r r'. timer_key r < timer_key r') rs \<and> set rs \<inter> due_timers q' now_ns = {} \<and>
     due_timers q now_ns = set rs \<union> due_timers q' now_ns \<and> (length rs < n \<longrightarrow> due_timers q' now_ns = {}) \<and>
     (\<forall>r\<in>set rs. \<forall>r'\<in>due_timers q' now_ns. timer_key r < timer_key r')"
proof (induction n arbitrary: q)
  case (Suc n)
  note root = due_root [OF Suc.prems, where now_ns = now_ns]
  show ?case
  proof (cases "tq_size q = 0 \<or> now_ns < te_deadline_ns (tq_entry q (tq_heap q ! 0))")
    case True
    then show ?thesis using Suc.prems root(1) by simp
  next
    case False
    let ?r = "(tq_heap q ! 0, te_deadline_ns (tq_entry q (tq_heap q ! 0)))"
    obtain q1 where q1: "tq_run_one one_shot now_ns q = Some (?r, q1)" "timer_inv q1"
      and t1: "timers q1 = (timers q)(tq_heap q ! 0 \<mapsto> (te_generation (tq_entry q (tq_heap q ! 0)), 0))"
      using run_one_shot [OF Suc.prems, of now_ns] False by blast
    have tq: "timers q (tq_heap q ! 0) = Some (te_generation (tq_entry q (tq_heap q ! 0)), snd ?r)"
      using earliest(2) [OF Suc.prems] False by simp
    have d: "due_timers q1 now_ns = due_timers q now_ns - {?r}"
      using t1 tq by (auto simp: due_timers_def split: if_splits)
    have mem: "?r \<in> due_timers q now_ns" by (rule root(2) [OF False])
    have less: "timer_key ?r < timer_key r" if "r \<in> due_timers q1 now_ns" for r
      using that root(3) [of r] d unfolding order.strict_iff_order timer_key_inj by blast
    from Suc.IH [OF q1(2)] obtain rs q' where *: "tq_run_loop one_shot now_ns n q1 = Some (rs, q')" "timer_inv q'"
      "sorted_wrt (\<lambda>r r'. timer_key r < timer_key r') rs" "set rs \<inter> due_timers q' now_ns = {}"
      "due_timers q1 now_ns = set rs \<union> due_timers q' now_ns" "length rs < n \<longrightarrow> due_timers q' now_ns = {}"
      "\<forall>r\<in>set rs. \<forall>r'\<in>due_timers q' now_ns. timer_key r < timer_key r'" by blast
    have "tq_run_loop one_shot now_ns (Suc n) q = Some (?r # rs, q')" using False q1(1) *(1) by simp
    moreover have "due_timers q now_ns = set (?r # rs) \<union> due_timers q' now_ns" using d mem *(5) by auto
    moreover have "set (?r # rs) \<inter> due_timers q' now_ns = {}" using d *(4,5) by auto
    moreover have "sorted_wrt (\<lambda>r r'. timer_key r < timer_key r') (?r # rs)"
      "\<forall>r\<in>set (?r # rs). \<forall>r'\<in>due_timers q' now_ns. timer_key r < timer_key r'" using *(3,5,7) less by auto
    ultimately show ?thesis using *(2,6) by (intro exI [of _ "?r # rs"] exI [of _ q']) simp
  qed
qed simp

section \<open>A queue to apply the properties to\<close>

text \<open>Two slots: slot 0 has a timer armed for instant 5, slot 1 is free.\<close>

definition demo_entry :: tr_timer_entry where
  "demo_entry = \<lparr>te_generation = 1, te_link = 0, te_deadline_ns = 5, te_version = 2,
     te_callback = Some 7, te_arg = None, te_used = True, te_running = False\<rparr>"

definition demo_free :: tr_timer_entry where
  "demo_free = timer_entry_zero\<lparr>te_link := TR_TIMER_HEAP_NONE\<rparr>"

definition demo_queue :: tr_timer_queue where
  "demo_queue = \<lparr>tq_entries = [demo_entry, demo_free], tq_heap = [0, 0], tq_capacity = 2, tq_size = 1, tq_free_head = 1\<rparr>"

lemma demo_entries: "tq_entry demo_queue 0 = demo_entry" "tq_entry demo_queue 1 = demo_free"
  "tq_heap demo_queue = [0, 0]" "tq_size demo_queue = 1" "tq_capacity demo_queue = 2" "tq_free_head demo_queue = 1"
  by (simp_all add: demo_queue_def tq_entry_def)

lemma demo_slots: "unat (s :: u32) < 2 \<longleftrightarrow> s = 0 \<or> s = 1"
  by (simp add: less_2_cases_iff word_unat_eq_iff)

lemma demo_armed: "armed_slots demo_queue = {0}"
  by (auto simp: armed_slots_def demo_entries)

lemma demo_queue_inv: "timer_inv demo_queue"
proof -
  have "free_slots demo_queue = {1}"
    by (auto simp: free_slots_def demo_entries demo_slots demo_entry_def demo_free_def timer_entry_zero_def)
  then have "free_ok demo_queue"
    unfolding free_ok_def by (intro exI [of _ "[1]"]) (simp add: demo_entries demo_free_def)
  then have "entries_ok {} demo_queue"
    by (auto simp: entries_ok_def demo_armed demo_entries demo_slots demo_entry_def demo_free_def timer_entry_zero_def)
  moreover have "timer_heap demo_queue"
    by (simp add: timer_heap_def pos_ok_def arrays_ok_def heap_ok_def demo_entries demo_entry_def) (simp add: demo_queue_def)
  ultimately show ?thesis by (simp add: timer_inv_def)
qed

abbreviation (input) demo_token :: tr_timer_token where "demo_token \<equiv> \<lparr>tt_slot = 0, tt_generation = 1\<rparr>"

lemma demo_token_valid: "tr_timer_token_valid (Some demo_queue) demo_token"
  by (simp add: token_valid_iff demo_entries demo_entry_def)

lemma demo_due: "due_timers demo_queue 6 = {(0, 5)}"
  by (auto simp: due_timers_def timers_def demo_entries demo_slots demo_entry_def demo_free_def timer_entry_zero_def
    split: if_splits)

section \<open>Properties\<close>

text \<open>C9: a timer queue is a map from slots to generations and deadlines. A new queue is empty; registering
  takes a slot that is not in use, with a fresh generation, and is refused with TR_AGAIN exactly when
  every slot is taken; arming with a current token stores the deadline (0 disarms) and unregistering
  removes the timer; both always return, whatever the heap looks like, and every operation keeps the
  invariant of heap, back pointers and free list.\<close>

theorem timer_queue_refines_map:
  assumes "0 < unat capacity" and "unat capacity < 2 ^ 31" and "timer_inv q"
  shows "(\<exists>q. tr_timer_queue_init True True (Some q0) capacity = (TR_OK, Some q) \<and> timer_inv q \<and> timers q = Map.empty) \<and>
    (if \<forall>s. unat s < unat (tq_capacity q) \<longrightarrow> timers q s \<noteq> None
     then tr_timer_queue_register (Some q) (Some f) arg (Some out) = (TR_AGAIN, Some q, Some out)
     else \<exists>q' s g. tr_timer_queue_register (Some q) (Some f) arg (Some out) =
          (TR_OK, Some q', Some \<lparr>tt_slot = s, tt_generation = g\<rparr>) \<and>
        timers q s = None \<and> g \<noteq> 0 \<and> timer_inv q' \<and> timers q' = (timers q)(s \<mapsto> (g, 0))) \<and>
    (if tr_timer_token_valid (Some q) token
     then (\<exists>q'. tr_timer_queue_arm (Some q) token d = Some (TR_OK, Some q') \<and> timer_inv q' \<and>
          timers q' = (timers q)(tt_slot token \<mapsto> (tt_generation token, d))) \<and>
       (\<exists>q'. tr_timer_queue_unregister (Some q) token = Some (TR_OK, Some q') \<and> timer_inv q' \<and>
          timers q' = (timers q)(tt_slot token := None))
     else tr_timer_queue_arm (Some q) token d = Some (TR_ERR_STALE, Some q) \<and>
       tr_timer_queue_unregister (Some q) token = Some (TR_ERR_STALE, Some q))"
proof -
  have free: "(\<forall>s. unat s < unat (tq_capacity q) \<longrightarrow> timers q s \<noteq> None) \<longleftrightarrow> free_slots q = {}"
    by (auto simp: free_slots_def timers_def)
  have none: "timers q s = None" if "s \<in> free_slots q" for s using that by (simp add: free_slots_def timers_def)
  have "tr_timer_queue_register (Some q) (Some f) arg (Some out) = (TR_AGAIN, Some q, Some out)" if "free_slots q = {}"
    using register_effect(1) [OF assms(3), of "Some f" arg out] that by simp
  moreover have "\<exists>q' s g. tr_timer_queue_register (Some q) (Some f) arg (Some out) =
          (TR_OK, Some q', Some \<lparr>tt_slot = s, tt_generation = g\<rparr>) \<and>
        timers q s = None \<and> g \<noteq> 0 \<and> timer_inv q' \<and> timers q' = (timers q)(s \<mapsto> (g, 0))" if "free_slots q \<noteq> {}"
    using register_effect(2) [OF assms(3), of "Some f" arg out] that none by (metis option.distinct(1))
  moreover have "tr_timer_queue_arm (Some q) token d = Some (TR_ERR_STALE, Some q) \<and>
       tr_timer_queue_unregister (Some q) token = Some (TR_ERR_STALE, Some q)" if "\<not> tr_timer_token_valid (Some q) token"
    using that by (simp add: tr_timer_queue_arm_def tr_timer_queue_unregister_def)
  ultimately show ?thesis
    unfolding free using init_effect [OF assms(1,2), of q0] arm_effect [OF assms(3), of token d] unregister_effect [OF assms(3), of token]
    by (simp del: split_paired_Ex) blast
qed

theorem timer_queue_refines_map_witness:
  "unat (4 :: u32) < 2 ^ 31 \<and> timer_inv demo_queue \<and> tr_timer_token_valid (Some demo_queue) demo_token \<and>
   (\<exists>q'. tr_timer_queue_arm (Some demo_queue) demo_token 9 = Some (TR_OK, Some q') \<and> timer_inv q' \<and>
      timers q' = (timers demo_queue)(0 \<mapsto> (1, 9)))"
  using timer_queue_refines_map [of 4 demo_queue timer_queue_zero 7 None demo_token demo_token 9] demo_queue_inv demo_token_valid
  by simp

text \<open>C33: the next deadline is 0 exactly when no timer is armed, and otherwise the least deadline of an armed
  timer.\<close>

theorem timer_next_deadline_least:
  assumes "timer_inv q"
  shows "(if \<forall>s g d. timers q s = Some (g, d) \<longrightarrow> d = 0 then tr_timer_queue_next_deadline (Some q) = 0
     else tr_timer_queue_next_deadline (Some q) \<noteq> 0 \<and>
       (\<exists>s g. timers q s = Some (g, tr_timer_queue_next_deadline (Some q))) \<and>
       (\<forall>s g d. timers q s = Some (g, d) \<longrightarrow> d \<noteq> 0 \<longrightarrow> tr_timer_queue_next_deadline (Some q) \<le> d))"
proof (cases "tq_size q = 0")
  case True
  then show ?thesis using earliest(1) [OF assms] by (simp add: tr_timer_queue_next_deadline_def)
next
  case False
  have "te_deadline_ns (tq_entry q (tq_heap q ! 0)) \<le> d" if "timers q s = Some (g, d)" "d \<noteq> 0" for s g d
    using earliest(4) [OF assms that] by (auto simp: less_eq_prod_def)
  then show ?thesis
    using False earliest(1,2,3) [OF assms] by (simp add: tr_timer_queue_next_deadline_def) blast
qed

theorem timer_next_deadline_least_witness:
  "timer_inv demo_queue \<and> timers demo_queue 0 = Some (1, 5) \<and> tr_timer_queue_next_deadline (Some demo_queue) \<noteq> 0 \<and>
   tr_timer_queue_next_deadline (Some demo_queue) \<le> 5"
proof -
  have t: "timers demo_queue 0 = Some (1, 5)" by (simp add: timers_def demo_entries demo_entry_def)
  have "\<not> (\<forall>s g d. timers demo_queue s = Some (g, d) \<longrightarrow> d = 0)" using t by fastforce
  then show ?thesis using timer_next_deadline_least [OF demo_queue_inv] t demo_queue_inv by (simp del: not_all not_ex)
qed

text \<open>C32: a token is refused once its timer has been unregistered, also after the slot has been handed out
  again: the registration that takes the slot bumps the generation.\<close>

theorem timer_stale_token_refused:
  assumes "timer_inv q" and "tr_timer_token_valid (Some q) token"
    and "tr_timer_queue_unregister (Some q) token = Some (st, Some q1)"
    and "tr_timer_queue_register (Some q1) (Some f) arg (Some out) = (TR_OK, Some q2, Some token2)"
  shows "st = TR_OK \<and> \<not> tr_timer_token_valid (Some q1) token \<and> \<not> tr_timer_token_valid (Some q2) token \<and>
    tr_timer_token_valid (Some q2) token2 \<and>
    tr_timer_queue_arm (Some q2) token d = Some (TR_ERR_STALE, Some q2) \<and>
    tr_timer_queue_unregister (Some q2) token = Some (TR_ERR_STALE, Some q2)"
proof -
  from unregister_effect [OF assms(1,2)] assms(3) have u: "st = TR_OK" "timer_inv q1"
      "timers q1 = (timers q)(tt_slot token := None)" "te_generation (tq_entry q1 (tt_slot token)) = tt_generation token"
    by auto
  have ne: "free_slots q1 \<noteq> {}" using register_effect(1) [OF u(2), of "Some f" arg out] assms(4) by auto
  from register_effect(2) [OF u(2) _ ne, of "Some f" arg out] assms(4) obtain s g where
    r: "token2 = \<lparr>tt_slot = s, tt_generation = g\<rparr>" "g \<noteq> te_generation (tq_entry q1 s)" "timers q2 = (timers q1)(s \<mapsto> (g, 0))"
    by auto
  have "\<not> tr_timer_token_valid (Some q2) token" using r u(3,4) by (auto simp: token_valid_timers split: if_splits)
  moreover have "tr_timer_token_valid (Some q2) token2" using r by (simp add: token_valid_timers)
  moreover have "\<not> tr_timer_token_valid (Some q1) token" using u(3) by (simp add: token_valid_timers)
  ultimately show ?thesis using u(1) by (simp add: tr_timer_queue_arm_def tr_timer_queue_unregister_def)
qed

theorem timer_stale_token_refused_witness:
  "\<exists>q1 q2 token2. tr_timer_queue_unregister (Some demo_queue) demo_token = Some (TR_OK, Some q1) \<and>
     tr_timer_queue_register (Some q1) (Some 8) None (Some demo_token) = (TR_OK, Some q2, Some token2) \<and>
     tr_timer_queue_arm (Some q2) demo_token 9 = Some (TR_ERR_STALE, Some q2)"
proof -
  obtain q1 where u: "tr_timer_queue_unregister (Some demo_queue) demo_token = Some (TR_OK, Some q1)" "timer_inv q1"
      "timers q1 = (timers demo_queue)(0 := None)" "tq_capacity q1 = 2"
    using unregister_effect [OF demo_queue_inv demo_token_valid] by (auto simp: demo_entries)
  have "timers q1 0 = None" using u(3) by simp
  then have "0 \<in> free_slots q1" using u(4) by (simp add: free_slots_def timers_def split: if_splits)
  then have "free_slots q1 \<noteq> {}" by blast
  then obtain q2 token2 where r: "tr_timer_queue_register (Some q1) (Some 8) None (Some demo_token) = (TR_OK, Some q2, Some token2)"
    using register_effect(2) [OF u(2), of "Some 8" None demo_token] by auto
  show ?thesis
    using timer_stale_token_refused [OF demo_queue_inv demo_token_valid u(1) r, of 9] u(1) r by blast
qed

text \<open>C16: running the due timers always returns, whatever the callbacks do through the public operations: at
  most \<open>max_callbacks\<close> timers are run, each of them due and the first of them the earliest; the result
  counts them and reports exactly whether a due timer is left, none being left when fewer than
  \<open>max_callbacks\<close> were run.\<close>

theorem timer_run_due_exact:
  assumes "timer_inv q" and "callbacks_use_api cb"
  shows "\<exists>n q' rs. tr_timer_queue_run_due cb (Some q) now_ns max_callbacks (Some b) =
        Some (n, Some q', Some (due_timers q' now_ns \<noteq> {}), rs) \<and>
      timer_inv q' \<and> unat n = length rs \<and> length rs \<le> unat max_callbacks \<and>
      list_all (\<lambda>r. snd r \<noteq> 0 \<and> snd r \<le> now_ns) rs \<and>
      (length rs < unat max_callbacks \<longrightarrow> due_timers q' now_ns = {}) \<and>
      (max_callbacks \<noteq> 0 \<longrightarrow> due_timers q now_ns \<noteq> {} \<longrightarrow> rs \<noteq> [] \<and> hd rs \<in> due_timers q now_ns \<and>
        (\<forall>r\<in>due_timers q now_ns. timer_key (hd rs) \<le> timer_key r))"
proof -
  from run_loop_effect [OF assms(2,1), of now_ns "unat max_callbacks"] obtain rs q' where
    r: "tq_run_loop cb now_ns (unat max_callbacks) q = Some (rs, q')" "timer_inv q'" "length rs \<le> unat max_callbacks"
      "\<forall>r\<in>set rs. snd r \<noteq> 0 \<and> snd r \<le> now_ns" "length rs < unat max_callbacks \<longrightarrow> due_timers q' now_ns = {}"
      "0 < unat max_callbacks \<longrightarrow> due_timers q now_ns \<noteq> {} \<longrightarrow> rs \<noteq> [] \<and> hd rs \<in> due_timers q now_ns \<and>
       (\<forall>r\<in>due_timers q now_ns. timer_key (hd rs) \<le> timer_key r)" by (elim exE conjE) (rule that)
  have "(tq_size q' \<noteq> 0 \<and> te_deadline_ns (tq_entry q' (tq_heap q' ! 0)) \<le> now_ns) = (due_timers q' now_ns \<noteq> {})"
    using due_root(1) [OF r(2), of now_ns] by auto
  then have "tr_timer_queue_run_due cb (Some q) now_ns max_callbacks (Some b) =
      Some (of_nat (length rs), Some q', Some (due_timers q' now_ns \<noteq> {}), rs)"
    using r(1) by (simp add: tr_timer_queue_run_due_def Let_def)
  moreover have "unat (of_nat (length rs) :: size_t) = length rs"
    using r(3) unat_lt_2p [of max_callbacks] by (simp add: unat_of_nat)
  ultimately show ?thesis using r(2-6) by (auto simp: list_all_iff word_neq_0_unat)
qed

theorem timer_run_due_exact_witness:
  "timer_inv demo_queue \<and> callbacks_use_api one_shot \<and> due_timers demo_queue 6 = {(0, 5)} \<and>
   (\<exists>n q' b rs. tr_timer_queue_run_due one_shot (Some demo_queue) 6 3 (Some False) = Some (n, Some q', Some b, rs) \<and>
      rs \<noteq> [] \<and> hd rs = (0, 5))"
proof -
  have cb: "callbacks_use_api one_shot" by (simp add: callbacks_use_api_def timer_ops.idle)
  show ?thesis
    using timer_run_due_exact [OF demo_queue_inv cb, of 6 3 False] demo_queue_inv cb demo_due by fastforce
qed

text \<open>C31: with callbacks that leave the queue alone and do not ask to be run again, the timers that were due are
  run exactly once, in the order of deadline and slot; with room for all of them none is left.\<close>

theorem timer_run_due_order:
  assumes "timer_inv q"
  shows "\<exists>n q' b' rs. tr_timer_queue_run_due one_shot (Some q) now_ns max_callbacks (Some b) = Some (n, Some q', Some b', rs) \<and>
      timer_inv q' \<and> sorted_wrt (\<lambda>r r'. timer_key r < timer_key r') rs \<and>
      due_timers q now_ns = set rs \<union> due_timers q' now_ns \<and> set rs \<inter> due_timers q' now_ns = {} \<and>
      (length rs < unat max_callbacks \<longrightarrow> set rs = due_timers q now_ns) \<and>
      (\<forall>r\<in>set rs. \<forall>r'\<in>due_timers q' now_ns. timer_key r < timer_key r')"
proof -
  from one_shot_loop [OF assms, of now_ns "unat max_callbacks"] obtain rs q' where
    r: "tq_run_loop one_shot now_ns (unat max_callbacks) q = Some (rs, q')" "timer_inv q'"
       "sorted_wrt (\<lambda>r r'. timer_key r < timer_key r') rs" "set rs \<inter> due_timers q' now_ns = {}"
       "due_timers q now_ns = set rs \<union> due_timers q' now_ns" "length rs < unat max_callbacks \<longrightarrow> due_timers q' now_ns = {}"
       "\<forall>r\<in>set rs. \<forall>r'\<in>due_timers q' now_ns. timer_key r < timer_key r'" by blast
  then show ?thesis by (auto simp: tr_timer_queue_run_due_def Let_def)
qed

theorem timer_run_due_order_witness:
  "timer_inv demo_queue \<and>
   (\<exists>n q' b rs. tr_timer_queue_run_due one_shot (Some demo_queue) 6 3 (Some False) = Some (n, Some q', Some b, rs) \<and>
      set rs \<union> due_timers q' 6 = {(0, 5)})"
  using timer_run_due_order [OF demo_queue_inv, of 6 3 False] demo_queue_inv demo_due by metis

end
