(* ===== verification/Tr_Rpc_Record.thy ===== *)
theory Tr_Rpc_Record
  imports Tr_Status Tr_Endian
begin

text \<open>
  The RPC call record, \<open>src/rpc/rpc_record.c\<close> and \<open>src/rpc/rpc_record.h\<close>, and the RAW byte codec of
  \<open>src/rpc/rpc_codec.c\<close>.

  A record is a 48-byte header followed by metadata and an encoded body. The model has the header
  codec with its validation, the decoder of one whole record out of a byte stream, and the per-call
  state machine that decides which records may follow which. The enumerations are unsigned integers:
  the code casts wire values to them before it checks the range. A borrowed pointer into the input
  is the offset of the byte it points to.

  Shown here: the header codec round trip, that decoding a stream of concatenated records consumes
  exactly one record and that every proper prefix asks for more input, and that every accepted
  sequence of records of a call has the shape the RPC contract describes.
\<close>

abbreviation (input) TR_RPC_RECORD_VERSION :: u16 where "TR_RPC_RECORD_VERSION \<equiv> 2"
abbreviation (input) TR_RPC_RECORD_HEADER_SIZE :: nat where "TR_RPC_RECORD_HEADER_SIZE \<equiv> 48"
abbreviation (input) TR_RPC_METADATA_MAX_BYTES :: u32 where "TR_RPC_METADATA_MAX_BYTES \<equiv> 512"
abbreviation (input) TR_RPC_STATUS_OK :: u32 where "TR_RPC_STATUS_OK \<equiv> 0"
abbreviation (input) TR_RPC_STATUS_COUNT :: u32 where "TR_RPC_STATUS_COUNT \<equiv> 17"
abbreviation (input) TR_RPC_RECORD_OPEN :: u32 where "TR_RPC_RECORD_OPEN \<equiv> 1"
abbreviation (input) TR_RPC_RECORD_INITIAL_METADATA :: u32 where "TR_RPC_RECORD_INITIAL_METADATA \<equiv> 2"
abbreviation (input) TR_RPC_RECORD_MESSAGE :: u32 where "TR_RPC_RECORD_MESSAGE \<equiv> 3"
abbreviation (input) TR_RPC_RECORD_HALF_CLOSE :: u32 where "TR_RPC_RECORD_HALF_CLOSE \<equiv> 4"
abbreviation (input) TR_RPC_RECORD_FINAL_STATUS :: u32 where "TR_RPC_RECORD_FINAL_STATUS \<equiv> 5"
abbreviation (input) TR_RPC_RECORD_NONE :: u32 where "TR_RPC_RECORD_NONE \<equiv> 0"
abbreviation (input) TR_RPC_RECORD_ZSTD :: u32 where "TR_RPC_RECORD_ZSTD \<equiv> 1"
abbreviation (input) TR_RPC_RECORD_ACCEPT_NONE :: u32 where "TR_RPC_RECORD_ACCEPT_NONE \<equiv> 1"
abbreviation (input) TR_RPC_RECORD_ACCEPT_ZSTD :: u32 where "TR_RPC_RECORD_ACCEPT_ZSTD \<equiv> 2"
abbreviation (input) TR_RPC_ONE :: u32 where "TR_RPC_ONE \<equiv> 1"
abbreviation (input) TR_RPC_MANY :: u32 where "TR_RPC_MANY \<equiv> 2"
abbreviation (input) TR_RPC_RECORD_REQUEST_DIRECTION :: u32 where "TR_RPC_RECORD_REQUEST_DIRECTION \<equiv> 0"
abbreviation (input) TR_RPC_RECORD_RESPONSE_DIRECTION :: u32 where "TR_RPC_RECORD_RESPONSE_DIRECTION \<equiv> 1"

record tr_rpc_record_header =
  rh_kind :: u32
  rh_service_id :: u32
  rh_method_id :: u32
  rh_codec_id :: u32
  rh_compression :: u32
  rh_encoded_size :: u32
  rh_decoded_size :: u32
  rh_metadata_size :: u32
  rh_status :: u32
  rh_remaining_timeout_ns :: u64

record tr_rpc_record_limits =
  rl_max_encoded_size :: u32
  rl_max_decoded_size :: u32
  rl_max_metadata_size :: u32
  rl_accepted_compression :: u32

record tr_rpc_record_view =
  rv_header :: tr_rpc_record_header
  rv_metadata :: "nat option"
  rv_body :: "nat option"

section \<open>Validation and the header codec\<close>

definition tr_rpc_record_kind_valid :: "u32 \<Rightarrow> bool" where
  "tr_rpc_record_kind_valid kind \<longleftrightarrow> TR_RPC_RECORD_OPEN \<le> kind \<and> kind \<le> TR_RPC_RECORD_FINAL_STATUS"

definition tr_rpc_record_limits_valid :: "tr_rpc_record_limits option \<Rightarrow> bool" where
  "tr_rpc_record_limits_valid limits =
     (case limits of None \<Rightarrow> False
      | Some l \<Rightarrow> rl_max_metadata_size l \<le> TR_RPC_METADATA_MAX_BYTES \<and>
          rl_accepted_compression l AND TR_RPC_RECORD_ACCEPT_NONE \<noteq> 0 \<and>
          rl_accepted_compression l AND NOT (TR_RPC_RECORD_ACCEPT_NONE OR TR_RPC_RECORD_ACCEPT_ZSTD) = 0)"

text \<open>The size of the fixed part and the metadata, and the field checks that follow the length
  checks of \<open>tr_rpc_record_validate\<close>.\<close>

definition rpc_record_base_size :: "tr_rpc_record_header \<Rightarrow> size_t" where
  "rpc_record_base_size h = 48 + ucast (rh_metadata_size h)"

definition rpc_record_scope_checks :: "tr_rpc_record_header \<Rightarrow> tr_rpc_record_limits \<Rightarrow> tr_status" where
  "rpc_record_scope_checks h limits =
     (if rh_kind h \<noteq> TR_RPC_RECORD_OPEN \<and>
        (rh_service_id h \<noteq> 0 \<or> rh_method_id h \<noteq> 0 \<or> rh_remaining_timeout_ns h \<noteq> 0)
      then TR_ERR_BAD_FLAGS
      else if rh_kind h \<noteq> TR_RPC_RECORD_FINAL_STATUS \<and> rh_status h \<noteq> 0 then TR_ERR_BAD_FLAGS
      else if rh_kind h \<noteq> TR_RPC_RECORD_MESSAGE then
        (if rh_codec_id h \<noteq> 0 \<or> rh_compression h \<noteq> 0 \<or> rh_encoded_size h \<noteq> 0 \<or> rh_decoded_size h \<noteq> 0
         then TR_ERR_BAD_FLAGS
         else if rh_kind h = TR_RPC_RECORD_HALF_CLOSE \<and> rh_metadata_size h \<noteq> 0 then TR_ERR_BAD_FLAGS
         else if rh_kind h = TR_RPC_RECORD_FINAL_STATUS \<and> TR_RPC_STATUS_COUNT \<le> rh_status h
         then TR_ERR_BAD_TYPE
         else TR_OK)
      else
        (if rh_metadata_size h \<noteq> 0 then TR_ERR_BAD_FLAGS
         else if rh_codec_id h = 0 then TR_ERR_BAD_TYPE
         else if TR_RPC_RECORD_ZSTD < rh_compression h \<or>
           rl_accepted_compression limits AND push_bit (unat (rh_compression h)) 1 = 0
         then TR_ERR_UNSUPPORTED
         else if (rh_compression h = TR_RPC_RECORD_NONE \<and> rh_encoded_size h \<noteq> rh_decoded_size h) \<or>
           (rh_compression h \<noteq> TR_RPC_RECORD_NONE \<and> rh_encoded_size h = 0)
         then TR_ERR_BAD_LENGTH
         else TR_OK))"

definition tr_rpc_record_validate ::
  "tr_rpc_record_header option \<Rightarrow> tr_rpc_record_limits option \<Rightarrow> size_t \<Rightarrow> tr_status \<times> size_t" where
  "tr_rpc_record_validate header limits total_size =
     (case (header, limits) of
        (Some h, Some l) \<Rightarrow>
          if \<not> tr_rpc_record_limits_valid limits then (TR_ERR_INVALID, total_size)
          else if \<not> tr_rpc_record_kind_valid (rh_kind h) then (TR_ERR_BAD_TYPE, total_size)
          else if rl_max_metadata_size l < rh_metadata_size h \<or>
            rl_max_encoded_size l < rh_encoded_size h \<or> rl_max_decoded_size l < rh_decoded_size h
          then (TR_ERR_BAD_LENGTH, total_size)
          else
            let sz = rpc_record_base_size h in
            if SIZE_MAX - sz < ucast (rh_encoded_size h) then (TR_ERR_BAD_LENGTH, total_size)
            else
              let sz = sz + ucast (rh_encoded_size h);
                  ret = rpc_record_scope_checks h l
              in if ret \<noteq> TR_OK then (ret, total_size) else (TR_OK, sz)
      | _ \<Rightarrow> (TR_ERR_INVALID, total_size))"

definition rpc_record_magic :: "u8 list" where
  "rpc_record_magic = [0x54, 0x52, 0x50, 0x43]"

definition rpc_record_header_bytes :: "tr_rpc_record_header \<Rightarrow> u8 list" where
  "rpc_record_header_bytes h =
     poke 40 (tr_put_le64 (rh_remaining_timeout_ns h))
     (poke 36 (tr_put_le32 (rh_status h))
     (poke 32 (tr_put_le32 (rh_metadata_size h))
     (poke 28 (tr_put_le32 (rh_decoded_size h))
     (poke 24 (tr_put_le32 (rh_encoded_size h))
     (poke 20 (tr_put_le32 (rh_compression h))
     (poke 16 (tr_put_le32 (rh_codec_id h))
     (poke 12 (tr_put_le32 (rh_method_id h))
     (poke 8 (tr_put_le32 (rh_service_id h))
     (poke 6 (tr_put_le16 (ucast (rh_kind h)))
     (poke 4 (tr_put_le16 TR_RPC_RECORD_VERSION)
     (poke 0 rpc_record_magic (replicate TR_RPC_RECORD_HEADER_SIZE 0))))))))))))"

definition tr_rpc_record_encode_header ::
  "u8 list option \<Rightarrow> size_t \<Rightarrow> tr_rpc_record_header option \<Rightarrow> tr_rpc_record_limits option \<Rightarrow>
    tr_status \<times> u8 list option" where
  "tr_rpc_record_encode_header out capacity header limits =
     (case out of None \<Rightarrow> (TR_ERR_INVALID, out)
      | Some dst \<Rightarrow>
          let (ret, total_size) = tr_rpc_record_validate header limits 0 in
          if ret \<noteq> TR_OK then (ret, out)
          else if capacity < 48 then (TR_ERR_BAD_LENGTH, out)
          else (TR_OK, Some (poke 0 (rpc_record_header_bytes (the header)) dst)))"

definition rpc_record_fields :: "u8 list \<Rightarrow> tr_rpc_record_header" where
  "rpc_record_fields data =
     \<lparr>rh_kind = ucast (tr_get_le16 (drop 6 data)),
      rh_service_id = tr_get_le32 (drop 8 data),
      rh_method_id = tr_get_le32 (drop 12 data),
      rh_codec_id = tr_get_le32 (drop 16 data),
      rh_compression = tr_get_le32 (drop 20 data),
      rh_encoded_size = tr_get_le32 (drop 24 data),
      rh_decoded_size = tr_get_le32 (drop 28 data),
      rh_metadata_size = tr_get_le32 (drop 32 data),
      rh_status = tr_get_le32 (drop 36 data),
      rh_remaining_timeout_ns = tr_get_le64 (drop 40 data)\<rparr>"

definition tr_rpc_record_decode_header ::
  "u8 list option \<Rightarrow> size_t \<Rightarrow> tr_rpc_record_limits option \<Rightarrow> tr_rpc_record_header option \<Rightarrow>
    size_t option \<Rightarrow> tr_status \<times> tr_rpc_record_header option \<times> size_t option" where
  "tr_rpc_record_decode_header data sz limits out record_size =
     (if (data = None \<and> sz \<noteq> 0) \<or> out = None \<or> record_size = None \<or>
        \<not> tr_rpc_record_limits_valid limits
      then (TR_ERR_INVALID, out, record_size)
      else if sz < 4 then (TR_AGAIN, out, record_size)
      else if peek 0 4 (the data) \<noteq> rpc_record_magic then (TR_ERR_BAD_MAGIC, out, record_size)
      else if sz < 6 then (TR_AGAIN, out, record_size)
      else if tr_get_le16 (drop 4 (the data)) \<noteq> TR_RPC_RECORD_VERSION
      then (TR_ERR_BAD_VERSION, out, record_size)
      else if sz < 8 then (TR_AGAIN, out, record_size)
      else if \<not> tr_rpc_record_kind_valid (ucast (tr_get_le16 (drop 6 (the data))))
      then (TR_ERR_BAD_TYPE, out, record_size)
      else if sz < 48 then (TR_AGAIN, out, record_size)
      else
        let h = rpc_record_fields (the data);
            (ret, total_size) = tr_rpc_record_validate (Some h) limits 0
        in if ret \<noteq> TR_OK then (ret, out, record_size) else (TR_OK, Some h, Some total_size))"

definition rpc_record_zero_header :: tr_rpc_record_header where
  "rpc_record_zero_header = \<lparr>rh_kind = 0, rh_service_id = 0, rh_method_id = 0, rh_codec_id = 0,
     rh_compression = 0, rh_encoded_size = 0, rh_decoded_size = 0, rh_metadata_size = 0,
     rh_status = 0, rh_remaining_timeout_ns = 0\<rparr>"

definition tr_rpc_record_decode ::
  "u8 list option \<Rightarrow> size_t \<Rightarrow> tr_rpc_record_limits option \<Rightarrow> tr_rpc_record_view option \<Rightarrow>
    size_t option \<Rightarrow> tr_status \<times> tr_rpc_record_view option \<times> size_t option" where
  "tr_rpc_record_decode data sz limits out consumed =
     (if out = None \<or> consumed = None then (TR_ERR_INVALID, out, consumed)
      else
        let (ret, header, total_size) =
              tr_rpc_record_decode_header data sz limits (Some rpc_record_zero_header) (Some 0)
        in if ret \<noteq> TR_OK then (ret, out, consumed)
        else if sz < the total_size then (TR_AGAIN, out, consumed)
        else
          let h = the header in
          (TR_OK,
           Some \<lparr>rv_header = h,
             rv_metadata = (if rh_metadata_size h \<noteq> 0 then Some 48 else None),
             rv_body = (if rh_encoded_size h \<noteq> 0 then Some (48 + unat (rh_metadata_size h)) else None)\<rparr>,
           total_size))"

section \<open>The call state machine\<close>

record tr_rpc_record_state =
  rs_request_cardinality :: u32
  rs_response_cardinality :: u32
  rs_request_messages :: u64
  rs_response_messages :: u64
  rs_final_status :: u32
  rs_initialized :: bool
  rs_opened :: bool
  rs_request_closed :: bool
  rs_response_headers :: bool
  rs_terminal :: bool

definition tr_rpc_record_cardinality_valid :: "u32 \<Rightarrow> bool" where
  "tr_rpc_record_cardinality_valid value \<longleftrightarrow> value = TR_RPC_ONE \<or> value = TR_RPC_MANY"

definition rpc_record_fresh_state :: "u32 \<Rightarrow> u32 \<Rightarrow> tr_rpc_record_state" where
  "rpc_record_fresh_state request response =
     \<lparr>rs_request_cardinality = request, rs_response_cardinality = response,
      rs_request_messages = 0, rs_response_messages = 0, rs_final_status = 0, rs_initialized = True,
      rs_opened = False, rs_request_closed = False, rs_response_headers = False, rs_terminal = False\<rparr>"

definition tr_rpc_record_state_init ::
  "tr_rpc_record_state option \<Rightarrow> u32 \<Rightarrow> u32 \<Rightarrow> tr_status \<times> tr_rpc_record_state option" where
  "tr_rpc_record_state_init state request response =
     (if state = None \<or> \<not> tr_rpc_record_cardinality_valid request \<or>
        \<not> tr_rpc_record_cardinality_valid response
      then (TR_ERR_INVALID, state)
      else (TR_OK, Some (rpc_record_fresh_state request response)))"

definition rpc_record_shape :: tr_rpc_record_limits where
  "rpc_record_shape = \<lparr>rl_max_encoded_size = UINT32_MAX, rl_max_decoded_size = UINT32_MAX,
     rl_max_metadata_size = TR_RPC_METADATA_MAX_BYTES,
     rl_accepted_compression = TR_RPC_RECORD_ACCEPT_NONE OR TR_RPC_RECORD_ACCEPT_ZSTD\<rparr>"

text \<open>The three branches of \<open>tr_rpc_record_state_apply\<close> on the copy \<open>next\<close>: before the call is
  opened, the request direction, the response direction. \<open>None\<close> is the return of
  \<open>TR_ERR_STATE\<close>, which leaves the state as it was.\<close>

definition rpc_apply_unopened ::
  "tr_rpc_record_state \<Rightarrow> u32 \<Rightarrow> tr_rpc_record_header \<Rightarrow> tr_rpc_record_state option" where
  "rpc_apply_unopened s direction r =
     (if rh_kind r = TR_RPC_RECORD_OPEN \<and> direction = TR_RPC_RECORD_REQUEST_DIRECTION
      then Some (s\<lparr>rs_opened := True\<rparr>)
      else if rh_kind r = TR_RPC_RECORD_FINAL_STATUS \<and> direction = TR_RPC_RECORD_RESPONSE_DIRECTION \<and>
        rh_status r \<noteq> TR_RPC_STATUS_OK
      then Some (s\<lparr>rs_terminal := True, rs_final_status := rh_status r\<rparr>)
      else None)"

definition rpc_apply_request ::
  "tr_rpc_record_state \<Rightarrow> tr_rpc_record_header \<Rightarrow> tr_rpc_record_state option" where
  "rpc_apply_request s r =
     (if rs_request_closed s then None
      else if rh_kind r = TR_RPC_RECORD_MESSAGE then
        (if rs_request_messages s = UINT64_MAX \<or>
            (rs_request_cardinality s = TR_RPC_ONE \<and> rs_request_messages s \<noteq> 0)
         then None
         else Some (s\<lparr>rs_request_messages := rs_request_messages s + 1\<rparr>))
      else if rh_kind r = TR_RPC_RECORD_HALF_CLOSE then
        (if rs_request_cardinality s = TR_RPC_ONE \<and> rs_request_messages s \<noteq> 1 then None
         else Some (s\<lparr>rs_request_closed := True\<rparr>))
      else None)"

definition rpc_apply_response ::
  "tr_rpc_record_state \<Rightarrow> tr_rpc_record_header \<Rightarrow> tr_rpc_record_state option" where
  "rpc_apply_response s r =
     (if rh_kind r = TR_RPC_RECORD_INITIAL_METADATA then
        (if rs_response_headers s then None else Some (s\<lparr>rs_response_headers := True\<rparr>))
      else if rh_kind r = TR_RPC_RECORD_MESSAGE then
        (if \<not> rs_response_headers s \<or> rs_response_messages s = UINT64_MAX \<or>
            (rs_response_cardinality s = TR_RPC_ONE \<and> rs_response_messages s \<noteq> 0)
         then None
         else Some (s\<lparr>rs_response_messages := rs_response_messages s + 1\<rparr>))
      else if rh_kind r = TR_RPC_RECORD_FINAL_STATUS then
        (if rh_status r = TR_RPC_STATUS_OK \<and>
            ((rs_request_cardinality s = TR_RPC_ONE \<and> rs_request_messages s \<noteq> 1) \<or>
             (rs_response_cardinality s = TR_RPC_ONE \<and> rs_response_messages s \<noteq> 1))
         then None
         else Some (s\<lparr>rs_terminal := True, rs_final_status := rh_status r\<rparr>))
      else None)"

definition tr_rpc_record_state_apply ::
  "tr_rpc_record_state option \<Rightarrow> u32 \<Rightarrow> tr_rpc_record_header option \<Rightarrow>
    tr_status \<times> tr_rpc_record_state option" where
  "tr_rpc_record_state_apply state direction header =
     (case (state, header) of
        (Some s, Some r) \<Rightarrow>
          if \<not> rs_initialized s \<or>
            (direction \<noteq> TR_RPC_RECORD_REQUEST_DIRECTION \<and> direction \<noteq> TR_RPC_RECORD_RESPONSE_DIRECTION)
          then (TR_ERR_INVALID, state)
          else if rs_terminal s then (TR_ERR_STATE, state)
          else
            let (ret, total_size) = tr_rpc_record_validate header (Some rpc_record_shape) 0 in
            if ret \<noteq> TR_OK then (ret, state)
            else
              (case (if \<not> rs_opened s then rpc_apply_unopened s direction r
                     else if direction = TR_RPC_RECORD_REQUEST_DIRECTION then rpc_apply_request s r
                     else rpc_apply_response s r) of
                 None \<Rightarrow> (TR_ERR_STATE, state)
               | Some s' \<Rightarrow> (TR_OK, Some s'))
      | _ \<Rightarrow> (TR_ERR_INVALID, state))"

text \<open>\<open>enum tr_rpc_status\<close> is compared as a signed value here.\<close>

definition tr_rpc_record_state_abort ::
  "tr_rpc_record_state option \<Rightarrow> int \<Rightarrow> tr_status \<times> tr_rpc_record_state option" where
  "tr_rpc_record_state_abort state status =
     (case state of None \<Rightarrow> (TR_ERR_INVALID, state)
      | Some s \<Rightarrow>
          if \<not> rs_initialized s \<or> status \<le> 0 \<or> 17 \<le> status then (TR_ERR_INVALID, state)
          else if rs_terminal s then (TR_ERR_STATE, state)
          else (TR_OK, Some (s\<lparr>rs_terminal := True, rs_final_status := word_of_int status\<rparr>)))"

section \<open>The RAW codec\<close>

record tr_rpc_bytes =
  rb_data :: "u8 list option"
  rb_len :: u32

definition tr_rpc_raw_encode ::
  "tr_rpc_bytes option \<Rightarrow> u8 list option \<Rightarrow> u32 \<Rightarrow> u32 option \<Rightarrow> tr_status \<times> u8 list option \<times> u32 option" where
  "tr_rpc_raw_encode input dst capacity written =
     (case (input, written) of
        (Some i, Some w) \<Rightarrow>
          if rb_len i \<noteq> 0 \<and> (rb_data i = None \<or> dst = None) then (TR_ERR_INVALID, dst, written)
          else if capacity < rb_len i then (TR_ERR_BAD_LENGTH, dst, written)
          else (TR_OK,
            (if rb_len i \<noteq> 0
             then Some (poke 0 (take (unat (rb_len i)) (the (rb_data i))) (the dst)) else dst),
            Some (rb_len i))
      | _ \<Rightarrow> (TR_ERR_INVALID, dst, written))"

definition tr_rpc_raw_decode ::
  "u8 list option \<Rightarrow> u32 \<Rightarrow> tr_rpc_bytes option \<Rightarrow> tr_status \<times> tr_rpc_bytes option" where
  "tr_rpc_raw_decode src len out =
     (if out = None \<or> (len \<noteq> 0 \<and> src = None) then (TR_ERR_INVALID, out)
      else (TR_OK, Some \<lparr>rb_data = src, rb_len = len\<rparr>))"

section \<open>The record contract\<close>

text \<open>What makes a header acceptable, by kind and without the order of the checks.\<close>

definition rpc_record_ok :: "tr_rpc_record_limits \<Rightarrow> tr_rpc_record_header \<Rightarrow> bool" where
  "rpc_record_ok l h \<longleftrightarrow>
     rh_kind h \<in> {1, 2, 3, 4, 5} \<and>
     rh_metadata_size h \<le> rl_max_metadata_size l \<and> rh_encoded_size h \<le> rl_max_encoded_size l \<and>
     rh_decoded_size h \<le> rl_max_decoded_size l \<and>
     (rh_kind h \<noteq> 1 \<longrightarrow> rh_service_id h = 0 \<and> rh_method_id h = 0 \<and> rh_remaining_timeout_ns h = 0) \<and>
     (if rh_kind h = 5 then rh_status h < 17 else rh_status h = 0) \<and>
     (rh_kind h = 4 \<longrightarrow> rh_metadata_size h = 0) \<and>
     (if rh_kind h = 3
      then rh_metadata_size h = 0 \<and> rh_codec_id h \<noteq> 0 \<and>
        (rh_compression h = 0 \<and> rh_encoded_size h = rh_decoded_size h \<or>
         rh_compression h = 1 \<and> rl_accepted_compression l AND 2 \<noteq> 0 \<and> rh_encoded_size h \<noteq> 0)
      else rh_codec_id h = 0 \<and> rh_compression h = 0 \<and> rh_encoded_size h = 0 \<and> rh_decoded_size h = 0)"

definition rpc_record_size :: "tr_rpc_record_header \<Rightarrow> nat" where
  "rpc_record_size h = 48 + unat (rh_metadata_size h) + unat (rh_encoded_size h)"

lemma u32_range_1_5: "1 \<le> (k :: u32) \<and> k \<le> 5 \<longleftrightarrow> k \<in> {1, 2, 3, 4, 5}"
proof -
  have "1 \<le> n \<and> n \<le> 5 \<longleftrightarrow> n \<in> {1, 2, 3, 4, 5}" for n :: nat
    unfolding insert_iff empty_iff by presburger
  then show ?thesis by (simp add: word_unat_eq_iff word_le_nat_alt)
qed

lemma u32_le_1: "\<not> 1 < (c :: u32) \<longleftrightarrow> c = 0 \<or> c = 1"
proof -
  have "\<not> 1 < n \<longleftrightarrow> n = 0 \<or> n = 1" for n :: nat by linarith
  then show ?thesis by (simp add: word_unat_eq_iff word_less_nat_alt)
qed

lemma rpc_record_sizes:
  assumes "rh_metadata_size h \<le> 512"
  shows "\<not> SIZE_MAX - rpc_record_base_size h < ucast (rh_encoded_size h)"
    and "unat (rpc_record_base_size h + ucast (rh_encoded_size h)) = rpc_record_size h"
proof -
  have m: "unat (rh_metadata_size h) \<le> 512" using assms by (simp add: word_le_nat_alt)
  have e: "unat (rh_encoded_size h) < 2 ^ 32" using unat_lt_2p [of "rh_encoded_size h"] by simp
  have b: "unat (rpc_record_base_size h) = 48 + unat (rh_metadata_size h)"
    using m by (simp add: rpc_record_base_size_def unat_word_ariths unsigned_ucast_eq take_bit_eq_mod)
  have u: "unat (ucast (rh_encoded_size h) :: size_t) = unat (rh_encoded_size h)"
    using e by (simp add: unsigned_ucast_eq take_bit_eq_mod)
  have s: "unat (SIZE_MAX - rpc_record_base_size h) = unat SIZE_MAX - unat (rpc_record_base_size h)"
    using b m by (intro unat_sub_le) (simp add: word_le_nat_alt)
  show "\<not> SIZE_MAX - rpc_record_base_size h < ucast (rh_encoded_size h)"
    using b m e by (simp add: word_less_nat_alt u s)
  show "unat (rpc_record_base_size h + ucast (rh_encoded_size h)) = rpc_record_size h"
    using b m e by (subst unat_add_less) (simp_all add: u rpc_record_size_def)
qed

lemma rpc_record_scope_ok:
  assumes "tr_rpc_record_limits_valid (Some l)" and "rh_kind h \<in> {1, 2, 3, 4, 5}"
    and "rh_metadata_size h \<le> rl_max_metadata_size l" and "rh_encoded_size h \<le> rl_max_encoded_size l"
    and "rh_decoded_size h \<le> rl_max_decoded_size l"
  shows "rpc_record_scope_checks h l = TR_OK \<longleftrightarrow> rpc_record_ok l h"
proof -
  have comp: "(1 < c \<or> rl_accepted_compression l AND push_bit (unat c) 1 = 0) \<longleftrightarrow>
      \<not> (c = 0 \<or> c = 1 \<and> rl_accepted_compression l AND 2 \<noteq> 0)" for c :: u32
    using u32_le_1 [of c] assms(1) by (auto simp: tr_rpc_record_limits_valid_def)
  show ?thesis
    unfolding rpc_record_scope_checks_def rpc_record_ok_def comp using assms(2-)
    by (auto simp: guard_ok not_le)
qed

lemma rpc_record_scope_not_again: "rpc_record_scope_checks h l \<noteq> TR_AGAIN"
  by (simp add: rpc_record_scope_checks_def)

lemma tr_rpc_record_validate_accepts:
  assumes "tr_rpc_record_limits_valid (Some l)" and "rpc_record_ok l h"
  shows "tr_rpc_record_validate (Some h) (Some l) t = (TR_OK, of_nat (rpc_record_size h))"
proof -
  have "rh_metadata_size h \<le> 512"
    using assms by (auto simp: tr_rpc_record_limits_valid_def rpc_record_ok_def)
  note sizes = rpc_record_sizes [OF this]
  have "rpc_record_base_size h + ucast (rh_encoded_size h) = of_nat (rpc_record_size h)"
    by (simp flip: sizes(2))
  moreover have "rpc_record_scope_checks h l = TR_OK"
    using assms by (subst rpc_record_scope_ok) (simp_all add: rpc_record_ok_def)
  moreover have "tr_rpc_record_kind_valid (rh_kind h)"
    using assms(2) u32_range_1_5 [of "rh_kind h"]
    by (auto simp: tr_rpc_record_kind_valid_def rpc_record_ok_def)
  ultimately show ?thesis
    using assms sizes(1) by (auto simp: tr_rpc_record_validate_def Let_def rpc_record_ok_def)
qed

lemma tr_rpc_record_validate_rejects:
  assumes "\<not> (tr_rpc_record_limits_valid (Some l) \<and> rpc_record_ok l h)"
  shows "\<exists>e. e \<noteq> TR_OK \<and> e \<noteq> TR_AGAIN \<and> tr_rpc_record_validate (Some h) (Some l) t = (e, t)"
proof -
  have "rpc_record_scope_checks h l \<noteq> TR_OK"
    if "tr_rpc_record_limits_valid (Some l)" "tr_rpc_record_kind_valid (rh_kind h)"
      "rh_metadata_size h \<le> rl_max_metadata_size l" "rh_encoded_size h \<le> rl_max_encoded_size l"
      "rh_decoded_size h \<le> rl_max_decoded_size l"
    using assms that u32_range_1_5 [of "rh_kind h"]
    by (simp add: rpc_record_scope_ok tr_rpc_record_kind_valid_def)
  then show ?thesis
    by (auto simp: tr_rpc_record_validate_def Let_def rpc_record_scope_not_again not_less)
qed

lemma tr_rpc_record_validate_ok_iff:
  "fst (tr_rpc_record_validate (Some h) (Some l) t) = TR_OK \<longleftrightarrow>
     tr_rpc_record_limits_valid (Some l) \<and> rpc_record_ok l h"
  using tr_rpc_record_validate_accepts [of l h t] tr_rpc_record_validate_rejects [of l h t]
  by (metis fst_conv)

section \<open>Reading back an encoded header\<close>

lemma length_rpc_record_header_bytes [simp]: "length (rpc_record_header_bytes h) = 48"
  by (simp add: rpc_record_header_bytes_def rpc_record_magic_def)

lemma ucast_u16_u32: "unat (k :: u32) < 2 ^ 16 \<Longrightarrow> ucast (ucast k :: u16) = k"
  by (simp add: word_unat_eq_iff unsigned_ucast_eq take_bit_eq_mod unat_mod_distrib)

lemma rpc_record_header_bytes_concat:
  "rpc_record_header_bytes h =
     rpc_record_magic @ tr_put_le16 2 @ tr_put_le16 (ucast (rh_kind h)) @ tr_put_le32 (rh_service_id h) @
     tr_put_le32 (rh_method_id h) @ tr_put_le32 (rh_codec_id h) @ tr_put_le32 (rh_compression h) @
     tr_put_le32 (rh_encoded_size h) @ tr_put_le32 (rh_decoded_size h) @
     tr_put_le32 (rh_metadata_size h) @ tr_put_le32 (rh_status h) @
     tr_put_le64 (rh_remaining_timeout_ns h)"
  by (simp add: rpc_record_header_bytes_def poke_def rpc_record_magic_def)

lemma rpc_record_fields_bytes:
  assumes "unat (rh_kind h) < 2 ^ 16"
  shows "rpc_record_fields (rpc_record_header_bytes h @ rest) = h"
  using assms
  by (simp add: rpc_record_fields_def rpc_record_header_bytes_concat rpc_record_magic_def
      get_put_append_le ucast_u16_u32)

lemma rpc_record_bytes_start:
  "peek 0 4 (rpc_record_header_bytes h @ rest) = rpc_record_magic"
  "tr_get_le16 (drop 4 (rpc_record_header_bytes h @ rest)) = 2"
  "tr_get_le16 (drop 6 (rpc_record_header_bytes h @ rest)) = ucast (rh_kind h)"
  by (simp_all add: rpc_record_header_bytes_concat rpc_record_magic_def peek_def get_put_append_le)

text \<open>The header decoder on the bytes of an acceptable header followed by anything, and on a part of
  them that is shorter than the header.\<close>

lemma rpc_record_ok_kind:
  assumes "rpc_record_ok l h"
  shows "unat (rh_kind h) < 2 ^ 16" and "tr_rpc_record_kind_valid (rh_kind h)"
  using assms u32_range_1_5 [of "rh_kind h"]
  by (auto simp: rpc_record_ok_def tr_rpc_record_kind_valid_def)

lemma tr_rpc_record_decode_header_full:
  assumes "tr_rpc_record_limits_valid (Some l)" and ok: "rpc_record_ok l h" and "48 \<le> unat sz"
  shows "tr_rpc_record_decode_header (Some (rpc_record_header_bytes h @ rest)) sz (Some l) (Some h0) (Some t0) =
    (TR_OK, Some h, Some (of_nat (rpc_record_size h)))"
  using assms rpc_record_ok_kind [OF ok]
  by (simp add: tr_rpc_record_decode_header_def word_less_nat_alt rpc_record_bytes_start ucast_u16_u32
      rpc_record_fields_bytes tr_rpc_record_validate_accepts del: drop_append)

lemma tr_rpc_record_decode_header_short:
  assumes "tr_rpc_record_limits_valid (Some l)" and ok: "rpc_record_ok l h" and "unat sz < 48"
  shows "tr_rpc_record_decode_header (Some (take (unat sz) (rpc_record_header_bytes h @ rest))) sz (Some l)
      (Some h0) (Some t0) = (TR_AGAIN, Some h0, Some t0)"
proof -
  let ?d = "rpc_record_header_bytes h @ rest"
  have "peek 0 4 (take (unat sz) ?d) = rpc_record_magic" if "4 \<le> unat sz"
    using that rpc_record_bytes_start(1) [of h rest] by (simp add: peek_def min_def)
  moreover have "tr_get_le16 (drop 4 (take (unat sz) ?d)) = 2" if "6 \<le> unat sz"
    using that rpc_record_bytes_start(2) [of h rest] by (simp add: drop_take le16.get_take_more del: drop_append take_append)
  moreover have "tr_get_le16 (drop 6 (take (unat sz) ?d)) = ucast (rh_kind h)" if "8 \<le> unat sz"
    using that rpc_record_bytes_start(3) [of h rest] by (simp add: drop_take le16.get_take_more del: drop_append take_append)
  ultimately show ?thesis
    using assms rpc_record_ok_kind [OF ok]
    by (simp add: tr_rpc_record_decode_header_def word_less_nat_alt ucast_u16_u32
        del: drop_append take_append)
qed

lemma rpc_record_size_bound: "rpc_record_size h < 2 ^ 64"
  using unat_lt_2p [of "rh_metadata_size h"] unat_lt_2p [of "rh_encoded_size h"]
  by (simp add: rpc_record_size_def)

lemma rpc_record_size_ge: "48 \<le> rpc_record_size h"
  by (simp add: rpc_record_size_def)

lemma unat_rpc_record_size [simp]: "unat (of_nat (rpc_record_size h) :: size_t) = rpc_record_size h"
  using rpc_record_size_bound [of h] by (simp add: unat_of_nat)

lemma rpc_record_header_bytes_fields:
  assumes "48 \<le> length data" and "peek 0 4 data = rpc_record_magic" and "tr_get_le16 (drop 4 data) = 2"
  shows "rpc_record_header_bytes (rpc_record_fields data) = take 48 data"
proof -
  have k: "ucast (ucast (w :: u16) :: u32) = w" for w
    by (rule bit_word_eqI) (simp add: bit_simps)
  have v: "peek 4 2 data = tr_put_le16 2"
    using assms(1) le16.put_get_drop [of 4 data] by (simp add: assms(3))
  have "drop 0 data = peek 0 4 data @ peek 4 2 data @ peek 6 2 data @ peek 8 4 data @ peek 12 4 data @
      peek 16 4 data @ peek 20 4 data @ peek 24 4 data @ peek 28 4 data @ peek 32 4 data @
      peek 36 4 data @ peek 40 8 data @ drop 48 data"
    using drop_peek_split [of 4 0 4 data] drop_peek_split [of 6 4 2 data] drop_peek_split [of 8 6 2 data]
      drop_peek_split [of 12 8 4 data] drop_peek_split [of 16 12 4 data] drop_peek_split [of 20 16 4 data]
      drop_peek_split [of 24 20 4 data] drop_peek_split [of 28 24 4 data] drop_peek_split [of 32 28 4 data]
      drop_peek_split [of 36 32 4 data] drop_peek_split [of 40 36 4 data] drop_peek_split [of 48 40 8 data]
    by (simp del: drop_0)
  then have "take 48 data @ drop 48 data = rpc_record_header_bytes (rpc_record_fields data) @ drop 48 data"
    using assms
    by (simp add: rpc_record_header_bytes_concat rpc_record_fields_def put_get_drop_le k v)
  then show ?thesis by (simp del: append_take_drop_id)
qed

lemma tr_rpc_record_decode_header_sound:
  assumes "tr_rpc_record_decode_header (Some data) sz (Some l) (Some h0) (Some t0) = (TR_OK, out, t)"
  shows "48 \<le> unat sz" and "peek 0 4 data = rpc_record_magic" and "tr_get_le16 (drop 4 data) = 2"
    and "out = Some (rpc_record_fields data)" and "rpc_record_ok l (rpc_record_fields data)"
    and "t = Some (of_nat (rpc_record_size (rpc_record_fields data)))"
proof -
  let ?h = "rpc_record_fields data"
  have "48 \<le> unat sz \<and> peek 0 4 data = rpc_record_magic \<and> tr_get_le16 (drop 4 data) = 2 \<and> out = Some ?h \<and>
      tr_rpc_record_validate (Some ?h) (Some l) 0 = (TR_OK, the t) \<and> t \<noteq> None"
    using assms by (auto simp: tr_rpc_record_decode_header_def Let_def word_less_nat_alt not_less
        split: if_splits prod.splits)
  moreover from this have "tr_rpc_record_limits_valid (Some l) \<and> rpc_record_ok l ?h"
    using tr_rpc_record_validate_ok_iff [of ?h l 0] by simp
  moreover from calculation have "the t = of_nat (rpc_record_size ?h)"
    using tr_rpc_record_validate_accepts [of l ?h 0] by simp
  ultimately show "48 \<le> unat sz" "peek 0 4 data = rpc_record_magic" "tr_get_le16 (drop 4 data) = 2"
    "out = Some ?h" "rpc_record_ok l ?h" "t = Some (of_nat (rpc_record_size ?h))"
    by auto
qed

section \<open>Properties of the codec\<close>

text \<open>C25: the header encoder writes exactly the acceptable headers. With an output buffer of at least 48
  bytes it returns success precisely when the limits are valid and the header meets the record
  contract, the buffer then starts with the 48 header bytes and is otherwise untouched, and on any
  error the buffer is unchanged.\<close>

theorem rpc_record_encode_exact:
  assumes "length dst = unat capacity" and "48 \<le> capacity"
  shows "(if tr_rpc_record_limits_valid (Some l) \<and> rpc_record_ok l h
          then tr_rpc_record_encode_header (Some dst) capacity (Some h) (Some l) =
            (TR_OK, Some (rpc_record_header_bytes h @ drop 48 dst))
          else \<exists>e. e \<noteq> TR_OK \<and>
            tr_rpc_record_encode_header (Some dst) capacity (Some h) (Some l) = (e, Some dst))"
proof (cases "tr_rpc_record_limits_valid (Some l) \<and> rpc_record_ok l h")
  case True
  then show ?thesis
    using assms by (simp add: tr_rpc_record_encode_header_def tr_rpc_record_validate_accepts poke_def not_less)
next
  case False
  from tr_rpc_record_validate_rejects [OF this, of 0] obtain e where
    "e \<noteq> TR_OK" and "tr_rpc_record_validate (Some h) (Some l) 0 = (e, 0)" by blast
  then show ?thesis using False by (auto simp: tr_rpc_record_encode_header_def)
qed

definition rpc_sample_limits :: tr_rpc_record_limits where
  "rpc_sample_limits = \<lparr>rl_max_encoded_size = 100, rl_max_decoded_size = 100,
     rl_max_metadata_size = 16, rl_accepted_compression = 1\<rparr>"

definition rpc_sample_message :: tr_rpc_record_header where
  "rpc_sample_message = rpc_record_zero_header\<lparr>rh_kind := 3, rh_codec_id := 1, rh_encoded_size := 2,
     rh_decoded_size := 2\<rparr>"

lemma rpc_sample_ok:
  "tr_rpc_record_limits_valid (Some rpc_sample_limits)"
  "rpc_record_ok rpc_sample_limits rpc_sample_message"
  by (simp_all add: rpc_sample_limits_def rpc_sample_message_def rpc_record_zero_header_def
      rpc_record_ok_def tr_rpc_record_limits_valid_def)

theorem rpc_record_encode_exact_witness:
  "tr_rpc_record_encode_header (Some (replicate 50 7)) 50 (Some rpc_sample_message) (Some rpc_sample_limits) =
     (TR_OK, Some (rpc_record_header_bytes rpc_sample_message @ replicate 2 7))"
  using rpc_record_encode_exact [of "replicate 50 7" 50 rpc_sample_limits rpc_sample_message]
  by (simp add: rpc_sample_ok)

text \<open>C15: framing. On the bytes of an acceptable header, its metadata and its body, followed by whatever comes
  next in the stream, the decoder returns the header, views of exactly the metadata and the body,
  and consumes exactly this record; on every proper prefix of the record it asks for more input and
  writes neither output.\<close>

theorem rpc_record_framing:
  assumes "tr_rpc_record_limits_valid (Some l)" and "rpc_record_ok l h"
    and "length meta = unat (rh_metadata_size h)" and "length body = unat (rh_encoded_size h)"
    and "length data < 2 ^ 64" and "data = rpc_record_header_bytes h @ meta @ body @ rest"
  shows "(\<exists>m b. tr_rpc_record_decode (Some data) (of_nat (length data)) (Some l) (Some v0) (Some c0) =
       (TR_OK, Some \<lparr>rv_header = h, rv_metadata = m, rv_body = b\<rparr>, Some (of_nat (rpc_record_size h))) \<and>
     (case m of None \<Rightarrow> meta = [] | Some off \<Rightarrow> peek off (unat (rh_metadata_size h)) data = meta) \<and>
     (case b of None \<Rightarrow> body = [] | Some off \<Rightarrow> peek off (unat (rh_encoded_size h)) data = body)) \<and>
    (\<forall>k < rpc_record_size h.
       tr_rpc_record_decode (Some (take k data)) (of_nat k) (Some l) (Some v0) (Some c0) =
         (TR_AGAIN, Some v0, Some c0))"
proof (intro conjI allI impI)
  have len: "length data = rpc_record_size h + length rest"
    using assms by (simp add: rpc_record_size_def)
  have sz: "unat (of_nat (length data) :: size_t) = length data"
    using assms(5) by (simp add: unat_of_nat)
  let ?m = "if rh_metadata_size h \<noteq> 0 then Some (48 :: nat) else None"
  let ?b = "if rh_encoded_size h \<noteq> 0 then Some (48 + unat (rh_metadata_size h)) else None"
  have "tr_rpc_record_decode (Some data) (of_nat (length data)) (Some l) (Some v0) (Some c0) =
      (TR_OK, Some \<lparr>rv_header = h, rv_metadata = ?m, rv_body = ?b\<rparr>, Some (of_nat (rpc_record_size h)))"
    using tr_rpc_record_decode_header_full [OF assms(1,2), of "of_nat (length data)" "meta @ body @ rest"] sz
      rpc_record_size_ge [of h]
    by (simp add: tr_rpc_record_decode_def word_less_nat_alt len flip: assms(6)
        del: of_nat_add of_nat_numeral)
  then show "\<exists>m b. tr_rpc_record_decode (Some data) (of_nat (length data)) (Some l) (Some v0) (Some c0) =
       (TR_OK, Some \<lparr>rv_header = h, rv_metadata = m, rv_body = b\<rparr>, Some (of_nat (rpc_record_size h))) \<and>
     (case m of None \<Rightarrow> meta = [] | Some off \<Rightarrow> peek off (unat (rh_metadata_size h)) data = meta) \<and>
     (case b of None \<Rightarrow> body = [] | Some off \<Rightarrow> peek off (unat (rh_encoded_size h)) data = body)"
    using assms(3,4) by (intro exI [of _ ?m] exI [of _ ?b]) (auto simp: assms(6) peek_def)
next
  fix k assume k: "k < rpc_record_size h"
  then have uk: "unat (of_nat k :: size_t) = k"
    using rpc_record_size_bound [of h] by (simp add: unat_of_nat)
  show "tr_rpc_record_decode (Some (take k data)) (of_nat k) (Some l) (Some v0) (Some c0) =
      (TR_AGAIN, Some v0, Some c0)"
  proof (cases "k < 48")
    case True
    then show ?thesis
      using tr_rpc_record_decode_header_short [OF assms(1,2), of "of_nat k" "meta @ body @ rest"]
      by (simp add: tr_rpc_record_decode_def assms(6) uk)
  next
    case False
    then have "take k data = rpc_record_header_bytes h @ take (k - 48) (meta @ body @ rest)"
      by (simp add: assms(6))
    then show ?thesis
      using False k uk assms(1,2)
      by (simp add: tr_rpc_record_decode_def tr_rpc_record_decode_header_full word_less_nat_alt)
  qed
qed

definition rpc_sample_view :: tr_rpc_record_view where
  "rpc_sample_view = \<lparr>rv_header = rpc_record_zero_header, rv_metadata = None, rv_body = None\<rparr>"

definition rpc_sample_bytes :: "u8 list" where
  "rpc_sample_bytes = rpc_record_header_bytes rpc_sample_message @ [] @ [1, 2] @ [9]"

lemma rpc_sample_sizes:
  "rh_metadata_size rpc_sample_message = 0" "rh_encoded_size rpc_sample_message = 2"
  "rpc_record_size rpc_sample_message = 50" "length rpc_sample_bytes = 51"
  by (simp_all add: rpc_sample_message_def rpc_record_zero_header_def rpc_record_size_def rpc_sample_bytes_def)

theorem rpc_record_framing_witness:
  "tr_rpc_record_decode (Some (take 49 rpc_sample_bytes)) (of_nat 49) (Some rpc_sample_limits)
     (Some rpc_sample_view) (Some 0) = (TR_AGAIN, Some rpc_sample_view, Some 0)"
proof -
  have "\<forall>k < rpc_record_size rpc_sample_message.
      tr_rpc_record_decode (Some (take k rpc_sample_bytes)) (of_nat k) (Some rpc_sample_limits)
        (Some rpc_sample_view) (Some 0) = (TR_AGAIN, Some rpc_sample_view, Some 0)"
    by (rule rpc_record_framing [OF rpc_sample_ok _ _ _ rpc_sample_bytes_def, THEN conjunct2])
      (simp_all add: rpc_sample_sizes)
  from this [rule_format, of 49] show ?thesis by (simp only: rpc_sample_sizes)
qed

text \<open>C18: whatever the decoder accepts is a well-formed record: the header meets the contract under the
  caller's limits, re-encoding it reproduces the first 48 bytes, and the consumed length is the
  header, metadata and body length and lies within the input.\<close>

theorem rpc_record_decode_sound:
  assumes "tr_rpc_record_decode (Some data) (of_nat (length data)) (Some l) (Some v0) (Some c0) = (TR_OK, Some v, Some c)"
    and "length data < 2 ^ 64"
  shows "rpc_record_ok l (rv_header v) \<and> take 48 data = rpc_record_header_bytes (rv_header v) \<and>
    unat c = rpc_record_size (rv_header v) \<and> unat c \<le> length data"
proof -
  obtain out t where dh: "tr_rpc_record_decode_header (Some data) (of_nat (length data)) (Some l)
      (Some rpc_record_zero_header) (Some 0) = (TR_OK, out, t)"
    and v: "rv_header v = the out" and c: "t = Some c" and le: "\<not> of_nat (length data) < c"
    using assms(1) by (auto simp: tr_rpc_record_decode_def Let_def split: if_splits prod.splits)
  note snd = tr_rpc_record_decode_header_sound [OF dh]
  have "unat (of_nat (length data) :: size_t) = length data"
    using assms(2) by (simp add: unat_of_nat)
  with snd v c le show ?thesis
    by (simp add: rpc_record_header_bytes_fields word_less_nat_alt)
qed

theorem rpc_record_decode_sound_witness:
  "take 48 rpc_sample_bytes = rpc_record_header_bytes rpc_sample_message"
proof -
  have "tr_rpc_record_decode (Some rpc_sample_bytes) (of_nat (length rpc_sample_bytes))
      (Some rpc_sample_limits) (Some rpc_sample_view) (Some 0) =
      (TR_OK, Some \<lparr>rv_header = rpc_sample_message, rv_metadata = None, rv_body = Some 48\<rparr>, Some 50)"
    using tr_rpc_record_decode_header_full [OF rpc_sample_ok, of 51 "[1, 2, 9]"]
    by (simp add: tr_rpc_record_decode_def rpc_sample_sizes) (simp add: rpc_sample_bytes_def rpc_sample_sizes)
  from rpc_record_decode_sound [OF this] show ?thesis by (simp add: rpc_sample_sizes)
qed

section \<open>The shape of a call\<close>

text \<open>A call is driven by records in either direction and by local aborts. \<open>rpc_call\<close> relates a fresh
  call to the states it reaches, with the accepted events in order.\<close>

datatype rpc_event = Record u32 tr_rpc_record_header | Abort int

inductive rpc_call :: "u32 \<Rightarrow> u32 \<Rightarrow> rpc_event list \<Rightarrow> tr_rpc_record_state \<Rightarrow> bool" for req resp where
  call_init: "tr_rpc_record_state_init (Some s0) req resp = (TR_OK, Some s) \<Longrightarrow> rpc_call req resp [] s"
| call_record: "rpc_call req resp evs s \<Longrightarrow> tr_rpc_record_state_apply (Some s) dir (Some r) = (TR_OK, Some s') \<Longrightarrow>
    rpc_call req resp (evs @ [Record dir r]) s'"
| call_abort: "rpc_call req resp evs s \<Longrightarrow> tr_rpc_record_state_abort (Some s) st = (TR_OK, Some s') \<Longrightarrow>
    rpc_call req resp (evs @ [Abort st]) s'"

fun event_kinds :: "u32 \<Rightarrow> rpc_event list \<Rightarrow> u32 list" where
  "event_kinds dir [] = []"
| "event_kinds dir (Record d r # evs) = (if d = dir then rh_kind r # event_kinds dir evs else event_kinds dir evs)"
| "event_kinds dir (Abort st # evs) = event_kinds dir evs"

lemma event_kinds_append [simp]: "event_kinds dir (xs @ ys) = event_kinds dir xs @ event_kinds dir ys"
  by (induction dir xs rule: event_kinds.induct) simp_all

text \<open>The shape the state stands for: the request side is OPEN, messages, and possibly a half close; the
  response side is possibly the headers and then messages, and possibly the final status.\<close>

definition request_shape :: "tr_rpc_record_state \<Rightarrow> u32 list" where
  "request_shape s = (if rs_opened s then [1] else []) @ replicate (unat (rs_request_messages s)) 3 @
     (if rs_request_closed s then [4] else [])"

definition response_shape :: "tr_rpc_record_state \<Rightarrow> u32 list" where
  "response_shape s = (if rs_response_headers s then [2] else []) @ replicate (unat (rs_response_messages s)) 3"

fun event_final :: "rpc_event \<Rightarrow> u32 \<Rightarrow> bool" where
  "event_final (Record d r) st \<longleftrightarrow> d = 1 \<and> rh_kind r = 5 \<and> rh_status r = st"
| "event_final (Abort x) st \<longleftrightarrow> 0 < x \<and> x < 17 \<and> st = word_of_int x"

fun opens_with_open :: "rpc_event list \<Rightarrow> bool" where
  "opens_with_open (Record d r # evs) \<longleftrightarrow> d = 0 \<and> rh_kind r = 1"
| "opens_with_open evs \<longleftrightarrow> False"

lemma opens_with_open_append: "opens_with_open evs \<Longrightarrow> opens_with_open (evs @ evs')"
  by (cases evs rule: opens_with_open.cases) simp_all

definition live_inv :: "u32 \<Rightarrow> u32 \<Rightarrow> rpc_event list \<Rightarrow> tr_rpc_record_state \<Rightarrow> bool" where
  [inv_defs]: "live_inv req resp evs s \<longleftrightarrow>
     rs_initialized s \<and> \<not> rs_terminal s \<and> rs_request_cardinality s = req \<and> rs_response_cardinality s = resp \<and>
     req \<in> {1, 2} \<and> resp \<in> {1, 2} \<and>
     event_kinds 0 evs = request_shape s \<and> event_kinds 1 evs = response_shape s \<and>
     (req = 1 \<longrightarrow> rs_request_messages s = 0 \<or> rs_request_messages s = 1) \<and>
     (resp = 1 \<longrightarrow> rs_response_messages s = 0 \<or> rs_response_messages s = 1) \<and>
     (if rs_opened s then opens_with_open evs
      else evs = [] \<and> rs_request_messages s = 0 \<and> \<not> rs_request_closed s \<and> \<not> rs_response_headers s) \<and>
     (\<not> rs_response_headers s \<longrightarrow> rs_response_messages s = 0) \<and>
     (rs_request_closed s \<and> req = 1 \<longrightarrow> rs_request_messages s = 1)"

text \<open>A terminal state is a live one with the first terminal event applied on top.\<close>

definition done_inv :: "u32 \<Rightarrow> u32 \<Rightarrow> rpc_event list \<Rightarrow> tr_rpc_record_state \<Rightarrow> bool" where
  "done_inv req resp evs s \<longleftrightarrow>
     (\<exists>s0 evs0 e st. evs = evs0 @ [e] \<and> live_inv req resp evs0 s0 \<and> event_final e st \<and>
        s = s0\<lparr>rs_terminal := True, rs_final_status := st\<rparr> \<and>
        (st = 0 \<longrightarrow> rs_opened s0 \<and> (req = 1 \<longrightarrow> rs_request_messages s0 = 1) \<and>
           (resp = 1 \<longrightarrow> rs_response_messages s0 = 1)))"

lemma unat_u64_Suc: "(m :: u64) \<noteq> UINT64_MAX \<Longrightarrow> unat (m + 1) = Suc (unat m)"
proof -
  assume "m \<noteq> UINT64_MAX"
  then have "unat m \<noteq> 2 ^ 64 - 1" by (simp add: word_unat_eq_iff)
  then have "unat m + 1 < 2 ^ 64" using unat_lt_2p [of m] by simp
  then show ?thesis by (subst unat_add_less) simp_all
qed

lemma tr_rpc_record_state_apply_OK:
  assumes "tr_rpc_record_state_apply (Some s) dir (Some r) = (TR_OK, Some s')"
  shows "rs_initialized s" and "dir = 0 \<or> dir = 1" and "\<not> rs_terminal s" and "rpc_record_ok rpc_record_shape r"
    and "(if \<not> rs_opened s then rpc_apply_unopened s dir r
          else if dir = 0 then rpc_apply_request s r else rpc_apply_response s r) = Some s'"
  using assms tr_rpc_record_validate_ok_iff [of r rpc_record_shape 0]
  by (auto simp: tr_rpc_record_state_apply_def split: if_splits prod.splits option.splits)

lemma live_inv_init: "tr_rpc_record_state_init (Some s0) req resp = (TR_OK, Some s) \<Longrightarrow> live_inv req resp [] s"
  by (auto simp: tr_rpc_record_state_init_def inv_defs rpc_record_fresh_state_def request_shape_def
      response_shape_def tr_rpc_record_cardinality_valid_def split: if_splits)

lemma live_unopened:
  assumes "live_inv req resp evs s" "\<not> rs_opened s" "rpc_apply_unopened s dir r = Some s'"
  shows "live_inv req resp (evs @ [Record dir r]) s' \<or> done_inv req resp (evs @ [Record dir r]) s'"
proof -
  from assms(3) consider
    (opened) "rh_kind r = 1" "dir = 0" "s' = s\<lparr>rs_opened := True\<rparr>"
  | (refused) "rh_kind r = 5" "dir = 1" "rh_status r \<noteq> 0"
      "s' = s\<lparr>rs_terminal := True, rs_final_status := rh_status r\<rparr>"
    by (auto simp: rpc_apply_unopened_def split: if_splits)
  then show ?thesis
  proof cases
    case opened
    then have "live_inv req resp (evs @ [Record dir r]) s'"
      using assms(1,2) by (simp add: inv_defs request_shape_def response_shape_def)
    then show ?thesis ..
  next
    case refused
    then have "done_inv req resp (evs @ [Record dir r]) s'"
      using assms(1) unfolding done_inv_def
      by (intro exI [of _ s] exI [of _ evs] exI [of _ "Record dir r"] exI [of _ "rh_status r"]) simp
    then show ?thesis ..
  qed
qed

lemma live_request:
  assumes "live_inv req resp evs s" "rs_opened s" "rpc_apply_request s r = Some s'"
  shows "live_inv req resp (evs @ [Record 0 r]) s'"
proof -
  from assms(3) consider
    (message) "\<not> rs_request_closed s" "rh_kind r = 3" "rs_request_messages s \<noteq> UINT64_MAX"
      "rs_request_cardinality s = 1 \<longrightarrow> rs_request_messages s = 0"
      "s' = s\<lparr>rs_request_messages := rs_request_messages s + 1\<rparr>"
  | (close) "\<not> rs_request_closed s" "rh_kind r = 4"
      "rs_request_cardinality s = 1 \<longrightarrow> rs_request_messages s = 1" "s' = s\<lparr>rs_request_closed := True\<rparr>"
    by (auto simp: rpc_apply_request_def split: if_splits)
  then show ?thesis
    using assms(1,2)
    by cases (auto simp: inv_defs request_shape_def response_shape_def unat_u64_Suc replicate_append_same
        opens_with_open_append)
qed

lemma live_response:
  assumes "live_inv req resp evs s" "rs_opened s" "rpc_apply_response s r = Some s'"
  shows "live_inv req resp (evs @ [Record 1 r]) s' \<or> done_inv req resp (evs @ [Record 1 r]) s'"
proof -
  from assms(3) consider
    (headers) "rh_kind r = 2" "\<not> rs_response_headers s" "s' = s\<lparr>rs_response_headers := True\<rparr>"
  | (message) "rh_kind r = 3" "rs_response_headers s" "rs_response_messages s \<noteq> UINT64_MAX"
      "rs_response_cardinality s = 1 \<longrightarrow> rs_response_messages s = 0"
      "s' = s\<lparr>rs_response_messages := rs_response_messages s + 1\<rparr>"
  | (final) "rh_kind r = 5" "rh_status r = 0 \<longrightarrow> (rs_request_cardinality s = 1 \<longrightarrow> rs_request_messages s = 1) \<and>
      (rs_response_cardinality s = 1 \<longrightarrow> rs_response_messages s = 1)"
      "s' = s\<lparr>rs_terminal := True, rs_final_status := rh_status r\<rparr>"
    by (auto simp: rpc_apply_response_def split: if_splits)
  then show ?thesis
  proof cases
    case final
    then have "done_inv req resp (evs @ [Record 1 r]) s'"
      using assms(1,2) unfolding done_inv_def
      by (intro exI [of _ s] exI [of _ evs] exI [of _ "Record 1 r"] exI [of _ "rh_status r"])
        (simp add: live_inv_def)
    then show ?thesis ..
  qed (use assms(1,2) in \<open>auto simp: inv_defs request_shape_def response_shape_def unat_u64_Suc
        replicate_append_same opens_with_open_append\<close>)
qed

lemma live_abort:
  assumes "live_inv req resp evs s" "tr_rpc_record_state_abort (Some s) st = (TR_OK, Some s')"
  shows "done_inv req resp (evs @ [Abort st]) s'"
proof -
  have "(word_of_int st :: u32) \<noteq> 0" if "0 < st" "st < 17"
    using that by (simp add: word_of_int_eq_0_iff zdvd_not_zless)
  then show ?thesis
    using assms unfolding done_inv_def
    by (intro exI [of _ s] exI [of _ evs] exI [of _ "Abort st"] exI [of _ "word_of_int st"])
      (auto simp: tr_rpc_record_state_abort_def split: if_splits)
qed

lemma done_inv_terminal: "done_inv req resp evs s \<Longrightarrow> rs_terminal s"
  by (auto simp: done_inv_def)

lemma rpc_call_inv: "rpc_call req resp evs s \<Longrightarrow> live_inv req resp evs s \<or> done_inv req resp evs s"
proof (induction rule: rpc_call.induct)
  case (call_init s0 s)
  then show ?case by (blast intro: live_inv_init)
next
  case (call_record evs s dir r s')
  note ok = tr_rpc_record_state_apply_OK [OF call_record.hyps(2)]
  with call_record.IH have "live_inv req resp evs s" using done_inv_terminal by blast
  with ok(2,5) show ?case
    using live_unopened live_request live_response by (metis option.inject zero_neq_one)
next
  case (call_abort evs s st s')
  then have "\<not> rs_terminal s" by (auto simp: tr_rpc_record_state_abort_def split: if_splits)
  then show ?case using call_abort live_abort done_inv_terminal by blast
qed

section \<open>Properties of the call state machine\<close>

text \<open>The documented shape of the two directions of a call, on the kinds of the accepted records.\<close>

definition request_side_ok :: "u32 \<Rightarrow> u32 list \<Rightarrow> bool" where
  "request_side_ok req ks \<longleftrightarrow> ks = [] \<or>
     (\<exists>n c. ks = 1 # replicate n 3 @ c \<and> (c = [] \<or> c = [4]) \<and>
        (req = 1 \<longrightarrow> n \<le> 1 \<and> (c = [4] \<longrightarrow> n = 1)))"

definition response_side_ok :: "u32 \<Rightarrow> u32 list \<Rightarrow> bool" where
  "response_side_ok resp ks \<longleftrightarrow>
     (\<exists>h m f. ks = h @ replicate m 3 @ f \<and> (h = [] \<and> m = 0 \<or> h = [2]) \<and> (f = [] \<or> f = [5]) \<and>
        (resp = 1 \<longrightarrow> m \<le> 1))"

definition call_succeeded_ok :: "u32 \<Rightarrow> u32 \<Rightarrow> rpc_event list \<Rightarrow> bool" where
  "call_succeeded_ok req resp evs \<longleftrightarrow>
     opens_with_open evs \<and> event_final (last evs) 0 \<and>
     (req = 1 \<longrightarrow> count_list (event_kinds 0 evs) 3 = 1) \<and>
     (resp = 1 \<longrightarrow> count_list (event_kinds 1 evs) 3 = 1)"

lemma count_list_replicate: "count_list (replicate n x) y = (if x = y then n else 0)"
  by (induction n) auto

lemma live_sides:
  assumes "live_inv req resp evs s"
  shows "request_side_ok req (event_kinds 0 evs)"
    and "\<exists>h m. event_kinds 1 evs = h @ replicate m 3 \<and> (h = [] \<and> m = 0 \<or> h = [2]) \<and> (resp = 1 \<longrightarrow> m \<le> 1)"
proof -
  let ?n = "unat (rs_request_messages s)" and ?m = "unat (rs_response_messages s)"
  let ?c = "if rs_request_closed s then [4] else [] :: u32 list"
  let ?h = "if rs_response_headers s then [2] else [] :: u32 list"
  have kinds: "event_kinds 0 evs = request_shape s" "event_kinds 1 evs = response_shape s"
    and req: "req = 1 \<longrightarrow> ?n \<le> 1 \<and> (rs_request_closed s \<longrightarrow> ?n = 1)" and resp: "resp = 1 \<longrightarrow> ?m \<le> 1"
    and unopened: "\<not> rs_opened s \<longrightarrow> ?n = 0 \<and> \<not> rs_request_closed s"
    and headers: "\<not> rs_response_headers s \<longrightarrow> ?m = 0"
    using assms by (auto simp: live_inv_def split: if_splits)
  show "request_side_ok req (event_kinds 0 evs)"
  proof (cases "rs_opened s")
    case True
    then have "event_kinds 0 evs = 1 # replicate ?n 3 @ ?c" by (simp add: kinds request_shape_def)
    moreover have "(?c = [] \<or> ?c = [4]) \<and> (req = 1 \<longrightarrow> ?n \<le> 1 \<and> (?c = [4] \<longrightarrow> ?n = 1))" using req by simp
    ultimately show ?thesis unfolding request_side_ok_def by blast
  next
    case False
    then show ?thesis using unopened by (simp add: kinds request_side_ok_def request_shape_def)
  qed
  have "event_kinds 1 evs = ?h @ replicate ?m 3" by (simp add: kinds response_shape_def)
  moreover have "(?h = [] \<and> ?m = 0 \<or> ?h = [2]) \<and> (resp = 1 \<longrightarrow> ?m \<le> 1)" using resp headers by simp
  ultimately show "\<exists>h m. event_kinds 1 evs = h @ replicate m 3 \<and> (h = [] \<and> m = 0 \<or> h = [2]) \<and>
      (resp = 1 \<longrightarrow> m \<le> 1)" by blast
qed

lemma event_final_0: "event_final e 0 \<longleftrightarrow> (\<exists>r. e = Record 1 r \<and> rh_kind r = 5 \<and> rh_status r = 0)"
  by (cases e) (auto simp: word_of_int_eq_0_iff zdvd_not_zless)

lemma live_success:
  assumes "live_inv req resp evs s" and "rs_opened s"
    and "req = 1 \<longrightarrow> rs_request_messages s = 1" and "resp = 1 \<longrightarrow> rs_response_messages s = 1"
    and "event_final e 0"
  shows "call_succeeded_ok req resp (evs @ [e])"
proof -
  from assms(5) obtain r where "e = Record 1 r" "rh_kind r = 5" unfolding event_final_0 by blast
  moreover have "opens_with_open evs" "event_kinds 0 evs = request_shape s" "event_kinds 1 evs = response_shape s"
    using assms(1,2) by (auto simp: live_inv_def)
  ultimately show ?thesis
    using assms(2-5)
    by (simp add: call_succeeded_ok_def opens_with_open_append request_shape_def response_shape_def
        count_list_replicate)
qed

lemma response_side_okI:
  assumes "\<exists>h m. ks = h @ replicate m 3 \<and> (h = [] \<and> m = 0 \<or> h = [2]) \<and> (resp = 1 \<longrightarrow> m \<le> 1)"
    and "f = [] \<or> f = [5]"
  shows "response_side_ok resp (ks @ f)"
proof -
  from assms(1) obtain h m where
    "ks = h @ replicate m 3 \<and> (h = [] \<and> m = 0 \<or> h = [2]) \<and> (resp = 1 \<longrightarrow> m \<le> 1)" by blast
  then show ?thesis
    unfolding response_side_ok_def using assms(2) by (intro exI [of _ h] exI [of _ m] exI [of _ f]) simp
qed

lemma event_final_kinds:
  assumes "event_final e st"
  shows "event_kinds 0 [e] = []" and "event_kinds 1 [e] = [] \<or> event_kinds 1 [e] = [5]"
  using assms by (cases e; simp)+

text \<open>C6: every accepted history of a call has the documented shape. The requests are OPEN, then messages,
  then at most one half close; the responses are at most one header record, messages only after it,
  then at most one final status; a ONE direction carries at most one message; and a call that ends
  with status OK was opened first, ends with the final status record, and carried exactly one
  message in each ONE direction.\<close>

theorem rpc_call_shape:
  assumes "rpc_call req resp evs s"
  shows "request_side_ok req (event_kinds 0 evs) \<and> response_side_ok resp (event_kinds 1 evs) \<and>
    (rs_terminal s \<and> rs_final_status s = 0 \<longrightarrow> call_succeeded_ok req resp evs)"
  using rpc_call_inv [OF assms]
proof
  assume live: "live_inv req resp evs s"
  then have "\<not> rs_terminal s" by (simp add: live_inv_def)
  then show ?thesis
    using live_sides(1) [OF live] response_side_okI [OF live_sides(2) [OF live], of "[]"] by simp
next
  assume "done_inv req resp evs s"
  then obtain s0 evs0 e st where d: "evs = evs0 @ [e]" "live_inv req resp evs0 s0" "event_final e st"
    "s = s0\<lparr>rs_terminal := True, rs_final_status := st\<rparr>"
    "st = 0 \<longrightarrow> rs_opened s0 \<and> (req = 1 \<longrightarrow> rs_request_messages s0 = 1) \<and>
      (resp = 1 \<longrightarrow> rs_response_messages s0 = 1)"
    by (auto simp: done_inv_def)
  have "response_side_ok resp (event_kinds 1 evs)"
    unfolding d(1) event_kinds_append
    using live_sides(2) [OF d(2)] event_final_kinds(2) [OF d(3)] by (rule response_side_okI)
  moreover have "rs_terminal s \<and> rs_final_status s = 0 \<longrightarrow> call_succeeded_ok req resp evs"
    using d(3,5) by (auto simp: d(1,4) intro!: live_success [OF d(2)])
  ultimately show ?thesis
    using live_sides(1) [OF d(2)] event_final_kinds(1) [OF d(3)] by (simp add: d(1))
qed

definition rpc_sample_record :: "u32 \<Rightarrow> tr_rpc_record_header" where
  "rpc_sample_record kind = rpc_record_zero_header\<lparr>rh_kind := kind,
     rh_codec_id := (if kind = 3 then 1 else 0)\<rparr>"

definition rpc_sample_call :: "rpc_event list" where
  "rpc_sample_call = [Record 0 (rpc_sample_record 1), Record 0 (rpc_sample_record 3), Record 1 (rpc_sample_record 2),
     Record 1 (rpc_sample_record 3), Record 1 (rpc_sample_record 5)]"

lemma rpc_sample_record_ok:
  "k \<in> {1, 2, 3, 4, 5} \<Longrightarrow> tr_rpc_record_validate (Some (rpc_sample_record k)) (Some rpc_record_shape) 0 = (TR_OK, 48)"
  by (subst tr_rpc_record_validate_accepts)
    (auto simp: tr_rpc_record_limits_valid_def rpc_record_shape_def rpc_record_ok_def rpc_sample_record_def
      rpc_record_zero_header_def rpc_record_size_def)

definition rpc_sample_done :: tr_rpc_record_state where
  "rpc_sample_done = (rpc_record_fresh_state 1 1)\<lparr>rs_opened := True, rs_request_messages := 1,
     rs_response_headers := True, rs_response_messages := 1, rs_terminal := True\<rparr>"


lemma rpc_sample_call_run: "rpc_call 1 1 rpc_sample_call rpc_sample_done"
proof -
  note ev = tr_rpc_record_state_apply_def rpc_sample_record_ok rpc_record_fresh_state_def
    rpc_apply_unopened_def rpc_apply_request_def rpc_apply_response_def
  have kind: "rh_kind (rpc_sample_record k) = k" "rh_status (rpc_sample_record k) = 0" for k
    by (simp_all add: rpc_sample_record_def rpc_record_zero_header_def)
  let ?s = "rpc_record_fresh_state 1 1"
  have "rpc_call 1 1 [] ?s"
    by (rule call_init [of "?s"]) (simp add: tr_rpc_record_state_init_def tr_rpc_record_cardinality_valid_def)
  then have "rpc_call 1 1 ([] @ [Record 0 (rpc_sample_record 1)]) (?s\<lparr>rs_opened := True\<rparr>)"
    by (rule call_record) (simp add: ev kind)
  then have "rpc_call 1 1 (([] @ [Record 0 (rpc_sample_record 1)]) @ [Record 0 (rpc_sample_record 3)])
      (?s\<lparr>rs_opened := True, rs_request_messages := 1\<rparr>)"
    by (rule call_record) (simp add: ev kind)
  then have "rpc_call 1 1 ((([] @ [Record 0 (rpc_sample_record 1)]) @ [Record 0 (rpc_sample_record 3)]) @
      [Record 1 (rpc_sample_record 2)])
      (?s\<lparr>rs_opened := True, rs_request_messages := 1, rs_response_headers := True\<rparr>)"
    by (rule call_record) (simp add: ev kind)
  then have "rpc_call 1 1 (((([] @ [Record 0 (rpc_sample_record 1)]) @ [Record 0 (rpc_sample_record 3)]) @
      [Record 1 (rpc_sample_record 2)]) @ [Record 1 (rpc_sample_record 3)])
      (?s\<lparr>rs_opened := True, rs_request_messages := 1, rs_response_headers := True, rs_response_messages := 1\<rparr>)"
    by (rule call_record) (simp add: ev kind)
  then have "rpc_call 1 1 ((((([] @ [Record 0 (rpc_sample_record 1)]) @ [Record 0 (rpc_sample_record 3)]) @
      [Record 1 (rpc_sample_record 2)]) @ [Record 1 (rpc_sample_record 3)]) @ [Record 1 (rpc_sample_record 5)])
      rpc_sample_done"
    by (rule call_record) (simp add: ev kind rpc_sample_done_def)
  then show ?thesis by (simp add: rpc_sample_call_def)
qed

theorem rpc_call_shape_witness: "call_succeeded_ok 1 1 rpc_sample_call"
  using rpc_call_shape [OF rpc_sample_call_run] by (simp add: rpc_sample_done_def rpc_record_fresh_state_def)



end
