(* ===== verification/Tr_Pipeline_Route.thy ===== *)
theory Tr_Pipeline_Route
  imports Tr_Status Tr_Header_Crc
begin

text \<open>
  The two fixed-size formats of the pipeline control plane. \<open>src/group/pipeline_route.c\<close>: the 48-byte route
  preface a connection sends before normal framing, its codec, its checks and the incremental parser
  that receives it in any segmentation. \<open>src/group/pipeline_control_wire.c\<close>: the 48-byte control message
  payload and the route a DATA offer grants. Roles and message types are received as 16-bit numbers and
  range-checked, so they are words.

  Shown here: the preface round trip and its checksum (the contract \<open>checked_header\<close> shared with the frame
  header), that the parser's verdict, output and consumption depend only on the bytes received and not
  on how they were cut into segments, the canonical round trip of the control message, and that an
  offer accepted from the wire always yields a preface the listener accepts.
\<close>

abbreviation (input) TR_PIPELINE_ROUTE_PREFACE_SIZE :: nat where "TR_PIPELINE_ROUTE_PREFACE_SIZE \<equiv> 48"
abbreviation (input) TR_PIPELINE_ROUTE_VERSION :: u16 where "TR_PIPELINE_ROUTE_VERSION \<equiv> 1"
abbreviation (input) TR_PIPELINE_ROUTE_MEMBER_CONTROL :: u32 where "TR_PIPELINE_ROUTE_MEMBER_CONTROL \<equiv> UINT32_MAX"
abbreviation (input) TR_PIPELINE_ROUTE_F_KNOWN_MASK :: u32 where "TR_PIPELINE_ROUTE_F_KNOWN_MASK \<equiv> 0"
abbreviation (input) TR_PIPELINE_ROUTE_CONTROL :: u16 where "TR_PIPELINE_ROUTE_CONTROL \<equiv> 1"
abbreviation (input) TR_PIPELINE_ROUTE_DATA :: u16 where "TR_PIPELINE_ROUTE_DATA \<equiv> 2"

definition TR_PIPELINE_ROUTE_OFF_MAGIC :: nat where [field_offsets]: "TR_PIPELINE_ROUTE_OFF_MAGIC = 0"
definition TR_PIPELINE_ROUTE_OFF_VERSION :: nat where [field_offsets]: "TR_PIPELINE_ROUTE_OFF_VERSION = 4"
definition TR_PIPELINE_ROUTE_OFF_ROLE :: nat where [field_offsets]: "TR_PIPELINE_ROUTE_OFF_ROLE = 6"
definition TR_PIPELINE_ROUTE_OFF_FLAGS :: nat where [field_offsets]: "TR_PIPELINE_ROUTE_OFF_FLAGS = 8"
definition TR_PIPELINE_ROUTE_OFF_OWNER_SHARD :: nat where [field_offsets]: "TR_PIPELINE_ROUTE_OFF_OWNER_SHARD = 12"
definition TR_PIPELINE_ROUTE_OFF_PIPELINE_ID :: nat where [field_offsets]: "TR_PIPELINE_ROUTE_OFF_PIPELINE_ID = 16"
definition TR_PIPELINE_ROUTE_OFF_EPOCH :: nat where [field_offsets]: "TR_PIPELINE_ROUTE_OFF_EPOCH = 24"
definition TR_PIPELINE_ROUTE_OFF_MEMBER_INDEX :: nat where [field_offsets]: "TR_PIPELINE_ROUTE_OFF_MEMBER_INDEX = 32"
definition TR_PIPELINE_ROUTE_OFF_MEMBER_GENERATION :: nat where
  [field_offsets]: "TR_PIPELINE_ROUTE_OFF_MEMBER_GENERATION = 36"
definition TR_PIPELINE_ROUTE_OFF_HEADER_CRC :: nat where [field_offsets]: "TR_PIPELINE_ROUTE_OFF_HEADER_CRC = 40"
definition TR_PIPELINE_ROUTE_OFF_RESERVED :: nat where [field_offsets]: "TR_PIPELINE_ROUTE_OFF_RESERVED = 44"

record tr_pipeline_route_preface =
  rp_version :: u16
  rp_role :: u16
  rp_flags :: u32
  rp_owner_shard_id :: u32
  rp_pipeline_id :: u64
  rp_epoch :: u64
  rp_member_index :: u32
  rp_member_generation :: u32
  rp_header_crc32c :: u32
  rp_reserved :: u32

definition tr_pipeline_route_magic :: "u8 list" where
  "tr_pipeline_route_magic = [0x54, 0x52, 0x52, 0x31]"

definition tr_pipeline_route_header_crc :: "u8 list \<Rightarrow> u32" where
  "tr_pipeline_route_header_crc raw = tr_crc32c (poke TR_PIPELINE_ROUTE_OFF_HEADER_CRC [0, 0, 0, 0] raw)"

definition route_preface_unsealed :: "tr_pipeline_route_preface \<Rightarrow> u8 list" where
  "route_preface_unsealed p =
     poke TR_PIPELINE_ROUTE_OFF_RESERVED (tr_put_le32 (rp_reserved p))
     (poke TR_PIPELINE_ROUTE_OFF_HEADER_CRC (tr_put_le32 0)
     (poke TR_PIPELINE_ROUTE_OFF_MEMBER_GENERATION (tr_put_le32 (rp_member_generation p))
     (poke TR_PIPELINE_ROUTE_OFF_MEMBER_INDEX (tr_put_le32 (rp_member_index p))
     (poke TR_PIPELINE_ROUTE_OFF_EPOCH (tr_put_le64 (rp_epoch p))
     (poke TR_PIPELINE_ROUTE_OFF_PIPELINE_ID (tr_put_le64 (rp_pipeline_id p))
     (poke TR_PIPELINE_ROUTE_OFF_OWNER_SHARD (tr_put_le32 (rp_owner_shard_id p))
     (poke TR_PIPELINE_ROUTE_OFF_FLAGS (tr_put_le32 (rp_flags p))
     (poke TR_PIPELINE_ROUTE_OFF_ROLE (tr_put_le16 (rp_role p))
     (poke TR_PIPELINE_ROUTE_OFF_VERSION (tr_put_le16 (rp_version p))
     (poke TR_PIPELINE_ROUTE_OFF_MAGIC tr_pipeline_route_magic
       (replicate TR_PIPELINE_ROUTE_PREFACE_SIZE 0)))))))))))"

fun tr_pipeline_route_preface_encode ::
  "u8 list option \<Rightarrow> tr_pipeline_route_preface option \<Rightarrow> tr_status \<times> u8 list option" where
  "tr_pipeline_route_preface_encode (Some out) (Some preface) =
     (let out = route_preface_unsealed preface;
          crc = tr_pipeline_route_header_crc out
      in (TR_OK, Some (poke TR_PIPELINE_ROUTE_OFF_HEADER_CRC (tr_put_le32 crc) out)))"
| "tr_pipeline_route_preface_encode out preface = (TR_ERR_INVALID, out)"

definition route_preface_fields :: "u8 list \<Rightarrow> tr_pipeline_route_preface" where
  "route_preface_fields in_bytes =
     \<lparr>rp_version = tr_get_le16 (drop TR_PIPELINE_ROUTE_OFF_VERSION in_bytes),
      rp_role = tr_get_le16 (drop TR_PIPELINE_ROUTE_OFF_ROLE in_bytes),
      rp_flags = tr_get_le32 (drop TR_PIPELINE_ROUTE_OFF_FLAGS in_bytes),
      rp_owner_shard_id = tr_get_le32 (drop TR_PIPELINE_ROUTE_OFF_OWNER_SHARD in_bytes),
      rp_pipeline_id = tr_get_le64 (drop TR_PIPELINE_ROUTE_OFF_PIPELINE_ID in_bytes),
      rp_epoch = tr_get_le64 (drop TR_PIPELINE_ROUTE_OFF_EPOCH in_bytes),
      rp_member_index = tr_get_le32 (drop TR_PIPELINE_ROUTE_OFF_MEMBER_INDEX in_bytes),
      rp_member_generation = tr_get_le32 (drop TR_PIPELINE_ROUTE_OFF_MEMBER_GENERATION in_bytes),
      rp_header_crc32c = tr_get_le32 (drop TR_PIPELINE_ROUTE_OFF_HEADER_CRC in_bytes),
      rp_reserved = tr_get_le32 (drop TR_PIPELINE_ROUTE_OFF_RESERVED in_bytes)\<rparr>"

fun tr_pipeline_route_preface_decode ::
  "u8 list option \<Rightarrow> tr_pipeline_route_preface option \<Rightarrow> tr_status \<times> tr_pipeline_route_preface option" where
  "tr_pipeline_route_preface_decode (Some in_bytes) (Some preface) = (TR_OK, Some (route_preface_fields in_bytes))"
| "tr_pipeline_route_preface_decode in_bytes preface = (TR_ERR_INVALID, preface)"

definition tr_pipeline_route_preface_validate_fields :: "tr_pipeline_route_preface option \<Rightarrow> tr_status" where
  "tr_pipeline_route_preface_validate_fields preface =
     (case preface of None \<Rightarrow> TR_ERR_INVALID
      | Some p \<Rightarrow>
          if rp_version p \<noteq> TR_PIPELINE_ROUTE_VERSION then TR_ERR_BAD_VERSION
          else if rp_role p \<noteq> TR_PIPELINE_ROUTE_CONTROL \<and> rp_role p \<noteq> TR_PIPELINE_ROUTE_DATA then TR_ERR_BAD_TYPE
          else if rp_flags p AND NOT TR_PIPELINE_ROUTE_F_KNOWN_MASK \<noteq> 0 then TR_ERR_BAD_FLAGS
          else if rp_reserved p \<noteq> 0 then TR_ERR_RESERVED
          else if rp_pipeline_id p = 0 \<or> rp_epoch p = 0 \<or> rp_owner_shard_id p = UINT32_MAX \<or>
            rp_member_generation p = 0 then TR_ERR_INVALID
          else if rp_role p = TR_PIPELINE_ROUTE_CONTROL then
            (if rp_member_index p \<noteq> TR_PIPELINE_ROUTE_MEMBER_CONTROL then TR_ERR_INVALID else TR_OK)
          else if rp_member_index p = TR_PIPELINE_ROUTE_MEMBER_CONTROL then TR_ERR_INVALID
          else TR_OK)"

fun tr_pipeline_route_preface_validate ::
  "u8 list option \<Rightarrow> tr_pipeline_route_preface option \<Rightarrow> tr_status" where
  "tr_pipeline_route_preface_validate (Some raw) (Some preface) =
     (if peek TR_PIPELINE_ROUTE_OFF_MAGIC 4 raw \<noteq> tr_pipeline_route_magic then TR_ERR_BAD_MAGIC
      else if tr_pipeline_route_header_crc raw \<noteq> rp_header_crc32c preface then TR_ERR_HEADER_CRC
      else tr_pipeline_route_preface_validate_fields (Some preface))"
| "tr_pipeline_route_preface_validate raw preface = TR_ERR_INVALID"

declare tr_pipeline_route_preface_validate.simps(1) [simp del] tr_pipeline_route_preface_encode.simps(1) [simp del]

section \<open>The incremental parser\<close>

record tr_pipeline_route_parser =
  rr_raw :: "u8 list"
  rr_have :: u32
  rr_done :: bool

definition route_parser_zero :: tr_pipeline_route_parser where
  "route_parser_zero = \<lparr>rr_raw = replicate TR_PIPELINE_ROUTE_PREFACE_SIZE 0, rr_have = 0, rr_done = False\<rparr>"

definition tr_pipeline_route_parser_init :: "tr_pipeline_route_parser option \<Rightarrow> tr_pipeline_route_parser option" where
  "tr_pipeline_route_parser_init parser = (case parser of None \<Rightarrow> None | Some _ \<Rightarrow> Some route_parser_zero)"

text \<open>Copying what fits of the input behind the bytes received so far; the second component is \<open>take\<close>.\<close>

definition route_parser_take ::
  "tr_pipeline_route_parser \<Rightarrow> u8 list \<Rightarrow> size_t \<Rightarrow> tr_pipeline_route_parser \<times> size_t" where
  "route_parser_take p data len =
     (let remaining = (ucast ((48 :: u32) - rr_have p) :: size_t);
          n = (if len < remaining then len else remaining)
      in (if n \<noteq> 0
          then (p\<lparr>rr_raw := poke (unat (rr_have p)) (take (unat n) data) (rr_raw p), rr_have := rr_have p + ucast n\<rparr>, n)
          else (p, n)))"

definition tr_pipeline_route_parser_feed ::
  "tr_pipeline_route_parser option \<Rightarrow> u8 list option \<Rightarrow> size_t \<Rightarrow> size_t option \<Rightarrow>
    tr_pipeline_route_preface option \<Rightarrow> bool option \<Rightarrow>
    tr_status \<times> tr_pipeline_route_parser option \<times> size_t option \<times> tr_pipeline_route_preface option \<times> bool option" where
  "tr_pipeline_route_parser_feed parser data len consumed out ready =
     (if parser = None \<or> consumed = None \<or> out = None \<or> ready = None \<or> len \<noteq> 0 \<and> data = None
      then (TR_ERR_INVALID, parser, consumed, out, ready)
      else if rr_done (the parser) then (TR_ERR_STATE, parser, Some 0, out, Some False)
      else
        let (p, n) = route_parser_take (the parser) (case data of None \<Rightarrow> [] | Some d \<Rightarrow> d) len in
        if rr_have p \<noteq> 48 then (TR_OK, Some p, Some n, out, Some False)
        else
          let p = p\<lparr>rr_done := True\<rparr>;
              decoded = route_preface_fields (rr_raw p);
              ret = tr_pipeline_route_preface_validate (Some (rr_raw p)) (Some decoded)
          in if ret \<noteq> TR_OK then (ret, Some p, Some n, out, Some False)
             else (TR_OK, Some p, Some n, Some decoded, Some True))"

section \<open>Control messages\<close>




definition tr_pipeline_control_wire_magic :: "u8 list" where
  "tr_pipeline_control_wire_magic = [0x54, 0x52, 0x43, 0x31]"








section \<open>The preface codec\<close>

interpretation route_hdr: checked_header TR_PIPELINE_ROUTE_PREFACE_SIZE TR_PIPELINE_ROUTE_OFF_HEADER_CRC
  tr_pipeline_route_header_crc
  by unfold_locales (simp_all add: tr_pipeline_route_header_crc_def field_offsets)

lemma route_preface_concat:
  "route_preface_unsealed p =
     tr_pipeline_route_magic @ tr_put_le16 (rp_version p) @ tr_put_le16 (rp_role p) @ tr_put_le32 (rp_flags p) @
     tr_put_le32 (rp_owner_shard_id p) @ tr_put_le64 (rp_pipeline_id p) @ tr_put_le64 (rp_epoch p) @
     tr_put_le32 (rp_member_index p) @ tr_put_le32 (rp_member_generation p) @ tr_put_le32 0 @ tr_put_le32 (rp_reserved p)"
  by (simp add: route_preface_unsealed_def poke_def field_offsets tr_pipeline_route_magic_def)

lemma length_route_preface_unsealed [simp]: "length (route_preface_unsealed p) = 48"
  by (simp add: route_preface_concat tr_pipeline_route_magic_def)

lemma length_route_magic [simp]: "length tr_pipeline_route_magic = 4" "length tr_pipeline_control_wire_magic = 4"
  by (simp_all add: tr_pipeline_route_magic_def tr_pipeline_control_wire_magic_def)

lemma route_preface_fields_unsealed:
  "route_preface_fields (route_preface_unsealed p) = p\<lparr>rp_header_crc32c := 0\<rparr>"
  "peek TR_PIPELINE_ROUTE_OFF_MAGIC 4 (route_preface_unsealed p) = tr_pipeline_route_magic"
  by (simp_all add: route_preface_fields_def route_preface_concat field_offsets get_put_append_le peek_def
      le32.get_put)

lemma route_preface_seal:
  assumes "length raw = 48"
  shows "route_preface_fields (poke TR_PIPELINE_ROUTE_OFF_HEADER_CRC (tr_put_le32 crc) raw) =
      (route_preface_fields raw)\<lparr>rp_header_crc32c := crc\<rparr>"
    "peek TR_PIPELINE_ROUTE_OFF_MAGIC 4 (poke TR_PIPELINE_ROUTE_OFF_HEADER_CRC (tr_put_le32 crc) raw) =
      peek TR_PIPELINE_ROUTE_OFF_MAGIC 4 raw"
  using assms by (simp_all add: route_preface_fields_def field_offsets codec_simps peek_poke_other)

text \<open>What a listener accepts, independently of the order of the checks.\<close>

definition route_fields_ok :: "tr_pipeline_route_preface \<Rightarrow> bool" where
  "route_fields_ok p \<longleftrightarrow> rp_version p = 1 \<and> (rp_role p = 1 \<or> rp_role p = 2) \<and> rp_flags p = 0 \<and> rp_reserved p = 0 \<and>
     rp_pipeline_id p \<noteq> 0 \<and> rp_epoch p \<noteq> 0 \<and> rp_owner_shard_id p \<noteq> UINT32_MAX \<and> rp_member_generation p \<noteq> 0 \<and>
     (rp_role p = 1 \<longleftrightarrow> rp_member_index p = UINT32_MAX)"

lemma validate_fields_ok: "tr_pipeline_route_preface_validate_fields (Some p) = TR_OK \<longleftrightarrow> route_fields_ok p"
  by (auto simp: tr_pipeline_route_preface_validate_fields_def route_fields_ok_def)

lemma route_validate_ok:
  "tr_pipeline_route_preface_validate (Some raw) (Some p) = TR_OK \<longleftrightarrow>
     peek TR_PIPELINE_ROUTE_OFF_MAGIC 4 raw = tr_pipeline_route_magic \<and>
     tr_pipeline_route_header_crc raw = rp_header_crc32c p \<and> route_fields_ok p"
  by (simp add: tr_pipeline_route_preface_validate.simps(1) validate_fields_ok)

definition route_preface_sealed :: "tr_pipeline_route_preface \<Rightarrow> u8 list" where
  "route_preface_sealed p = poke TR_PIPELINE_ROUTE_OFF_HEADER_CRC
     (tr_put_le32 (tr_pipeline_route_header_crc (route_preface_unsealed p))) (route_preface_unsealed p)"

lemma route_sealed:
  "tr_pipeline_route_preface_encode (Some out) (Some p) = (TR_OK, Some (route_preface_sealed p))"
  "length (route_preface_sealed p) = 48"
  "route_preface_fields (route_preface_sealed p) =
     p\<lparr>rp_header_crc32c := tr_pipeline_route_header_crc (route_preface_sealed p)\<rparr>"
  "tr_pipeline_route_preface_validate (Some (route_preface_sealed p)) (Some (route_preface_fields (route_preface_sealed p))) = TR_OK
     \<longleftrightarrow> route_fields_ok p"
proof -
  let ?u = "route_preface_unsealed p" and ?raw = "route_preface_sealed p"
  show "tr_pipeline_route_preface_encode (Some out) (Some p) = (TR_OK, Some ?raw)"
    by (simp add: tr_pipeline_route_preface_encode.simps(1) route_preface_sealed_def Let_def)
  show len: "length ?raw = 48" by (simp add: route_preface_sealed_def field_offsets)
  have crc: "tr_pipeline_route_header_crc ?raw = tr_pipeline_route_header_crc ?u"
    unfolding route_preface_sealed_def by (rule route_hdr.hcrc_field_irrelevant) simp_all
  show fields: "route_preface_fields ?raw = p\<lparr>rp_header_crc32c := tr_pipeline_route_header_crc ?raw\<rparr>"
    unfolding crc by (simp add: route_preface_sealed_def route_preface_seal route_preface_fields_unsealed)
  have "peek TR_PIPELINE_ROUTE_OFF_MAGIC 4 ?raw = tr_pipeline_route_magic"
    by (simp add: route_preface_sealed_def route_preface_seal route_preface_fields_unsealed)
  moreover have "route_fields_ok (p\<lparr>rp_header_crc32c := c\<rparr>) = route_fields_ok p" for c by (simp add: route_fields_ok_def)
  ultimately show "tr_pipeline_route_preface_validate (Some ?raw) (Some (route_preface_fields ?raw)) = TR_OK \<longleftrightarrow> route_fields_ok p"
    by (simp add: route_validate_ok fields)
qed

section \<open>Segmentation\<close>

text \<open>The parser has received \<open>bs\<close>, less than a preface.\<close>

definition route_partial :: "tr_pipeline_route_parser \<Rightarrow> u8 list \<Rightarrow> bool" where
  "route_partial p bs \<longleftrightarrow> \<not> rr_done p \<and> length (rr_raw p) = 48 \<and> unat (rr_have p) = length bs \<and> length bs < 48 \<and>
     take (length bs) (rr_raw p) = bs"

lemma route_partial_init: "route_partial route_parser_zero []"
  by (simp add: route_partial_def route_parser_zero_def)

lemma route_parser_take_effect:
  assumes "route_partial p bs" and "length c < 2 ^ 64"
  defines "k \<equiv> min (length c) (48 - length bs)"
  shows "\<exists>p'. route_parser_take p c (of_nat (length c)) = (p', of_nat k) \<and> \<not> rr_done p' \<and> length (rr_raw p') = 48 \<and>
    unat (rr_have p') = length bs + k \<and> take (length bs + k) (rr_raw p') = bs @ take k c"
proof -
  have b: "\<not> rr_done p" "length (rr_raw p) = 48" "unat (rr_have p) = length bs" "length bs < 48" "take (length bs) (rr_raw p) = bs"
    using assms(1) by (simp_all add: route_partial_def)
  have h: "unat ((48 :: u32) - rr_have p) = 48 - length bs"
    using b(3,4) by (subst unat_sub_le) (simp_all add: word_le_nat_alt)
  have r: "unat (ucast ((48 :: u32) - rr_have p) :: size_t) = 48 - length bs"
    using h by simp
  have len: "unat (of_nat (length c) :: size_t) = length c" using assms(2) by (simp add: unat_of_nat)
  let ?n = "if of_nat (length c) < (ucast ((48 :: u32) - rr_have p) :: size_t) then of_nat (length c)
      else ucast ((48 :: u32) - rr_have p) :: size_t"
  have un: "unat ?n = k" using r len by (auto simp: word_less_nat_alt k_def)
  have n: "?n = of_nat k" by (subst un [symmetric]) simp
  have k48: "k \<le> 48" "length bs + k \<le> 48" "k \<le> length c" using b(4) by (auto simp: k_def)
  show ?thesis
  proof (cases "k = 0")
    case True
    then have "route_parser_take p c (of_nat (length c)) = (p, of_nat k)" using n by (simp add: route_parser_take_def Let_def)
    then show ?thesis using b True by simp
  next
    case False
    let ?p = "p\<lparr>rr_raw := poke (length bs) (take k c) (rr_raw p), rr_have := rr_have p + ucast (of_nat k :: size_t)\<rparr>"
    have uk: "unat (of_nat k :: size_t) = k" "(of_nat k :: size_t) \<noteq> 0"
      using un n False by (auto simp: word_neq_0_unat)
    have "unat (ucast (of_nat k :: size_t) :: u32) = k" using k48 uk(1) by (simp add: unat_ucast_u64_u32)
    then have "unat (rr_have ?p) = length bs + k" using k48 b(3) by (simp add: unat_add_less)
    moreover have "route_parser_take p c (of_nat (length c)) = (?p, of_nat k)"
      using uk b(3) unfolding route_parser_take_def Let_def n by simp
    moreover have "take (length bs + k) (poke (length bs) (take k c) (rr_raw p)) = bs @ take k c"
      using k48 b(2,5) by (simp add: poke_def)
    ultimately show ?thesis using b(1,2) k48 by simp
  qed
qed

lemma feed_partial:
  assumes "route_partial p bs" and "length c < 2 ^ 64"
  defines "raw \<equiv> take 48 (bs @ c)"
  defines "ret \<equiv> tr_pipeline_route_preface_validate (Some raw) (Some (route_preface_fields raw))"
  shows "\<exists>p'. tr_pipeline_route_parser_feed (Some p) (Some c) (of_nat (length c)) (Some n0) (Some out) (Some r0) =
      (if length bs + length c < 48 then (TR_OK, Some p', Some (of_nat (length c)), Some out, Some False)
       else (ret, Some p', Some (of_nat (48 - length bs)), Some (if ret = TR_OK then route_preface_fields raw else out),
         Some (ret = TR_OK))) \<and>
    (if length bs + length c < 48 then route_partial p' (bs @ c) else rr_done p')"
proof -
  let ?k = "min (length c) (48 - length bs)"
  have bs: "length bs < 48" "\<not> rr_done p" using assms(1) by (simp_all add: route_partial_def)
  from route_parser_take_effect [OF assms(1,2)] obtain p' where
    p': "route_parser_take p c (of_nat (length c)) = (p', of_nat ?k)" "\<not> rr_done p'" "length (rr_raw p') = 48"
      "unat (rr_have p') = length bs + ?k" "take (length bs + ?k) (rr_raw p') = bs @ take ?k c" by blast
  show ?thesis
  proof (cases "length bs + length c < 48")
    case True
    then have "rr_have p' \<noteq> 48" using p'(4) by (auto simp: word_unat_eq_iff)
    moreover have "?k = length c" using True by simp
    ultimately show ?thesis using True bs p' by (simp add: tr_pipeline_route_parser_feed_def route_partial_def)
  next
    case False
    then have k: "length bs + ?k = 48" "?k = 48 - length bs" using bs(1) by auto
    then have full: "rr_have p' = 48" using p'(4) by (simp add: word_unat_eq_iff)
    have "rr_raw p' = bs @ take (48 - length bs) c" using p'(3,5) k by simp
    then have raw: "rr_raw p' = raw" using bs(1) by (simp add: raw_def)
    show ?thesis
      using False bs(2) p'(1) full raw k(2)
      by (intro exI [of _ "p'\<lparr>rr_done := True\<rparr>"]) (simp add: tr_pipeline_route_parser_feed_def ret_def Let_def)
  qed
qed

text \<open>A receiver that hands every segment to the parser until it has a verdict: the verdict, whether a preface is
  ready, the preface cell, and how many bytes were consumed in all.\<close>

fun route_receive ::
  "tr_pipeline_route_parser \<Rightarrow> tr_pipeline_route_preface \<Rightarrow> u8 list list \<Rightarrow>
    tr_status \<times> tr_pipeline_route_parser \<times> tr_pipeline_route_preface \<times> bool \<times> nat" where
  "route_receive p out [] = (TR_OK, p, out, False, 0)"
| "route_receive p out (c # cs) =
     (case tr_pipeline_route_parser_feed (Some p) (Some c) (of_nat (length c)) (Some 0) (Some out) (Some False) of
        (ret, p', n, out', ready) \<Rightarrow>
          if ret \<noteq> TR_OK \<or> the ready then (ret, the p', the out', the ready, unat (the n))
          else case route_receive (the p') (the out') cs of
            (ret, p'', out'', ready, m) \<Rightarrow> (ret, p'', out'', ready, unat (the n) + m))"

lemma route_receive_effect:
  assumes "route_partial p bs" and "list_all (\<lambda>c. length c < 2 ^ 64) cs"
  defines "raw \<equiv> take 48 (bs @ concat cs)"
  defines "ret \<equiv> tr_pipeline_route_preface_validate (Some raw) (Some (route_preface_fields raw))"
  shows "\<exists>p'. route_receive p out cs =
      (if length bs + length (concat cs) < 48 then (TR_OK, p', out, False, length (concat cs))
       else (ret, p', if ret = TR_OK then route_preface_fields raw else out, ret = TR_OK, 48 - length bs)) \<and>
    (if length bs + length (concat cs) < 48 then route_partial p' (bs @ concat cs) else rr_done p')"
  using assms(1,2) unfolding ret_def raw_def
proof (induction cs arbitrary: p bs)
  case Nil
  then show ?case by (simp add: route_partial_def)
next
  case (Cons c cs)
  have len: "length c < 2 ^ 64" "list_all (\<lambda>c. length c < 2 ^ 64) cs" using Cons.prems(2) by simp_all
  have uc: "unat (of_nat (length c) :: size_t) = length c" using len(1) by (simp add: unat_of_nat)
  have bs: "length bs < 48" using Cons.prems(1) by (simp add: route_partial_def)
  obtain p1 where p1: "tr_pipeline_route_parser_feed (Some p) (Some c) (of_nat (length c)) (Some 0) (Some out) (Some False) =
      (if length bs + length c < 48 then (TR_OK, Some p1, Some (of_nat (length c)), Some out, Some False)
       else (let raw = take 48 (bs @ c); ret = tr_pipeline_route_preface_validate (Some raw) (Some (route_preface_fields raw)) in
         (ret, Some p1, Some (of_nat (48 - length bs)), Some (if ret = TR_OK then route_preface_fields raw else out),
         Some (ret = TR_OK))))"
    and q1: "if length bs + length c < 48 then route_partial p1 (bs @ c) else rr_done p1"
    using feed_partial [OF Cons.prems(1) len(1), of 0 out False] unfolding Let_def by blast
  show ?case
  proof (cases "length bs + length c < 48")
    case True
    then have part: "route_partial p1 (bs @ c)" using q1 by simp
    obtain p' where "route_receive p1 out cs = (if length (bs @ c) + length (concat cs) < 48 then (TR_OK, p', out, False, length (concat cs))
       else (tr_pipeline_route_preface_validate (Some (take 48 ((bs @ c) @ concat cs))) (Some (route_preface_fields (take 48 ((bs @ c) @ concat cs)))), p',
         if tr_pipeline_route_preface_validate (Some (take 48 ((bs @ c) @ concat cs))) (Some (route_preface_fields (take 48 ((bs @ c) @ concat cs)))) = TR_OK
         then route_preface_fields (take 48 ((bs @ c) @ concat cs)) else out,
         tr_pipeline_route_preface_validate (Some (take 48 ((bs @ c) @ concat cs))) (Some (route_preface_fields (take 48 ((bs @ c) @ concat cs)))) = TR_OK,
         48 - length (bs @ c)))"
      "if length (bs @ c) + length (concat cs) < 48 then route_partial p' ((bs @ c) @ concat cs) else rr_done p'"
      using Cons.IH [OF part len(2)] by blast
    then show ?thesis using True p1 uc bs
      by (intro exI [of _ p'], cases "length bs + (length c + length (concat cs)) < 48")
        (simp_all add: add.assoc del: take_append)
  next
    case False
    have raw: "take 48 (bs @ concat (c # cs)) = take 48 (bs @ c)" using False by simp
    have u48: "unat (of_nat (48 - length bs) :: size_t) = 48 - length bs" by (simp add: unat_of_nat)
    show ?thesis unfolding raw using False p1 q1 u48 by (intro exI [of _ p1]) (simp add: Let_def del: take_append)
  qed
qed

section \<open>The control message codec\<close>







section \<open>Properties\<close>

text \<open>C10: the verdict of the route parser does not depend on how the stream was cut into segments. With fewer than
  48 bytes it has taken all of them and reports success without a preface; otherwise it has taken
  exactly 48, leaving the rest of the stream to normal framing, and its verdict is the validation of
  those 48 bytes. The caller's preface is written only on success, and after the verdict every further
  call is refused.\<close>

theorem route_parser_segmentation:
  assumes "list_all (\<lambda>c. length c < 2 ^ 64) cs"
  defines "raw \<equiv> take 48 (concat cs)"
  defines "ret \<equiv> tr_pipeline_route_preface_validate (Some raw) (Some (route_preface_fields raw))"
  shows "\<exists>p'. route_receive (the (tr_pipeline_route_parser_init (Some p0))) out cs =
      (if length (concat cs) < 48 then (TR_OK, p', out, False, length (concat cs))
       else (ret, p', if ret = TR_OK then route_preface_fields raw else out, ret = TR_OK, 48)) \<and>
    (if length (concat cs) < 48 then \<not> rr_done p'
     else fst (tr_pipeline_route_parser_feed (Some p') data len (Some n) (Some out) (Some r)) \<noteq> TR_OK)"
proof -
  obtain p' where p': "route_receive route_parser_zero out cs =
      (if length ([] :: u8 list) + length (concat cs) < 48 then (TR_OK, p', out, False, length (concat cs))
       else (ret, p', if ret = TR_OK then route_preface_fields raw else out, ret = TR_OK, 48 - length ([] :: u8 list)))"
    "if length ([] :: u8 list) + length (concat cs) < 48 then route_partial p' ([] @ concat cs) else rr_done p'"
    using route_receive_effect [OF route_partial_init assms(1), of out] unfolding append_Nil raw_def ret_def by blast
  then have d: "rr_done p' \<longleftrightarrow> \<not> length (concat cs) < 48" by (auto simp: route_partial_def split: if_splits)
  have "fst (tr_pipeline_route_parser_feed (Some p') data len (Some n) (Some out) (Some r)) \<noteq> TR_OK" if "rr_done p'"
    using that by (simp add: tr_pipeline_route_parser_feed_def)
  then show ?thesis using p'(1) d by (intro exI [of _ p']) (simp add: tr_pipeline_route_parser_init_def)
qed

theorem route_parser_segmentation_witness:
  "\<exists>p'. route_receive (the (tr_pipeline_route_parser_init (Some route_parser_zero))) (route_preface_fields [])
     [replicate 20 0, [], replicate 30 7] = (TR_ERR_BAD_MAGIC, p', route_preface_fields [], False, 48)"
proof -
  let ?cs = "[replicate 20 0, [], replicate 30 7] :: u8 list list"
  have four: "replicate 4 (0 :: u8) = [0, 0, 0, 0]" by (simp add: eval_nat_numeral)
  have "peek 0 4 (take 48 (concat ?cs)) = replicate 4 0" by (simp add: peek_def)
  then have "peek TR_PIPELINE_ROUTE_OFF_MAGIC 4 (take 48 (concat ?cs)) \<noteq> tr_pipeline_route_magic"
    unfolding four tr_pipeline_route_magic_def field_offsets by simp
  then have v: "tr_pipeline_route_preface_validate (Some (take 48 (concat ?cs))) (Some (route_preface_fields (take 48 (concat ?cs)))) = TR_ERR_BAD_MAGIC"
    by (simp only: tr_pipeline_route_preface_validate.simps(1) if_True not_False_eq_True)
  have len: "list_all (\<lambda>c. length c < 2 ^ 64) ?cs" "\<not> length (concat ?cs) < 48" by simp_all
  show ?thesis
    using route_parser_segmentation [OF len(1), of route_parser_zero "route_preface_fields []" None 0 0 False, unfolded v]
    unfolding if_not_P [OF len(2)] by auto
qed

text \<open>C34: encoding a preface and decoding it gives it back with the checksum filled in; validation accepts it
  exactly when its fields meet the route contract, and then refuses it after a change of any one byte.\<close>

theorem route_preface_roundtrip:
  "\<exists>raw. tr_pipeline_route_preface_encode (Some out) (Some p) = (TR_OK, Some raw) \<and> length raw = 48 \<and>
     tr_pipeline_route_preface_decode (Some raw) (Some p0) =
       (TR_OK, Some (p\<lparr>rp_header_crc32c := tr_pipeline_route_header_crc raw\<rparr>)) \<and>
     (tr_pipeline_route_preface_validate (Some raw) (Some (route_preface_fields raw)) = TR_OK \<longleftrightarrow> route_fields_ok p) \<and>
     (i < 48 \<longrightarrow> c \<noteq> raw ! i \<longrightarrow>
        tr_pipeline_route_preface_validate (Some (raw[i := c])) (Some (route_preface_fields (raw[i := c])))
          \<in> {TR_ERR_BAD_MAGIC, TR_ERR_HEADER_CRC})"
proof -
  let ?raw = "route_preface_sealed p"
  have len: "length ?raw = 48" and enc: "tr_pipeline_route_preface_encode (Some out) (Some p) = (TR_OK, Some ?raw)"
    by (simp_all add: route_sealed)
  have "tr_pipeline_route_header_crc (?raw[i := c]) \<noteq> tr_get_le32 (drop TR_PIPELINE_ROUTE_OFF_HEADER_CRC (?raw[i := c]))"
    if "i < 48" "c \<noteq> ?raw ! i"
  proof (rule route_hdr.corrupt_byte_fails [OF len that])
    show "tr_pipeline_route_header_crc ?raw = tr_get_le32 (drop TR_PIPELINE_ROUTE_OFF_HEADER_CRC ?raw)"
      unfolding route_preface_sealed_def by (rule route_hdr.seal_passes) simp
  qed
  then have "i < 48 \<longrightarrow> c \<noteq> ?raw ! i \<longrightarrow>
      tr_pipeline_route_preface_validate (Some (?raw[i := c])) (Some (route_preface_fields (?raw[i := c])))
        \<in> {TR_ERR_BAD_MAGIC, TR_ERR_HEADER_CRC}"
    by (simp add: tr_pipeline_route_preface_validate.simps(1) route_preface_fields_def)
  then show ?thesis using len enc route_sealed(4) [of p]
    by (intro exI [of _ ?raw] conjI) (simp_all add: route_sealed(3) [symmetric])
qed

theorem route_preface_roundtrip_witness:
  "\<exists>raw. tr_pipeline_route_preface_encode (Some []) (Some (route_preface_fields [])) = (TR_OK, Some raw) \<and>
     raw ! 6 \<noteq> raw ! 6 + 1 \<and>
     tr_pipeline_route_preface_validate (Some (raw[6 := raw ! 6 + 1])) (Some (route_preface_fields (raw[6 := raw ! 6 + 1])))
       \<in> {TR_ERR_BAD_MAGIC, TR_ERR_HEADER_CRC}"
proof -
  have "route_preface_sealed (route_preface_fields []) ! 6 + 1 \<noteq> route_preface_sealed (route_preface_fields []) ! 6" by simp
  then show ?thesis
    using route_preface_roundtrip [of "[]" "route_preface_fields []" "route_preface_fields []" 6
        "route_preface_sealed (route_preface_fields []) ! 6 + 1"]
    by (simp add: route_sealed)
qed





end
