(* ===== verification/Tr_Free_List.thy ===== *)
theory Tr_Free_List
  imports Main
begin

text \<open>
  Free lists threaded through the entries of a table: a chain of links from a head to \<open>None\<close>, through
  exactly the entries that are not in use. What the buffer pool and the task
  executor need: taking the head of a list, putting an entry in front, appending one at the end.
\<close>

fun chain :: "('i \<Rightarrow> 'i option) \<Rightarrow> 'i option \<Rightarrow> 'i list \<Rightarrow> bool" where
  "chain nx h [] \<longleftrightarrow> h = None"
| "chain nx h (i # is) \<longleftrightarrow> h = Some i \<and> chain nx (nx i) is"

text \<open>Appending an entry to a queue with a tail link.\<close>

lemma chain_snoc:
  assumes "chain nx h is" and "distinct is" and "i \<notin> set is" and "\<And>j. j \<in> set (butlast is) \<Longrightarrow> nx' j = nx j"
    and "is \<noteq> [] \<Longrightarrow> nx' (last is) = Some i" and "nx' i = None" and "h' = (if is = [] then Some i else h)"
  shows "chain nx' h' (is @ [i])"
  using assms
proof (induction "is" arbitrary: h h')
  case (Cons j js)
  have "chain nx' (nx' j) (js @ [i])"
    by (rule Cons.IH [of "nx j"]) (use Cons.prems in \<open>auto split: if_splits\<close>)
  then show ?case using Cons.prems by simp
qed simp

definition free_list :: "('i \<Rightarrow> 'i option) \<Rightarrow> 'i option \<Rightarrow> 'i set \<Rightarrow> nat \<Rightarrow> bool" where
  "free_list nx h F n \<longleftrightarrow> (\<exists>is. chain nx h is \<and> distinct is \<and> set is = F \<and> length is = n)"

lemma chain_cong: "(\<And>i. i \<in> set is \<Longrightarrow> nx' i = nx i) \<Longrightarrow> chain nx' h is \<longleftrightarrow> chain nx h is"
  by (induction "is" arbitrary: h) auto

lemma free_list_card: "free_list nx h F n \<Longrightarrow> card F = n \<and> finite F"
  by (auto simp: free_list_def distinct_card)

lemma free_list_cong:
  assumes "\<And>i. i \<in> F \<Longrightarrow> nx' i = nx i"
  shows "free_list nx' h F n \<longleftrightarrow> free_list nx h F n"
  unfolding free_list_def using chain_cong [of _ nx' nx] assms by blast

lemma free_list_head: "free_list nx (Some i) F n \<Longrightarrow> i \<in> F \<and> 0 < n"
proof -
  assume "free_list nx (Some i) F n"
  then obtain "is" where "chain nx (Some i) is" "set is = F" "length is = n" by (auto simp: free_list_def)
  then show ?thesis by (cases "is") auto
qed

lemma free_list_None: "free_list nx None F n \<longleftrightarrow> F = {} \<and> n = 0"
proof -
  have "chain nx None is \<longleftrightarrow> is = []" for "is" by (cases "is") simp_all
  then show ?thesis by (auto simp: free_list_def)
qed

lemma free_list_take:
  assumes "free_list nx (Some i) F n" and "\<And>j. j \<noteq> i \<Longrightarrow> nx' j = nx j"
  shows "free_list nx' (nx i) (F - {i}) (n - 1)"
proof -
  obtain "is" where "is": "chain nx (Some i) is" "distinct is" "set is = F" "length is = n"
    using assms(1) by (auto simp: free_list_def)
  then obtain js where js: "is = i # js" by (cases "is") auto
  then have "chain nx' (nx i) js"
    using "is"(1,2) assms(2) chain_cong [of js nx' nx "nx i"] by (metis chain.simps(2) distinct.simps(2))
  then show ?thesis using "is" js by (auto simp: free_list_def)
qed

lemma free_list_put:
  assumes "free_list nx h F n" and "i \<notin> F" and "\<And>j. j \<noteq> i \<Longrightarrow> nx' j = nx j" and "nx' i = h"
  shows "free_list nx' (Some i) (insert i F) (Suc n)"
proof -
  obtain "is" where "is": "chain nx h is" "distinct is" "set is = F" "length is = n"
    using assms(1) by (auto simp: free_list_def)
  have "chain nx' h is" using "is"(1,3) assms(2,3) chain_cong [of "is" nx' nx h] by metis
  then show ?thesis
    using "is" assms(2,4) unfolding free_list_def by (intro exI [of _ "i # is"]) simp
qed

end
