(* ===== verification/Tr_Buffer.thy ===== *)
theory Tr_Buffer
  imports Tr_Memory_Budget Tr_Free_List
begin

text \<open>
  The buffer pools of \<open>src/execution/buffer.c\<close>: a fixed array of descriptors with a free list, either with one
  block of storage cut into equal buffers, or growing the buffer of a descriptor on demand while it is
  taken. Descriptors are named by their index in the array, buffer contents are not modelled, a data
  pointer is an address, relative to the storage block in a fixed pool. Memory comes from the budgets
  of \<open>Tr_Memory_Budget\<close>. The critical section of an operation is one function; \<open>tr_buffer_acquire\<close> grows the
  buffer after its critical section, when the descriptor is already its own, so the model has that part
  as a function of its own. The size of a descriptor is the 48 bytes of the LP64 layout.

  Shown here: the pool never hands out a descriptor twice, its two assertions never fire, releasing
  twice has no effect, closing is final, and the bytes charged to the budgets are exactly those of the
  descriptors and buffers the pool owns, down to nothing when it is destroyed.
\<close>

abbreviation (input) sizeof_tr_buffer :: u64 where "sizeof_tr_buffer \<equiv> 48"

record tr_buffer =
  bf_data :: "nat option"
  bf_capacity :: u32
  bf_len :: u32
  bf_next :: "nat option"
  bf_checked_out :: bool
  bf_release_cb :: "nat option"

record tr_buffer_pool =
  bp_buffers :: "tr_buffer list option"
  bp_storage :: bool
  bp_free_list :: "nat option"
  bp_buffer_count :: u32
  bp_buffer_size :: u32
  bp_free_count :: u32
  bp_peak_in_use :: u32
  bp_exhausted_events :: u64
  bp_closed :: bool
  bp_memory_budget :: "nat option"

text \<open>A buffer a caller holds: none, a descriptor of the pool, or a buffer without a pool.\<close>

datatype tr_buffer_ptr = Buffer_Null | Buffer_Pooled nat | Buffer_Loose tr_buffer

record tr_pool_observation =
  po_capacity :: u32
  po_current :: u32
  po_peak :: u32
  po_exhausted_events :: u64

definition buffer_zero :: tr_buffer where
  "buffer_zero = \<lparr>bf_data = None, bf_capacity = 0, bf_len = 0, bf_next = None, bf_checked_out = False,
     bf_release_cb = None\<rparr>"

definition buffer_pool_zero :: tr_buffer_pool where
  "buffer_pool_zero = \<lparr>bp_buffers = None, bp_storage = False, bp_free_list = None, bp_buffer_count = 0,
     bp_buffer_size = 0, bp_free_count = 0, bp_peak_in_use = 0, bp_exhausted_events = 0, bp_closed = False,
     bp_memory_budget = None\<rparr>"

definition bp_buffer :: "tr_buffer_pool \<Rightarrow> nat \<Rightarrow> tr_buffer" where
  "bp_buffer p i = the (bp_buffers p) ! i"

definition bp_set_buffer :: "nat \<Rightarrow> tr_buffer \<Rightarrow> tr_buffer_pool \<Rightarrow> tr_buffer_pool" where
  "bp_set_buffer i b p = p\<lparr>bp_buffers := map_option (\<lambda>bs. bs[i := b]) (bp_buffers p)\<rparr>"

definition tr_buffer_budget_reserve :: "budgets \<Rightarrow> nat option \<Rightarrow> u64 \<Rightarrow> tr_status \<times> budgets" where
  "tr_buffer_budget_reserve st budget bytes =
     (if budget \<noteq> None then tr_memory_budget_reserve st budget bytes else (TR_OK, st))"

definition tr_buffer_budget_release :: "budgets \<Rightarrow> nat option \<Rightarrow> u64 \<Rightarrow> budgets" where
  "tr_buffer_budget_release st budget bytes =
     (if budget \<noteq> None \<and> bytes \<noteq> 0 then snd (tr_memory_budget_release st budget bytes) else st)"

text \<open>One round of the loop that puts the descriptors of a new pool on the free list; \<open>f\<close> sets the data pointer and
  capacity of a fixed pool.\<close>

definition bp_thread :: "(nat \<Rightarrow> tr_buffer \<Rightarrow> tr_buffer) \<Rightarrow> nat \<Rightarrow> tr_buffer_pool \<Rightarrow> tr_buffer_pool" where
  "bp_thread f i p = (bp_set_buffer i ((f i (bp_buffer p i))\<lparr>bf_next := bp_free_list p\<rparr>) p)\<lparr>bp_free_list := Some i\<rparr>"

definition bp_fixed_buffer :: "u32 \<Rightarrow> nat \<Rightarrow> tr_buffer \<Rightarrow> tr_buffer" where
  "bp_fixed_buffer buffer_size i b =
     b\<lparr>bf_data := Some (i * unat buffer_size), bf_capacity := buffer_size, bf_len := 0\<rparr>"

definition tr_buffer_pool_init_budgeted ::
  "bool \<Rightarrow> bool \<Rightarrow> bool \<Rightarrow> budgets \<Rightarrow> tr_buffer_pool option \<Rightarrow> u32 \<Rightarrow> u32 \<Rightarrow> nat option \<Rightarrow>
    tr_status \<times> tr_buffer_pool option \<times> budgets" where
  "tr_buffer_pool_init_budgeted buffers_alloc storage_alloc mutex_ok st pool buffer_count buffer_size budget =
     (if pool = None \<or> buffer_count = 0 \<or> buffer_size = 0 then (TR_ERR_INVALID, pool, st)
      else if (SIZE_MAX :: size_t) div ucast buffer_size < ucast buffer_count then (TR_ERR_BAD_LENGTH, pool, st)
      else
        let p = buffer_pool_zero;
            descriptor_bytes = ucast buffer_count * sizeof_tr_buffer;
            storage_bytes = ucast buffer_count * ucast buffer_size;
            (ret, st) = tr_buffer_budget_reserve st budget descriptor_bytes
        in if ret \<noteq> TR_OK then (ret, Some p, st)
        else
          let (ret, st) = tr_buffer_budget_reserve st budget storage_bytes in
          if ret \<noteq> TR_OK then (ret, Some p, tr_buffer_budget_release st budget descriptor_bytes)
          else if \<not> buffers_alloc \<or> \<not> storage_alloc \<or> \<not> mutex_ok then
            (if \<not> buffers_alloc \<or> \<not> storage_alloc then TR_ERR_NOMEM else TR_ERR_INVALID, Some p,
             tr_buffer_budget_release (tr_buffer_budget_release st budget storage_bytes) budget descriptor_bytes)
          else
            let p = p\<lparr>bp_buffers := Some (replicate (unat buffer_count) buffer_zero), bp_storage := True,
                  bp_buffer_count := buffer_count, bp_buffer_size := buffer_size, bp_free_count := buffer_count,
                  bp_memory_budget := budget\<rparr>
            in (TR_OK, Some (fold (bp_thread (bp_fixed_buffer buffer_size)) [0..<unat buffer_count] p), st))"

definition tr_buffer_pool_init ::
  "bool \<Rightarrow> bool \<Rightarrow> bool \<Rightarrow> budgets \<Rightarrow> tr_buffer_pool option \<Rightarrow> u32 \<Rightarrow> u32 \<Rightarrow>
    tr_status \<times> tr_buffer_pool option \<times> budgets" where
  "tr_buffer_pool_init buffers_alloc storage_alloc mutex_ok st pool buffer_count buffer_size =
     tr_buffer_pool_init_budgeted buffers_alloc storage_alloc mutex_ok st pool buffer_count buffer_size None"

definition tr_buffer_pool_init_dynamic_budgeted ::
  "bool \<Rightarrow> bool \<Rightarrow> budgets \<Rightarrow> tr_buffer_pool option \<Rightarrow> u32 \<Rightarrow> u32 \<Rightarrow> nat option \<Rightarrow>
    tr_status \<times> tr_buffer_pool option \<times> budgets" where
  "tr_buffer_pool_init_dynamic_budgeted buffers_alloc mutex_ok st pool buffer_count max_buffer_size budget =
     (if pool = None \<or> buffer_count = 0 \<or> max_buffer_size = 0 then (TR_ERR_INVALID, pool, st)
      else
        let p = buffer_pool_zero;
            descriptor_bytes = ucast buffer_count * sizeof_tr_buffer;
            (ret, st) = tr_buffer_budget_reserve st budget descriptor_bytes
        in if ret \<noteq> TR_OK then (ret, Some p, st)
        else if \<not> buffers_alloc then (TR_ERR_NOMEM, Some p, tr_buffer_budget_release st budget descriptor_bytes)
        else if \<not> mutex_ok then (TR_ERR_INVALID, Some p, tr_buffer_budget_release st budget descriptor_bytes)
        else
          let p = p\<lparr>bp_buffers := Some (replicate (unat buffer_count) buffer_zero), bp_buffer_count := buffer_count,
                bp_buffer_size := max_buffer_size, bp_free_count := buffer_count, bp_memory_budget := budget\<rparr>
          in (TR_OK, Some (fold (bp_thread (\<lambda>i b. b)) [0..<unat buffer_count] p), st))"

definition tr_buffer_pool_init_dynamic ::
  "bool \<Rightarrow> bool \<Rightarrow> budgets \<Rightarrow> tr_buffer_pool option \<Rightarrow> u32 \<Rightarrow> u32 \<Rightarrow> tr_status \<times> tr_buffer_pool option \<times> budgets" where
  "tr_buffer_pool_init_dynamic buffers_alloc mutex_ok st pool buffer_count max_buffer_size =
     tr_buffer_pool_init_dynamic_budgeted buffers_alloc mutex_ok st pool buffer_count max_buffer_size None"

definition tr_buffer_pool_destroy ::
  "budgets \<Rightarrow> tr_buffer_pool option \<Rightarrow> tr_status \<times> tr_buffer_pool option \<times> budgets" where
  "tr_buffer_pool_destroy st pool =
     (case pool of None \<Rightarrow> (TR_OK, None, st)
      | Some p \<Rightarrow>
          if bp_buffers p = None \<and> bp_buffer_count p = 0 then (TR_OK, pool, st)
          else
            let p = p\<lparr>bp_closed := True\<rparr>;
                buffers = the (bp_buffers p)
            in if bp_free_count p \<noteq> bp_buffer_count p then (TR_ERR_STATE, Some p, st)
            else if list_ex bf_checked_out (take (unat (bp_buffer_count p)) buffers) then (TR_ERR_STATE, Some p, st)
            else
              let budget = bp_memory_budget p;
                  storage = bp_storage p;
                  descriptor_bytes = ucast (bp_buffer_count p) * sizeof_tr_buffer;
                  fixed_storage_bytes = (if storage then ucast (bp_buffer_count p) * ucast (bp_buffer_size p) else 0);
                  st = (if \<not> storage
                        then fold (\<lambda>b st. tr_buffer_budget_release st budget (ucast (bf_capacity b)))
                          (take (unat (bp_buffer_count p)) buffers) st
                        else st);
                  st = tr_buffer_budget_release st budget fixed_storage_bytes;
                  st = tr_buffer_budget_release st budget descriptor_bytes
              in (TR_OK, Some (buffer_pool_zero\<lparr>bp_closed := True\<rparr>), st))"

text \<open>The critical section of \<open>tr_buffer_release\<close> on a descriptor of the pool.\<close>

definition bp_give_back :: "nat \<Rightarrow> tr_buffer_pool \<Rightarrow> tr_buffer_pool" where
  "bp_give_back i p =
     (if \<not> bf_checked_out (bp_buffer p i) then p
      else
        (bp_set_buffer i ((bp_buffer p i)\<lparr>bf_checked_out := False, bf_len := 0, bf_next := bp_free_list p\<rparr>) p)
          \<lparr>bp_free_list := Some i, bp_free_count := bp_free_count p + 1\<rparr>)"

text \<open>The second component is the call of a release callback, with the buffer it gets.\<close>

definition tr_buffer_release :: "tr_buffer_pool \<Rightarrow> tr_buffer_ptr \<Rightarrow> tr_buffer_pool \<times> (nat \<times> tr_buffer) option" where
  "tr_buffer_release p buffer =
     (case buffer of Buffer_Null \<Rightarrow> (p, None)
      | Buffer_Loose b \<Rightarrow> (p, map_option (\<lambda>release_cb. (release_cb, b\<lparr>bf_release_cb := None\<rparr>)) (bf_release_cb b))
      | Buffer_Pooled i \<Rightarrow> (bp_give_back i p, None))"

text \<open>The part of the critical section of \<open>tr_buffer_acquire\<close> that takes descriptor \<open>i\<close> off the free list.\<close>

definition bp_take_out :: "nat \<Rightarrow> tr_buffer_pool \<Rightarrow> tr_buffer_pool" where
  "bp_take_out i p =
     (let b = bp_buffer p i;
          in_use = bp_buffer_count p - (bp_free_count p - 1)
      in (bp_set_buffer i (b\<lparr>bf_checked_out := True, bf_next := None, bf_len := 0, bf_release_cb := None\<rparr>) p)
        \<lparr>bp_free_list := bf_next b, bp_free_count := bp_free_count p - 1,
         bp_peak_in_use := (if bp_peak_in_use p < in_use then in_use else bp_peak_in_use p)\<rparr>)"

text \<open>Growing the buffer of descriptor \<open>i\<close> after the critical section; \<open>data\<close> is what \<open>realloc\<close> returns.\<close>

definition bp_grow ::
  "nat option \<Rightarrow> budgets \<Rightarrow> tr_buffer_pool \<Rightarrow> nat \<Rightarrow> u32 \<Rightarrow> tr_status \<times> tr_buffer_pool \<times> budgets" where
  "bp_grow data st p i min_capacity =
     (let old_capacity = bf_capacity (bp_buffer p i);
          growth = ucast min_capacity - ucast old_capacity;
          (ret, st) = tr_buffer_budget_reserve st (bp_memory_budget p) growth
      in if ret \<noteq> TR_OK then (ret, fst (tr_buffer_release p (Buffer_Pooled i)), st)
      else if data = None
      then (TR_ERR_NOMEM, fst (tr_buffer_release p (Buffer_Pooled i)), tr_buffer_budget_release st (bp_memory_budget p) growth)
      else (TR_OK, bp_set_buffer i ((bp_buffer p i)\<lparr>bf_data := data, bf_capacity := min_capacity\<rparr>) p, st))"

definition tr_buffer_acquire ::
  "nat option \<Rightarrow> budgets \<Rightarrow> tr_buffer_pool option \<Rightarrow> u32 \<Rightarrow> nat option option \<Rightarrow>
    tr_status \<times> tr_buffer_pool option \<times> budgets \<times> nat option option" where
  "tr_buffer_acquire data st pool min_capacity out =
     (if pool = None \<or> out = None \<or> min_capacity = 0 then (TR_ERR_INVALID, pool, st, out)
      else
        let p = the pool in
        if bp_closed p then (TR_ERR_CLOSED, pool, st, Some None)
        else if bp_buffer_size p < min_capacity then (TR_ERR_BAD_LENGTH, pool, st, Some None)
        else
          (case bp_free_list p of
             None \<Rightarrow> (TR_AGAIN, Some (p\<lparr>bp_exhausted_events := bp_exhausted_events p + 1\<rparr>), st, Some None)
           | Some i \<Rightarrow>
               let p = bp_take_out i p in
               if \<not> bp_storage p \<and> bf_capacity (bp_buffer p i) < min_capacity then
                 let (ret, p, st) = bp_grow data st p i min_capacity
                 in (ret, Some p, st, Some (if ret = TR_OK then Some i else None))
               else (TR_OK, Some p, st, Some (Some i))))"

definition tr_buffer_pool_free_count :: "tr_buffer_pool option \<Rightarrow> u32" where
  "tr_buffer_pool_free_count pool = (case pool of None \<Rightarrow> 0 | Some p \<Rightarrow> bp_free_count p)"

definition tr_buffer_pool_get_stats ::
  "tr_buffer_pool option \<Rightarrow> tr_pool_observation option \<Rightarrow> tr_status \<times> tr_pool_observation option" where
  "tr_buffer_pool_get_stats pool out =
     (case (pool, out) of
        (Some p, Some _) \<Rightarrow> (TR_OK, Some \<lparr>po_capacity = bp_buffer_count p,
          po_current = bp_buffer_count p - bp_free_count p, po_peak = bp_peak_in_use p,
          po_exhausted_events = bp_exhausted_events p\<rparr>)
      | _ \<Rightarrow> (TR_ERR_INVALID, out))"

section \<open>The invariant\<close>

definition pool_free :: "tr_buffer_pool \<Rightarrow> nat set" where
  "pool_free p = {i. i < length (the (bp_buffers p)) \<and> \<not> bf_checked_out (bp_buffer p i)}"

definition buffer_ok :: "tr_buffer_pool \<Rightarrow> nat \<Rightarrow> bool" where
  "buffer_ok p i \<longleftrightarrow>
     (if bp_storage p then bf_data (bp_buffer p i) = Some (i * unat (bp_buffer_size p)) \<and> bf_capacity (bp_buffer p i) = bp_buffer_size p
      else bf_capacity (bp_buffer p i) \<le> bp_buffer_size p)"

definition pool_inv :: "tr_buffer_pool \<Rightarrow> bool" where
  "pool_inv p \<longleftrightarrow> bp_buffers p \<noteq> None \<and> length (the (bp_buffers p)) = unat (bp_buffer_count p) \<and> bp_buffer_count p \<noteq> 0 \<and>
     free_list (\<lambda>i. bf_next (bp_buffer p i)) (bp_free_list p) (pool_free p) (unat (bp_free_count p)) \<and>
     (\<forall>i<unat (bp_buffer_count p). buffer_ok p i)"

lemma bp_set_buffer_simps [simp]:
  "bp_storage (bp_set_buffer i b p) = bp_storage p" "bp_free_list (bp_set_buffer i b p) = bp_free_list p"
  "bp_buffer_count (bp_set_buffer i b p) = bp_buffer_count p" "bp_buffer_size (bp_set_buffer i b p) = bp_buffer_size p"
  "bp_free_count (bp_set_buffer i b p) = bp_free_count p" "bp_closed (bp_set_buffer i b p) = bp_closed p"
  "bp_memory_budget (bp_set_buffer i b p) = bp_memory_budget p" "bp_peak_in_use (bp_set_buffer i b p) = bp_peak_in_use p"
  "bp_buffers (bp_set_buffer i b p) = map_option (\<lambda>bs. bs[i := b]) (bp_buffers p)"
  by (simp_all add: bp_set_buffer_def)

lemma bp_buffer_simps [simp]:
  "bp_buffer (p\<lparr>bp_free_list := l\<rparr>) = bp_buffer p" "bp_buffer (p\<lparr>bp_free_count := n\<rparr>) = bp_buffer p"
  "bp_buffer (p\<lparr>bp_peak_in_use := n\<rparr>) = bp_buffer p" "bp_buffer (p\<lparr>bp_exhausted_events := e\<rparr>) = bp_buffer p"
  "bp_buffer (p\<lparr>bp_closed := c\<rparr>) = bp_buffer p"
  by (simp_all add: bp_buffer_def fun_eq_iff)

lemma bp_buffer_set:
  "bp_buffers p \<noteq> None \<Longrightarrow> i < length (the (bp_buffers p)) \<Longrightarrow>
     bp_buffer (bp_set_buffer i b p) j = (if j = i then b else bp_buffer p j)"
  by (auto simp: bp_buffer_def bp_set_buffer_def nth_list_update)

text \<open>What a step changes: descriptor \<open>i\<close> becomes \<open>b\<close>, the others and the dimensions of the pool stay.\<close>

definition only_buffer :: "tr_buffer_pool \<Rightarrow> nat \<Rightarrow> tr_buffer_pool \<Rightarrow> bool" where
  "only_buffer p i p' \<longleftrightarrow> (\<forall>j. j \<noteq> i \<longrightarrow> bp_buffer p' j = bp_buffer p j) \<and> bp_storage p' = bp_storage p \<and>
     bp_buffer_count p' = bp_buffer_count p \<and> bp_buffer_size p' = bp_buffer_size p \<and> bp_closed p' = bp_closed p \<and>
     bp_memory_budget p' = bp_memory_budget p \<and> (bp_buffers p' = None \<longleftrightarrow> bp_buffers p = None) \<and>
     length (the (bp_buffers p')) = length (the (bp_buffers p))"

lemma only_buffer_fields:
  assumes "only_buffer p i p'"
  shows "j \<noteq> i \<Longrightarrow> bp_buffer p' j = bp_buffer p j" "bp_storage p' = bp_storage p" "bp_buffer_count p' = bp_buffer_count p"
    "bp_buffer_size p' = bp_buffer_size p" "bp_closed p' = bp_closed p" "bp_memory_budget p' = bp_memory_budget p"
    "bp_buffers p' = None \<longleftrightarrow> bp_buffers p = None" "length (the (bp_buffers p')) = length (the (bp_buffers p))"
  using assms by (simp_all add: only_buffer_def)

lemma only_buffer_trans: "only_buffer p i q \<Longrightarrow> only_buffer q i r \<Longrightarrow> only_buffer p i r"
  by (simp add: only_buffer_def)

lemma pool_invI:
  assumes "pool_inv p" and "only_buffer p i p'" and "buffer_ok p' i"
    and "free_list (\<lambda>i. bf_next (bp_buffer p' i)) (bp_free_list p') (pool_free p') (unat (bp_free_count p'))"
  shows "pool_inv p'"
proof -
  note o = only_buffer_fields [OF assms(2)]
  have "buffer_ok p' j" if "j < unat (bp_buffer_count p)" for j
    using that assms(1,3) by (cases "j = i") (auto simp: o pool_inv_def buffer_ok_def)
  then show ?thesis using assms(1,4) by (auto simp: pool_inv_def o)
qed

lemma take_out_effect:
  assumes "pool_inv p" and "bp_free_list p = Some i"
  defines "p' \<equiv> bp_take_out i p"
  shows "i \<in> pool_free p" "pool_inv p'" "only_buffer p i p'" "pool_free p' = pool_free p - {i}"
    "bp_buffer p' i = (bp_buffer p i)\<lparr>bf_checked_out := True, bf_next := None, bf_len := 0, bf_release_cb := None\<rparr>"
proof -
  have fl: "free_list (\<lambda>i. bf_next (bp_buffer p i)) (Some i) (pool_free p) (unat (bp_free_count p))"
    using assms(1,2) by (simp add: pool_inv_def)
  show mem: "i \<in> pool_free p" using free_list_head [OF fl] by simp
  have ex: "bp_buffers p \<noteq> None" "i < length (the (bp_buffers p))" using assms(1) mem by (simp_all add: pool_inv_def pool_free_def)
  have bf: "bp_buffer p' j = (if j = i then (bp_buffer p i)\<lparr>bf_checked_out := True, bf_next := None, bf_len := 0, bf_release_cb := None\<rparr>
      else bp_buffer p j)" for j
    using ex by (simp add: p'_def bp_take_out_def Let_def bp_buffer_set)
  then show "bp_buffer p' i = (bp_buffer p i)\<lparr>bf_checked_out := True, bf_next := None, bf_len := 0, bf_release_cb := None\<rparr>" by simp
  show only: "only_buffer p i p'"
    using ex bf by (auto simp: only_buffer_def p'_def bp_take_out_def Let_def)
  note o = only_buffer_fields [OF only]
  show free: "pool_free p' = pool_free p - {i}" by (auto simp: pool_free_def o(8) bf)
  have c: "0 < unat (bp_free_count p)" using free_list_head [OF fl] by simp
  have n: "unat (bp_free_count p') = unat (bp_free_count p) - 1"
    using c by (simp add: p'_def bp_take_out_def Let_def unat_sub_le word_le_nat_alt)
  have h: "bp_free_list p' = bf_next (bp_buffer p i)" by (simp add: p'_def bp_take_out_def Let_def)
  have "free_list (\<lambda>i. bf_next (bp_buffer p' i)) (bf_next (bp_buffer p i)) (pool_free p - {i}) (unat (bp_free_count p) - 1)"
    by (rule free_list_take [OF fl]) (simp add: bf)
  moreover have "buffer_ok p' i" using assms(1) ex by (simp add: buffer_ok_def bf o pool_inv_def)
  ultimately show "pool_inv p'" using pool_invI [OF assms(1) only] free n h by simp
qed

lemma give_back_effect:
  assumes "pool_inv p" and "i < length (the (bp_buffers p))" and "bf_checked_out (bp_buffer p i)"
  defines "p' \<equiv> bp_give_back i p"
  shows "unat (bp_free_count p) < unat (bp_buffer_count p)" "pool_inv p'" "only_buffer p i p'" "pool_free p' = insert i (pool_free p)"
    "bp_buffer p' i = (bp_buffer p i)\<lparr>bf_checked_out := False, bf_len := 0, bf_next := bp_free_list p\<rparr>"
proof -
  have fl: "free_list (\<lambda>i. bf_next (bp_buffer p i)) (bp_free_list p) (pool_free p) (unat (bp_free_count p))"
    and ex: "bp_buffers p \<noteq> None" and len: "length (the (bp_buffers p)) = unat (bp_buffer_count p)"
    using assms(1) by (simp_all add: pool_inv_def)
  have notin: "i \<notin> pool_free p" using assms(3) by (simp add: pool_free_def)
  have "pool_free p \<subseteq> {..<unat (bp_buffer_count p)} - {i}" using notin len by (auto simp: pool_free_def)
  then have "card (pool_free p) \<le> card ({..<unat (bp_buffer_count p)} - {i})" by (intro card_mono) auto
  then show room: "unat (bp_free_count p) < unat (bp_buffer_count p)"
    using free_list_card [OF fl] assms(2) len by simp
  have bf: "bp_buffer p' j = (if j = i then (bp_buffer p i)\<lparr>bf_checked_out := False, bf_len := 0, bf_next := bp_free_list p\<rparr>
      else bp_buffer p j)" for j
    using ex assms(2,3) by (simp add: p'_def bp_give_back_def bp_buffer_set)
  then show "bp_buffer p' i = (bp_buffer p i)\<lparr>bf_checked_out := False, bf_len := 0, bf_next := bp_free_list p\<rparr>" by simp
  show only: "only_buffer p i p'" using ex bf assms(3) by (auto simp: only_buffer_def p'_def bp_give_back_def)
  note o = only_buffer_fields [OF only]
  show free: "pool_free p' = insert i (pool_free p)" using assms(2) by (auto simp: pool_free_def o(8) bf)
  have n: "unat (bp_free_count p') = Suc (unat (bp_free_count p))"
    using room unat_lt_2p [of "bp_buffer_count p"] assms(3) unat_Suc_less [OF room] by (simp add: p'_def bp_give_back_def)
  have h: "bp_free_list p' = Some i" using assms(3) by (simp add: p'_def bp_give_back_def)
  have "free_list (\<lambda>i. bf_next (bp_buffer p' i)) (Some i) (insert i (pool_free p)) (Suc (unat (bp_free_count p)))"
    by (rule free_list_put [OF fl notin]) (simp_all add: bf)
  moreover have "buffer_ok p' i" using assms(1,2) len by (simp add: buffer_ok_def bf o pool_inv_def)
  ultimately show "pool_inv p'" using pool_invI [OF assms(1) only] free n h by simp
qed

text \<open>Replacing a descriptor by one with the same links and ownership.\<close>

lemma relabel_effect:
  assumes "pool_inv p" and "i < length (the (bp_buffers p))" and "bf_checked_out b = bf_checked_out (bp_buffer p i)"
    and "bf_next b = bf_next (bp_buffer p i)"
    and "if bp_storage p then bf_data b = bf_data (bp_buffer p i) \<and> bf_capacity b = bf_capacity (bp_buffer p i)
         else bf_capacity b \<le> bp_buffer_size p"
  defines "p' \<equiv> bp_set_buffer i b p"
  shows "pool_inv p'" "only_buffer p i p'" "pool_free p' = pool_free p" "bp_buffer p' i = b"
proof -
  have ex: "bp_buffers p \<noteq> None" using assms(1) by (simp add: pool_inv_def)
  have bf: "bp_buffer p' j = (if j = i then b else bp_buffer p j)" for j
    using ex assms(2) by (simp add: p'_def bp_buffer_set)
  then show "bp_buffer p' i = b" by simp
  show only: "only_buffer p i p'" using ex bf by (auto simp: only_buffer_def p'_def)
  note o = only_buffer_fields [OF only]
  show free: "pool_free p' = pool_free p" using assms(3) by (auto simp: pool_free_def o(8) bf)
  have "free_list (\<lambda>i. bf_next (bp_buffer p i)) (bp_free_list p) (pool_free p) (unat (bp_free_count p))"
    using assms(1) by (simp add: pool_inv_def)
  moreover have "(\<lambda>i. bf_next (bp_buffer p' i)) = (\<lambda>i. bf_next (bp_buffer p i))" using assms(4) by (simp add: fun_eq_iff bf)
  moreover have "bp_free_list p' = bp_free_list p" "bp_free_count p' = bp_free_count p" by (simp_all add: p'_def)
  moreover have "buffer_ok p' i" using assms(1,2,5) by (auto simp: buffer_ok_def bf o pool_inv_def split: if_splits)
  ultimately show "pool_inv p'" using pool_invI [OF assms(1) only] free by simp
qed

lemma grown_effect:
  fixes d :: "nat option"
  assumes "pool_inv p" and "i < length (the (bp_buffers p))" and "\<not> bp_storage p" and "c \<le> bp_buffer_size p"
  defines "p' \<equiv> bp_set_buffer i ((bp_buffer p i)\<lparr>bf_data := d, bf_capacity := c\<rparr>) p"
  shows "pool_inv p'" "only_buffer p i p'" "pool_free p' = pool_free p"
    "bp_buffer p' i = (bp_buffer p i)\<lparr>bf_data := d, bf_capacity := c\<rparr>"
  unfolding p'_def using assms(3,4) by (intro relabel_effect [OF assms(1,2)]; simp)+

section \<open>A new pool\<close>

text \<open>The pool after \<open>k\<close> rounds of the threading loop.\<close>

lemma thread_rounds:
  fixes f :: "nat \<Rightarrow> tr_buffer \<Rightarrow> tr_buffer"
  assumes "bp_buffers p0 = Some (replicate n buffer_zero)" and "bp_free_list p0 = None" and "k \<le> n"
  defines "p \<equiv> fold (bp_thread f) [0..<k] p0"
  shows "bp_buffers p \<noteq> None \<and> length (the (bp_buffers p)) = n \<and>
    free_list (\<lambda>i. bf_next (bp_buffer p i)) (bp_free_list p) {..<k} k \<and>
    (\<forall>i<n. \<exists>nx. bp_buffer p i = (if i < k then (f i buffer_zero)\<lparr>bf_next := nx\<rparr> else buffer_zero)) \<and>
    p\<lparr>bp_buffers := None, bp_free_list := None\<rparr> = p0\<lparr>bp_buffers := None, bp_free_list := None\<rparr>"
  using assms(3) unfolding p_def
proof (induction k)
  case 0
  then show ?case using assms(1,2) by (auto simp: free_list_None bp_buffer_def)
next
  case (Suc k)
  let ?p = "fold (bp_thread f) [0..<k] p0"
  define p' where "p' = bp_thread f k ?p"
  have eq: "fold (bp_thread f) [0..<Suc k] p0 = p'" by (simp add: p'_def)
  from Suc have ih: "bp_buffers ?p \<noteq> None" "length (the (bp_buffers ?p)) = n"
      "free_list (\<lambda>i. bf_next (bp_buffer ?p i)) (bp_free_list ?p) {..<k} k"
      "\<And>i. i < n \<Longrightarrow> \<exists>nx. bp_buffer ?p i = (if i < k then (f i buffer_zero)\<lparr>bf_next := nx\<rparr> else buffer_zero)"
      "?p\<lparr>bp_buffers := None, bp_free_list := None\<rparr> = p0\<lparr>bp_buffers := None, bp_free_list := None\<rparr>" by auto
  have k: "bp_buffer ?p k = buffer_zero" using ih(4) [of k] Suc.prems by auto
  have bf: "bp_buffer p' j = (if j = k then (f k buffer_zero)\<lparr>bf_next := bp_free_list ?p\<rparr> else bp_buffer ?p j)" for j
    using ih(1,2) Suc.prems k by (simp add: p'_def bp_thread_def bp_buffer_set)
  have "free_list (\<lambda>i. bf_next (bp_buffer p' i)) (Some k) (insert k {..<k}) (Suc k)"
    by (rule free_list_put [OF ih(3)]) (simp_all add: bf)
  then have "free_list (\<lambda>i. bf_next (bp_buffer p' i)) (bp_free_list p') {..<Suc k} (Suc k)"
    by (simp add: p'_def bp_thread_def lessThan_Suc)
  moreover have "\<exists>nx. bp_buffer p' i = (if i < Suc k then (f i buffer_zero)\<lparr>bf_next := nx\<rparr> else buffer_zero)" if "i < n" for i
    using ih(4) [OF that] by (cases "i = k") (auto simp: bf less_Suc_eq)
  moreover have "bp_buffers p' \<noteq> None" "length (the (bp_buffers p')) = n" using ih(1,2) by (auto simp: p'_def bp_thread_def)
  moreover have "p'\<lparr>bp_buffers := None, bp_free_list := None\<rparr> = p0\<lparr>bp_buffers := None, bp_free_list := None\<rparr>"
    using ih(5) by (simp add: p'_def bp_thread_def bp_set_buffer_def)
  ultimately show ?case unfolding eq by blast
qed

lemma same_but_lists:
  assumes "p\<lparr>bp_buffers := None, bp_free_list := None\<rparr> = p0\<lparr>bp_buffers := None, bp_free_list := None\<rparr>"
  shows "bp_storage p = bp_storage p0" "bp_buffer_count p = bp_buffer_count p0" "bp_buffer_size p = bp_buffer_size p0"
    "bp_free_count p = bp_free_count p0" "bp_closed p = bp_closed p0" "bp_memory_budget p = bp_memory_budget p0"
  using arg_cong [OF assms, of bp_storage] arg_cong [OF assms, of bp_buffer_count] arg_cong [OF assms, of bp_buffer_size]
    arg_cong [OF assms, of bp_free_count] arg_cong [OF assms, of bp_closed] arg_cong [OF assms, of bp_memory_budget]
  by simp_all

lemma new_pool:
  assumes "bp_buffers p0 = Some (replicate (unat n) buffer_zero)" and "bp_free_list p0 = None" and "bp_buffer_count p0 = n"
    and "bp_free_count p0 = n" and "n \<noteq> 0" and "\<And>i. \<not> bf_checked_out (f i buffer_zero)"
    and "\<And>i. if bp_storage p0 then bf_data (f i buffer_zero) = Some (i * unat (bp_buffer_size p0)) \<and> bf_capacity (f i buffer_zero) = bp_buffer_size p0
      else bf_capacity (f i buffer_zero) = 0"
  defines "p \<equiv> fold (bp_thread f) [0..<unat n] p0"
  shows "pool_inv p" "pool_free p = {..<unat n}" "bp_storage p = bp_storage p0" "bp_buffer_count p = n"
    "bp_buffer_size p = bp_buffer_size p0" "bp_closed p = bp_closed p0" "bp_memory_budget p = bp_memory_budget p0"
    "\<And>i. i < unat n \<Longrightarrow> bf_capacity (bp_buffer p i) = bf_capacity (f i buffer_zero)"
proof -
  from thread_rounds [OF assms(1,2) order_refl, of f] have t: "bp_buffers p \<noteq> None" "length (the (bp_buffers p)) = unat n"
      "free_list (\<lambda>i. bf_next (bp_buffer p i)) (bp_free_list p) {..<unat n} (unat n)"
      "\<And>i. i < unat n \<Longrightarrow> \<exists>nx. bp_buffer p i = (f i buffer_zero)\<lparr>bf_next := nx\<rparr>"
      "p\<lparr>bp_buffers := None, bp_free_list := None\<rparr> = p0\<lparr>bp_buffers := None, bp_free_list := None\<rparr>"
    by (auto simp: p_def)
  note f = same_but_lists [OF t(5)]
  show "bp_storage p = bp_storage p0" "bp_buffer_count p = n" "bp_buffer_size p = bp_buffer_size p0" "bp_closed p = bp_closed p0"
    "bp_memory_budget p = bp_memory_budget p0" using f assms(3) by simp_all
  have cap: "bf_capacity (bp_buffer p i) = bf_capacity (f i buffer_zero)" "bf_data (bp_buffer p i) = bf_data (f i buffer_zero)"
    "\<not> bf_checked_out (bp_buffer p i)" if "i < unat n" for i
    using t(4) [OF that] assms(6) by auto
  then show "\<And>i. i < unat n \<Longrightarrow> bf_capacity (bp_buffer p i) = bf_capacity (f i buffer_zero)" by simp
  show free: "pool_free p = {..<unat n}" using cap(3) t(2) by (auto simp: pool_free_def)
  have "buffer_ok p i" if "i < unat n" for i
    using assms(7) [of i] cap [OF that] by (simp add: buffer_ok_def f(1,3) split: if_splits)
  then show "pool_inv p" using t(1-3) f assms(3-5) free by (simp add: pool_inv_def)
qed

section \<open>Accounting\<close>

text \<open>The budgets a charge goes to, and the bytes a pool owes them.\<close>

definition charged :: "budgets \<Rightarrow> nat option \<Rightarrow> nat \<Rightarrow> bool" where
  "charged st budget x \<longleftrightarrow> (case budget of None \<Rightarrow> False | Some b \<Rightarrow> x = b \<or> mb_parent (st b) = Some x)"

definition budget_linked :: "budgets \<Rightarrow> nat option \<Rightarrow> bool" where
  "budget_linked st budget \<longleftrightarrow> (case budget of None \<Rightarrow> True | Some b \<Rightarrow> linked st b)"

definition pool_bytes :: "tr_buffer_pool \<Rightarrow> nat" where
  "pool_bytes p = unat (bp_buffer_count p) * 48 +
     (if bp_storage p then unat (bp_buffer_count p) * unat (bp_buffer_size p)
      else (\<Sum>i<unat (bp_buffer_count p). unat (bf_capacity (bp_buffer p i))))"

text \<open>Balances after a change of \<open>n\<close> bytes; the links between budgets never change.\<close>

definition owes :: "budgets \<Rightarrow> nat option \<Rightarrow> nat \<Rightarrow> budgets \<Rightarrow> bool" where
  "owes st0 budget n st \<longleftrightarrow> (\<forall>x. mb_parent (st x) = mb_parent (st0 x)) \<and>
     (\<forall>x. balance st x = balance st0 x + (if charged st0 budget x then n else 0))"

lemma owes_charged: "owes st0 budget n st \<Longrightarrow> charged st budget x \<longleftrightarrow> charged st0 budget x"
  by (simp add: owes_def charged_def split: option.split)

lemma owes_linked: "owes st0 budget n st \<Longrightarrow> budget_linked st budget \<longleftrightarrow> budget_linked st0 budget"
  by (simp add: owes_def budget_linked_def linked_def split: option.split)

lemma owes_refl: "owes st budget 0 st"
  by (simp add: owes_def)

lemma budget_reserve_owes:
  assumes "owes st0 budget n st" and "budget_linked st0 budget" and "tr_buffer_budget_reserve st budget k = (e, st')"
  shows "owes st0 budget (if e = TR_OK then n + unat k else n) st'"
proof (cases budget)
  case None
  then show ?thesis using assms(1,3) by (auto simp: tr_buffer_budget_reserve_def owes_def charged_def)
next
  case (Some b)
  have l: "linked st b" using assms(2) owes_linked [OF assms(1)] Some by (simp add: budget_linked_def)
  have r: "tr_memory_budget_reserve st (Some b) k = (e, st')" using assms(3) Some by (simp add: tr_buffer_budget_reserve_def)
  have "mb_parent (st b) = mb_parent (st0 b)" using assms(1) by (simp add: owes_def)
  then show ?thesis
    using assms(1) reserve_balances(1,2) [OF r l] Some by (simp add: owes_def charged_def)
qed

lemma budget_release_owes:
  assumes "owes st0 budget (n + unat k) st" and "budget_linked st0 budget"
  shows "owes st0 budget n (tr_buffer_budget_release st budget k)"
proof (cases "budget = None \<or> k = 0")
  case True
  then show ?thesis using assms(1) by (auto simp: tr_buffer_budget_release_def owes_def charged_def)
next
  case False
  then obtain b where b: "budget = Some b" by auto
  have l: "linked st b" using assms(2) owes_linked [OF assms(1)] b by (simp add: budget_linked_def)
  have par: "mb_parent (st x) = mb_parent (st0 x)" for x using assms(1) by (simp add: owes_def)
  have bal: "balance st x = balance st0 x + (if charged st0 budget x then n + unat k else 0)" for x
    using assms(1) by (simp add: owes_def)
  obtain st' where st': "tr_memory_budget_release st (Some b) k = (TR_OK, st')"
    "\<And>x. balance st x = balance st' x + (if x = b \<or> mb_parent (st b) = Some x then unat k else 0)"
    "\<And>x. mb_parent (st' x) = mb_parent (st x)"
    using release_balances [OF l, of k] bal par b by (auto simp: charged_def)
  have "tr_buffer_budget_release st budget k = st'" using b False st'(1) by (simp add: tr_buffer_budget_release_def)
  moreover have "balance st' x = balance st0 x + (if charged st0 budget x then n else 0)" for x
    using st'(2) [of x] bal [of x] par [of b] b by (auto simp: charged_def split: if_splits)
  ultimately show ?thesis using st'(3) par by (simp add: owes_def)
qed

lemma descriptor_bytes: "unat (ucast (n :: u32) * sizeof_tr_buffer :: u64) = unat n * 48"
  using unat_lt_2p [of n] by (simp add: unat_word_ariths)

lemma storage_bytes: "unat (ucast (n :: u32) * ucast (m :: u32) :: u64) = unat n * unat m"
proof -
  have "unat n * unat m < 2 ^ 32 * 2 ^ 32" using unat_lt_2p [of n] unat_lt_2p [of m] by (intro mult_strict_mono) simp_all
  then show ?thesis by (simp add: unat_word_ariths)
qed

lemma size_check: "n \<noteq> 0 \<Longrightarrow> \<not> (SIZE_MAX :: size_t) div ucast (m :: u32) < ucast (n :: u32)" if "m \<noteq> 0"
proof -
  have m: "0 < unat m" using that by (simp add: word_neq_0_unat)
  have "unat n * unat m \<le> (2 ^ 32 - 1) * (2 ^ 32 - 1)" using unat_lt_2p [of n] unat_lt_2p [of m] by (intro mult_le_mono) simp_all
  then have "unat n \<le> (2 ^ 64 - 1) div unat m" using m by (simp add: less_eq_div_iff_mult_less_eq)
  then show ?thesis by (simp add: word_less_nat_alt unat_div)
qed

text \<open>The life of a pool until its destruction: creation, then any sequence of acquisitions, releases (also repeated
  ones) and attempts to destroy it that are refused.\<close>

inductive pool_run :: "nat option \<Rightarrow> budgets \<Rightarrow> tr_buffer_pool \<Rightarrow> budgets \<Rightarrow> bool" for budget st0 where
  fixed: "tr_buffer_pool_init_budgeted a1 a2 a3 st0 (Some p0) n sz budget = (TR_OK, Some p, st) \<Longrightarrow>
    pool_run budget st0 p st"
| dynamic: "tr_buffer_pool_init_dynamic_budgeted a1 a2 st0 (Some p0) n sz budget = (TR_OK, Some p, st) \<Longrightarrow>
    pool_run budget st0 p st"
| acquire: "pool_run budget st0 p st \<Longrightarrow>
    tr_buffer_acquire data st (Some p) c (Some out) = (ret, Some p', st', out') \<Longrightarrow> pool_run budget st0 p' st'"
| release: "pool_run budget st0 p st \<Longrightarrow> i < length (the (bp_buffers p)) \<Longrightarrow>
    tr_buffer_release p (Buffer_Pooled i) = (p', call) \<Longrightarrow> pool_run budget st0 p' st"
| refused: "pool_run budget st0 p st \<Longrightarrow> tr_buffer_pool_destroy st (Some p) = (TR_ERR_STATE, Some p', st') \<Longrightarrow>
    pool_run budget st0 p' st'"

definition pool_state :: "nat option \<Rightarrow> budgets \<Rightarrow> tr_buffer_pool \<Rightarrow> budgets \<Rightarrow> bool" where
  "pool_state budget st0 p st \<longleftrightarrow> pool_inv p \<and> bp_memory_budget p = budget \<and> owes st0 budget (pool_bytes p) st"

lemma pool_bytes_only:
  assumes "only_buffer p i p'" and "i < unat (bp_buffer_count p)" and "\<not> bp_storage p"
  shows "pool_bytes p' + unat (bf_capacity (bp_buffer p i)) = pool_bytes p + unat (bf_capacity (bp_buffer p' i))"
proof -
  note o = only_buffer_fields [OF assms(1)]
  let ?s = "\<lambda>p. \<Sum>j\<in>{..<unat (bp_buffer_count p)} - {i}. unat (bf_capacity (bp_buffer p j))"
  have "?s p' = ?s p" unfolding o(3) by (rule sum.cong) (simp_all add: o(1))
  moreover have "(\<Sum>j<unat (bp_buffer_count q). unat (bf_capacity (bp_buffer q j))) = unat (bf_capacity (bp_buffer q i)) + ?s q"
    if "bp_buffer_count q = bp_buffer_count p" for q
    using assms(2) that by (intro sum.remove) simp_all
  ultimately show ?thesis using assms(3) o(2,3) by (simp add: pool_bytes_def)
qed

lemma pool_bytes_same:
  assumes "only_buffer p i p'" and "i < unat (bp_buffer_count p)" and "bf_capacity (bp_buffer p' i) = bf_capacity (bp_buffer p i)"
  shows "pool_bytes p' = pool_bytes p"
proof (cases "bp_storage p")
  case True
  then show ?thesis using only_buffer_fields [OF assms(1)] by (simp add: pool_bytes_def)
next
  case False
  then show ?thesis using pool_bytes_only [OF assms(1,2)] assms(3) by simp
qed

section \<open>The operations\<close>

lemma init_fixed_state:
  assumes "tr_buffer_pool_init_budgeted a1 a2 a3 st0 (Some p0) n sz budget = (TR_OK, Some p, st)" and "budget_linked st0 budget"
  shows "pool_state budget st0 p st" and "\<not> bp_closed p" and "pool_free p = {..<unat n}" and "bp_buffer_count p = n"
    and "bp_storage p" and "bp_buffer_size p = sz"
proof -
  let ?d = "ucast n * sizeof_tr_buffer :: u64" and ?s = "ucast n * ucast sz :: u64"
  let ?q = "buffer_pool_zero\<lparr>bp_buffers := Some (replicate (unat n) buffer_zero), bp_storage := True,
                  bp_buffer_count := n, bp_buffer_size := sz, bp_free_count := n, bp_memory_budget := budget\<rparr>"
  obtain r1 st1 where r1: "tr_buffer_budget_reserve st0 budget ?d = (r1, st1)" by fastforce
  obtain r2 st2 where r2: "tr_buffer_budget_reserve st1 budget ?s = (r2, st2)" by fastforce
  have ok: "n \<noteq> 0" "r1 = TR_OK" "r2 = TR_OK" "st = st2" "p = fold (bp_thread (bp_fixed_buffer sz)) [0..<unat n] ?q"
    using assms(1) r1 r2 by (auto simp: tr_buffer_pool_init_budgeted_def Let_def split: if_splits)
  have o1: "owes st0 budget (unat n * 48) st1"
    using budget_reserve_owes [OF owes_refl assms(2) r1] ok(2) by (simp add: descriptor_bytes)
  have o2: "owes st0 budget (unat n * 48 + unat n * unat sz) st2"
    using budget_reserve_owes [OF o1 assms(2) r2] ok(3) by (simp add: storage_bytes)
  have q: "bp_storage ?q" "bp_buffer_size ?q = sz" "bp_free_list ?q = None" "\<not> bp_closed ?q" by (simp_all add: buffer_pool_zero_def)
  note new = new_pool [of ?q n "bp_fixed_buffer sz", folded ok(5)]
  have np: "pool_inv p" "pool_free p = {..<unat n}" "bp_storage p" "bp_buffer_count p = n" "bp_buffer_size p = sz"
    "\<not> bp_closed p" "bp_memory_budget p = budget"
    using new q ok(1) by (simp_all add: bp_fixed_buffer_def buffer_zero_def)
  then show "\<not> bp_closed p" "pool_free p = {..<unat n}" "bp_buffer_count p = n" "bp_storage p" "bp_buffer_size p = sz" by simp_all
  show "pool_state budget st0 p st" using np o2 ok(4) by (simp add: pool_state_def pool_bytes_def)
qed

lemma init_dynamic_state:
  assumes "tr_buffer_pool_init_dynamic_budgeted a1 a2 st0 (Some p0) n sz budget = (TR_OK, Some p, st)" and "budget_linked st0 budget"
  shows "pool_state budget st0 p st" and "\<not> bp_closed p" and "pool_free p = {..<unat n}" and "bp_buffer_count p = n"
proof -
  let ?d = "ucast n * sizeof_tr_buffer :: u64"
  let ?q = "buffer_pool_zero\<lparr>bp_buffers := Some (replicate (unat n) buffer_zero),
                  bp_buffer_count := n, bp_buffer_size := sz, bp_free_count := n, bp_memory_budget := budget\<rparr>"
  obtain r1 st1 where r1: "tr_buffer_budget_reserve st0 budget ?d = (r1, st1)" by fastforce
  have ok: "n \<noteq> 0" "r1 = TR_OK" "st = st1" "p = fold (bp_thread (\<lambda>i b. b)) [0..<unat n] ?q"
    using assms(1) r1 by (auto simp: tr_buffer_pool_init_dynamic_budgeted_def Let_def split: if_splits)
  have o1: "owes st0 budget (unat n * 48) st1"
    using budget_reserve_owes [OF owes_refl assms(2) r1] ok(2) by (simp add: descriptor_bytes)
  have q: "\<not> bp_storage ?q" "bp_buffer_size ?q = sz" "bp_free_list ?q = None" "\<not> bp_closed ?q" by (simp_all add: buffer_pool_zero_def)
  note new = new_pool [of ?q n "\<lambda>i b. b", folded ok(4)]
  have np: "pool_inv p" "pool_free p = {..<unat n}" "\<not> bp_storage p" "bp_buffer_count p = n"
    "\<not> bp_closed p" "bp_memory_budget p = budget" "\<And>i. i < unat n \<Longrightarrow> bf_capacity (bp_buffer p i) = 0"
    using new q ok(1) by (simp_all add: buffer_zero_def)
  then show "\<not> bp_closed p" "pool_free p = {..<unat n}" "bp_buffer_count p = n" by simp_all
  show "pool_state budget st0 p st" using np o1 ok(3) by (simp add: pool_state_def pool_bytes_def)
qed

lemma give_back_state:
  assumes "pool_state budget st0 p st" and "i < length (the (bp_buffers p))"
  shows "pool_state budget st0 (bp_give_back i p) st"
proof (cases "bf_checked_out (bp_buffer p i)")
  case True
  have inv: "pool_inv p" using assms(1) by (simp add: pool_state_def)
  note g = give_back_effect [OF inv assms(2) True]
  have "pool_bytes (bp_give_back i p) = pool_bytes p"
    by (rule pool_bytes_same [OF g(3)]) (use inv assms(2) g(5) in \<open>simp_all add: pool_inv_def\<close>)
  then show ?thesis using assms(1) g(2) only_buffer_fields(6) [OF g(3)] by (simp add: pool_state_def)
next
  case False
  then show ?thesis using assms(1) by (simp add: bp_give_back_def)
qed

lemma set_len_state:
  fixes n :: u32
  assumes "pool_state budget st0 p st" and "i < length (the (bp_buffers p))"
  defines "p' \<equiv> bp_set_buffer i ((bp_buffer p i)\<lparr>bf_len := n\<rparr>) p"
  shows "pool_state budget st0 p' st" "only_buffer p i p'" "pool_free p' = pool_free p" "bp_buffer p' i = (bp_buffer p i)\<lparr>bf_len := n\<rparr>"
proof -
  have inv: "pool_inv p" using assms(1) by (simp add: pool_state_def)
  have "buffer_ok p i" using inv assms(2) by (simp add: pool_inv_def)
  then have ok: "if bp_storage p then bf_data ((bp_buffer p i)\<lparr>bf_len := n\<rparr>) = bf_data (bp_buffer p i) \<and>
      bf_capacity ((bp_buffer p i)\<lparr>bf_len := n\<rparr>) = bf_capacity (bp_buffer p i)
    else bf_capacity ((bp_buffer p i)\<lparr>bf_len := n\<rparr>) \<le> bp_buffer_size p" by (simp add: buffer_ok_def split: if_splits)
  note r = relabel_effect [OF inv assms(2) _ _ ok, folded p'_def, simplified]
  show "only_buffer p i p'" "pool_free p' = pool_free p" "bp_buffer p' i = (bp_buffer p i)\<lparr>bf_len := n\<rparr>" by (fact r)+
  have "pool_bytes p' = pool_bytes p"
    by (rule pool_bytes_same [OF r(2)]) (use inv assms(2) r(4) in \<open>simp_all add: pool_inv_def\<close>)
  then show "pool_state budget st0 p' st" using assms(1) r(1) only_buffer_fields(6) [OF r(2)] by (simp add: pool_state_def)
qed

text \<open>What an acquisition does, by outcome.\<close>

lemma grow_effect:
  assumes "pool_state budget st0 p st" and "budget_linked st0 budget" and "i < unat (bp_buffer_count p)"
    and "bf_checked_out (bp_buffer p i)" and "\<not> bp_storage p" and "bf_capacity (bp_buffer p i) < c" and "c \<le> bp_buffer_size p"
    and "bp_grow data st p i c = (ret, p', st')"
  shows "pool_state budget st0 p' st'" and "only_buffer p i p'"
    and "ret = TR_OK \<Longrightarrow> pool_free p' = pool_free p \<and> bf_capacity (bp_buffer p' i) = c \<and> bf_data (bp_buffer p' i) = data \<and> data \<noteq> None"
    and "ret \<noteq> TR_OK \<Longrightarrow> pool_free p' = insert i (pool_free p)"
proof -
  have inv: "pool_inv p" and bud: "bp_memory_budget p = budget" and ow: "owes st0 budget (pool_bytes p) st"
    using assms(1) by (simp_all add: pool_state_def)
  have len: "i < length (the (bp_buffers p))" using inv assms(3) by (simp add: pool_inv_def)
  let ?g = "ucast c - ucast (bf_capacity (bp_buffer p i)) :: u64"
  have le: "(ucast (bf_capacity (bp_buffer p i)) :: u64) \<le> ucast c" using assms(6) by (simp add: word_le_nat_alt word_less_nat_alt)
  have g: "unat ?g = unat c - unat (bf_capacity (bp_buffer p i))" using unat_sub_le [OF le] by simp
  obtain r1 st1 where r1: "tr_buffer_budget_reserve st budget ?g = (r1, st1)" by fastforce
  have o1: "owes st0 budget (if r1 = TR_OK then pool_bytes p + unat ?g else pool_bytes p) st1"
    by (rule budget_reserve_owes [OF ow assms(2) r1])
  note gb = give_back_effect [OF inv len assms(4)]
  have res: "(ret, p', st') = (if r1 \<noteq> TR_OK then (r1, bp_give_back i p, st1)
      else if data = None then (TR_ERR_NOMEM, bp_give_back i p, tr_buffer_budget_release st1 budget ?g)
      else (TR_OK, bp_set_buffer i ((bp_buffer p i)\<lparr>bf_data := data, bf_capacity := c\<rparr>) p, st1))"
    using assms(8) r1 bud unfolding bp_grow_def tr_buffer_release_def Let_def by (auto split: if_splits)
  have keep: "pool_state budget st0 (bp_give_back i p) st2" if "owes st0 budget (pool_bytes p) st2" for st2
    using give_back_state [of budget st0 p st2 i] inv bud that len by (simp add: pool_state_def)
  consider (no) "r1 \<noteq> TR_OK" | (nomem) "r1 = TR_OK" "data = None" | (ok) "r1 = TR_OK" "data \<noteq> None" by blast
  then have "pool_state budget st0 p' st' \<and> only_buffer p i p' \<and>
      (ret = TR_OK \<longrightarrow> pool_free p' = pool_free p \<and> bf_capacity (bp_buffer p' i) = c \<and> bf_data (bp_buffer p' i) = data \<and> data \<noteq> None) \<and>
      (ret \<noteq> TR_OK \<longrightarrow> pool_free p' = insert i (pool_free p))"
  proof cases
    case no
    then show ?thesis using res o1 keep gb(3,4) by simp
  next
    case nomem
    have "owes st0 budget (pool_bytes p) (tr_buffer_budget_release st1 budget ?g)"
      using budget_release_owes [OF _ assms(2), of "pool_bytes p" ?g st1] o1 nomem by simp
    then show ?thesis using nomem res keep gb(3,4) by simp
  next
    case ok
    note gr = grown_effect [OF inv len assms(5,7), of data]
    let ?p = "bp_set_buffer i ((bp_buffer p i)\<lparr>bf_data := data, bf_capacity := c\<rparr>) p"
    have "pool_bytes ?p = pool_bytes p + unat ?g"
      using pool_bytes_only [OF gr(2) assms(3,5)] gr(4) g assms(6) by (simp add: word_less_nat_alt)
    then have "pool_state budget st0 ?p st1" using gr(1) o1 ok(1) bud by (simp add: pool_state_def)
    then show ?thesis using ok res gr(2,3,4) by (simp del: not_None_eq)
  qed
  then show "pool_state budget st0 p' st'" "only_buffer p i p'"
    "ret = TR_OK \<Longrightarrow> pool_free p' = pool_free p \<and> bf_capacity (bp_buffer p' i) = c \<and> bf_data (bp_buffer p' i) = data \<and> data \<noteq> None"
    "ret \<noteq> TR_OK \<Longrightarrow> pool_free p' = insert i (pool_free p)" by blast+
qed

lemma pool_state_counters [simp]:
  "pool_free (p\<lparr>bp_exhausted_events := e\<rparr>) = pool_free p" "pool_free (p\<lparr>bp_closed := c\<rparr>) = pool_free p"
  "pool_state budget st0 (p\<lparr>bp_exhausted_events := e\<rparr>) st \<longleftrightarrow> pool_state budget st0 p st"
  "pool_state budget st0 (p\<lparr>bp_closed := c\<rparr>) st \<longleftrightarrow> pool_state budget st0 p st"
  by (simp_all add: pool_state_def pool_inv_def buffer_ok_def pool_bytes_def pool_free_def)

lemma acquire_effect:
  assumes "pool_state budget st0 p st" and "budget_linked st0 budget"
    and "tr_buffer_acquire data st (Some p) c (Some out) = (ret, Some p', st', out')"
  shows "pool_state budget st0 p' st'" and "bp_closed p' = bp_closed p" and "bp_buffer_count p' = bp_buffer_count p"
    and "ret = TR_OK \<Longrightarrow> \<exists>i. out' = Some (Some i) \<and> i \<in> pool_free p \<and> only_buffer p i p' \<and> pool_free p' = pool_free p - {i} \<and>
      c \<le> bf_capacity (bp_buffer p' i) \<and> bf_checked_out (bp_buffer p' i)"
    and "ret \<noteq> TR_OK \<Longrightarrow> pool_free p' = pool_free p \<and> (out' = Some None \<or> ret = TR_ERR_INVALID \<and> p' = p)"
    and "c \<noteq> 0 \<Longrightarrow> bp_closed p \<Longrightarrow> ret = TR_ERR_CLOSED \<and> p' = p"
    and "pool_free p = {} \<Longrightarrow> ret \<noteq> TR_OK"
proof -
  have inv: "pool_inv p" and bud: "bp_memory_budget p = budget" using assms(1) by (simp_all add: pool_state_def)
  let ?P = "pool_state budget st0 p' st' \<and> bp_closed p' = bp_closed p \<and> bp_buffer_count p' = bp_buffer_count p \<and>
    (ret = TR_OK \<longrightarrow> (\<exists>i. out' = Some (Some i) \<and> i \<in> pool_free p \<and> only_buffer p i p' \<and> pool_free p' = pool_free p - {i} \<and>
      c \<le> bf_capacity (bp_buffer p' i) \<and> bf_checked_out (bp_buffer p' i))) \<and>
    (ret \<noteq> TR_OK \<longrightarrow> pool_free p' = pool_free p \<and> (out' = Some None \<or> ret = TR_ERR_INVALID \<and> p' = p)) \<and>
    (c \<noteq> 0 \<longrightarrow> bp_closed p \<longrightarrow> ret = TR_ERR_CLOSED \<and> p' = p)"
  have "?P"
  proof (cases "c = 0 \<or> bp_closed p \<or> bp_buffer_size p < c")
    case True
    then show ?thesis using assms(1,3) by (auto simp: tr_buffer_acquire_def split: if_splits)
  next
    case False
    then have c: "c \<noteq> 0" "\<not> bp_closed p" "c \<le> bp_buffer_size p" by auto
    show ?thesis
    proof (cases "bp_free_list p")
      case None
      then have "p' = p\<lparr>bp_exhausted_events := bp_exhausted_events p + 1\<rparr>" "ret = TR_AGAIN" "out' = Some None" "st' = st"
        using assms(3) False by (auto simp: tr_buffer_acquire_def)
      then show ?thesis using assms(1) c by simp
    next
      case (Some i)
      let ?p = "bp_take_out i p"
      note t = take_out_effect [OF inv Some] and o = only_buffer_fields [OF take_out_effect(3) [OF inv Some]]
      have i: "i < unat (bp_buffer_count p)" using t(1) inv by (simp add: pool_free_def pool_inv_def)
      have "pool_bytes ?p = pool_bytes p" by (rule pool_bytes_same [OF t(3) i]) (simp add: t(5))
      then have st1: "pool_state budget st0 ?p st" using assms(1) t(2) o(6) by (simp add: pool_state_def)
      show ?thesis
      proof (cases "\<not> bp_storage ?p \<and> bf_capacity (bp_buffer ?p i) < c")
        case True
        then obtain r where g: "bp_grow data st ?p i c = (ret, p', st')" and out: "out' = Some (if ret = TR_OK then Some i else None)"
          using assms(3) False Some by (auto simp: tr_buffer_acquire_def Let_def split: prod.splits)
        note gr = grow_effect [OF st1 assms(2) _ _ _ _ _ g]
        have pre: "i < unat (bp_buffer_count ?p)" "bf_checked_out (bp_buffer ?p i)" "c \<le> bp_buffer_size ?p"
          using i o(3,4) t(5) c(3) by simp_all
        have "pool_state budget st0 p' st'" and only: "only_buffer p i p'"
          using gr(1,2) pre True only_buffer_trans [OF t(3)] by blast+
        moreover have "ret = TR_OK \<Longrightarrow> pool_free p' = pool_free p - {i} \<and> bf_capacity (bp_buffer p' i) = c"
          using gr(3) pre True t(4) by simp
        moreover have "ret \<noteq> TR_OK \<Longrightarrow> pool_free p' = pool_free p" using gr(4) pre True t(1,4) by auto
        moreover have "i \<notin> pool_free p' \<Longrightarrow> bf_checked_out (bp_buffer p' i)"
          using i only_buffer_fields(8) [OF only] inv by (simp add: pool_free_def pool_inv_def)
        ultimately show ?thesis using out c(2) t(1) only_buffer_fields(3,5) [OF only] by auto
      next
        case noGrow: False
        then have eq: "ret = TR_OK" "p' = ?p" "st' = st" "out' = Some (Some i)"
          using assms(3) False Some by (auto simp: tr_buffer_acquire_def Let_def)
        have "c \<le> bf_capacity (bp_buffer ?p i)"
        proof (cases "bp_storage ?p")
          case True
          have "buffer_ok ?p i" using t(2) i o(3) by (simp add: pool_inv_def)
          then show ?thesis using True c(3) o(4) by (simp add: buffer_ok_def)
        next
          case False
          then show ?thesis using noGrow by simp
        qed
        then show ?thesis using eq st1 t o(3,5) c(2) by simp
      qed
    qed
  qed
  then show "pool_state budget st0 p' st'" "bp_closed p' = bp_closed p" "bp_buffer_count p' = bp_buffer_count p"
    "ret = TR_OK \<Longrightarrow> \<exists>i. out' = Some (Some i) \<and> i \<in> pool_free p \<and> only_buffer p i p' \<and> pool_free p' = pool_free p - {i} \<and>
      c \<le> bf_capacity (bp_buffer p' i) \<and> bf_checked_out (bp_buffer p' i)"
    "ret \<noteq> TR_OK \<Longrightarrow> pool_free p' = pool_free p \<and> (out' = Some None \<or> ret = TR_ERR_INVALID \<and> p' = p)"
    "c \<noteq> 0 \<Longrightarrow> bp_closed p \<Longrightarrow> ret = TR_ERR_CLOSED \<and> p' = p"
    "pool_free p = {} \<Longrightarrow> ret \<noteq> TR_OK"
    by auto
qed

lemma pool_run_state: "pool_run budget st0 p st \<Longrightarrow> budget_linked st0 budget \<Longrightarrow> pool_state budget st0 p st"
proof (induction rule: pool_run.induct)
  case (fixed a1 a2 a3 p0 n sz p st)
  then show ?case by (rule init_fixed_state(1))
next
  case (dynamic a1 a2 p0 n sz p st)
  then show ?case by (rule init_dynamic_state)
next
  case (acquire p st data c out ret p' st' out')
  show ?case by (rule acquire_effect(1) [OF acquire.IH acquire.prems acquire.hyps(2)]) (rule acquire.prems)
next
  case (release p st i p' call)
  then show ?case using give_back_state [of budget st0 p st i] by (simp add: tr_buffer_release_def)
next
  case (refused p st p' st')
  then have "p' = p\<lparr>bp_closed := True\<rparr>" "st' = st"
    by (auto simp: tr_buffer_pool_destroy_def Let_def split: if_splits)
  then show ?case using refused by simp
qed

lemma release_all_owes:
  assumes "owes st0 budget (n + sum_list (map (\<lambda>b. unat (bf_capacity b)) bs)) st" and "budget_linked st0 budget"
  shows "owes st0 budget n (fold (\<lambda>b st. tr_buffer_budget_release st budget (ucast (bf_capacity b))) bs st)"
  using assms(1)
proof (induction bs arbitrary: st)
  case (Cons b bs)
  have "owes st0 budget (n + sum_list (map (\<lambda>b. unat (bf_capacity b)) bs) + unat (ucast (bf_capacity b) :: u64)) st"
    using Cons.prems by (simp add: add.assoc add.commute [of "unat (bf_capacity b)"])
  from Cons.IH [OF budget_release_owes [OF this assms(2)]] show ?case by simp
qed simp

lemma pool_caps_sum:
  "pool_inv p \<Longrightarrow> (\<Sum>i<unat (bp_buffer_count p). unat (bf_capacity (bp_buffer p i))) =
     sum_list (map (\<lambda>b. unat (bf_capacity b)) (the (bp_buffers p)))"
  unfolding pool_inv_def bp_buffer_def by (simp add: sum_list_sum_nth atLeast0LessThan)

lemma destroy_effect:
  assumes "pool_state budget st0 p st" and "budget_linked st0 budget"
  shows "if pool_free p = {..<unat (bp_buffer_count p)}
    then \<exists>st'. tr_buffer_pool_destroy st (Some p) = (TR_OK, Some (buffer_pool_zero\<lparr>bp_closed := True\<rparr>), st') \<and> owes st0 budget 0 st'
    else tr_buffer_pool_destroy st (Some p) = (TR_ERR_STATE, Some (p\<lparr>bp_closed := True\<rparr>), st)"
proof -
  have inv: "pool_inv p" and bud: "bp_memory_budget p = budget" and ow: "owes st0 budget (pool_bytes p) st"
    using assms(1) by (simp_all add: pool_state_def)
  let ?n = "unat (bp_buffer_count p)" and ?bs = "the (bp_buffers p)"
  have ex: "bp_buffers p \<noteq> None" "length ?bs = ?n" "take ?n ?bs = ?bs" using inv by (simp_all add: pool_inv_def)
  have sub: "pool_free p \<subseteq> {..<?n}" using ex(2) by (auto simp: pool_free_def)
  have card: "card (pool_free p) = unat (bp_free_count p)" using inv free_list_card by (auto simp: pool_inv_def)
  have full: "pool_free p = {..<?n} \<longleftrightarrow> bp_free_count p = bp_buffer_count p"
  proof
    assume "pool_free p = {..<?n}"
    then show "bp_free_count p = bp_buffer_count p" using card by (simp add: word_unat_eq_iff)
  next
    assume "bp_free_count p = bp_buffer_count p"
    then show "pool_free p = {..<?n}" using card by (intro card_subset_eq sub) simp_all
  qed
  have out: "list_ex bf_checked_out ?bs \<longleftrightarrow> pool_free p \<noteq> {..<?n}"
    using ex(2) by (auto simp: list_ex_length pool_free_def bp_buffer_def)
  show ?thesis
  proof (cases "pool_free p = {..<?n}")
    case False
    then show ?thesis using ex full by (simp add: tr_buffer_pool_destroy_def Let_def)
  next
    case True
    let ?d = "ucast (bp_buffer_count p) * sizeof_tr_buffer :: u64"
    define f :: u64 where "f = (if bp_storage p then ucast (bp_buffer_count p) * ucast (bp_buffer_size p) else 0)"
    define st1 where "st1 = (if \<not> bp_storage p
      then fold (\<lambda>b st. tr_buffer_budget_release st budget (ucast (bf_capacity b))) ?bs st else st)"
    have "owes st0 budget (?n * 48 + unat f) st1"
    proof (cases "bp_storage p")
      case True
      then show ?thesis using ow by (simp add: st1_def f_def pool_bytes_def storage_bytes)
    next
      case False
      then show ?thesis using ow release_all_owes [OF _ assms(2), of "?n * 48" ?bs st] pool_caps_sum [OF inv]
        by (simp add: st1_def f_def pool_bytes_def)
    qed
    then have "owes st0 budget (?n * 48) (tr_buffer_budget_release st1 budget f)" by (rule budget_release_owes) (rule assms(2))
    then have "owes st0 budget (0 + unat ?d) (tr_buffer_budget_release st1 budget f)" by (simp add: descriptor_bytes)
    then have "owes st0 budget 0 (tr_buffer_budget_release (tr_buffer_budget_release st1 budget f) budget ?d)"
      by (rule budget_release_owes) (rule assms(2))
    moreover have "tr_buffer_pool_destroy st (Some p) = (TR_OK, Some (buffer_pool_zero\<lparr>bp_closed := True\<rparr>),
        tr_buffer_budget_release (tr_buffer_budget_release st1 budget f) budget ?d)"
      using ex full out True bud by (simp add: tr_buffer_pool_destroy_def Let_def st1_def f_def del: not_None_eq)
    ultimately show ?thesis using True by auto
  qed
qed

section \<open>Properties\<close>

text \<open>C7: in every life of a pool, the bytes charged to its budget and to the budget's root are exactly the bytes of
  its descriptors and buffers, the free count is the number of descriptors that are not taken, and the
  two assertions of the code hold: the head of the free list is never taken, and with a descriptor taken
  the free count is below the number of descriptors. Destroying the pool succeeds exactly when nothing
  is taken, and then every balance is what it was before the pool was made; otherwise it only closes
  the pool.\<close>

theorem buffer_pool_accounting:
  assumes "pool_run budget st0 p st" and "budget_linked st0 budget"
  shows "(\<forall>x. balance st x = balance st0 x + (if charged st0 budget x then pool_bytes p else 0)) \<and>
    card (pool_free p) = unat (bp_free_count p) \<and>
    (\<forall>i. bp_free_list p = Some i \<longrightarrow> \<not> bf_checked_out (bp_buffer p i)) \<and>
    (\<forall>i<unat (bp_buffer_count p). bf_checked_out (bp_buffer p i) \<longrightarrow> bp_free_count p < bp_buffer_count p) \<and>
    (if pool_free p = {..<unat (bp_buffer_count p)}
     then \<exists>st'. tr_buffer_pool_destroy st (Some p) = (TR_OK, Some (buffer_pool_zero\<lparr>bp_closed := True\<rparr>), st') \<and>
       (\<forall>x. balance st' x = balance st0 x)
     else tr_buffer_pool_destroy st (Some p) = (TR_ERR_STATE, Some (p\<lparr>bp_closed := True\<rparr>), st))"
proof -
  have ps: "pool_state budget st0 p st" using pool_run_state assms .
  then have inv: "pool_inv p" and ow: "owes st0 budget (pool_bytes p) st" by (simp_all add: pool_state_def)
  have fl: "free_list (\<lambda>i. bf_next (bp_buffer p i)) (bp_free_list p) (pool_free p) (unat (bp_free_count p))"
    and len: "length (the (bp_buffers p)) = unat (bp_buffer_count p)" using inv by (simp_all add: pool_inv_def)
  have "\<not> bf_checked_out (bp_buffer p i)" if "bp_free_list p = Some i" for i
    using free_list_head [OF fl [unfolded that]] by (simp add: pool_free_def)
  moreover have "bp_free_count p < bp_buffer_count p" if "i < unat (bp_buffer_count p)" "bf_checked_out (bp_buffer p i)" for i
    using give_back_effect(1) [OF inv, of i] that len by (simp add: word_less_nat_alt)
  moreover have "\<forall>x. balance st x = balance st0 x + (if charged st0 budget x then pool_bytes p else 0)"
    using ow by (simp add: owes_def)
  moreover have "balance st' x = balance st0 x" if "owes st0 budget 0 st'" for st' x using that by (simp add: owes_def)
  ultimately show ?thesis using destroy_effect [OF ps assms(2)] free_list_card [OF fl] by (auto split: if_splits)
qed

text \<open>C36: an acquisition hands out a descriptor nobody holds, with at least the capacity asked for, and touches no
  other descriptor; if it fails no descriptor changes hands. A closed pool refuses every acquisition.
  Releasing returns the descriptor to the pool, and releasing it again has no effect.\<close>

theorem buffer_acquire_exclusive:
  assumes "pool_run budget st0 p st" and "budget_linked st0 budget"
    and "tr_buffer_acquire data st (Some p) c (Some out) = (ret, Some p', st', out')" and "i < unat (bp_buffer_count p)"
  shows "(if ret = TR_OK
     then \<exists>i. out' = Some (Some i) \<and> i \<in> pool_free p \<and> pool_free p' = pool_free p - {i} \<and> c \<le> bf_capacity (bp_buffer p' i) \<and>
       (\<forall>j. j \<noteq> i \<longrightarrow> bp_buffer p' j = bp_buffer p j)
     else pool_free p' = pool_free p \<and> (c \<noteq> 0 \<longrightarrow> out' = Some None \<or> ret = TR_ERR_INVALID)) \<and>
    (c \<noteq> 0 \<longrightarrow> bp_closed p \<longrightarrow> ret = TR_ERR_CLOSED \<and> p' = p) \<and>
    pool_free (fst (tr_buffer_release p (Buffer_Pooled i))) = insert i (pool_free p) \<and>
    fst (tr_buffer_release (fst (tr_buffer_release p (Buffer_Pooled i))) (Buffer_Pooled i)) =
      fst (tr_buffer_release p (Buffer_Pooled i))"
proof -
  have ps: "pool_state budget st0 p st" using pool_run_state assms(1,2) .
  then have inv: "pool_inv p" by (simp add: pool_state_def)
  have i: "i < length (the (bp_buffers p))" using inv assms(4) by (simp add: pool_inv_def)
  have "pool_free (bp_give_back i p) = insert i (pool_free p) \<and> bp_give_back i (bp_give_back i p) = bp_give_back i p"
  proof (cases "bf_checked_out (bp_buffer p i)")
    case True
    note g = give_back_effect [OF inv i True]
    have "\<not> bf_checked_out (bp_buffer (bp_give_back i p) i)" by (simp add: g(5))
    then show ?thesis using g(4) by (simp add: bp_give_back_def [of i "bp_give_back i p"])
  next
    case False
    then have "i \<in> pool_free p" using i by (simp add: pool_free_def)
    then show ?thesis using False by (simp add: bp_give_back_def insert_absorb)
  qed
  moreover note a = acquire_effect [OF ps assms(2,3)]
  have "if ret = TR_OK
     then \<exists>i. out' = Some (Some i) \<and> i \<in> pool_free p \<and> pool_free p' = pool_free p - {i} \<and> c \<le> bf_capacity (bp_buffer p' i) \<and>
       (\<forall>j. j \<noteq> i \<longrightarrow> bp_buffer p' j = bp_buffer p j)
     else pool_free p' = pool_free p \<and> (c \<noteq> 0 \<longrightarrow> out' = Some None \<or> ret = TR_ERR_INVALID)"
    using a(4,5) only_buffer_fields(1) by fastforce
  ultimately show ?thesis using a(6) by (simp add: tr_buffer_release_def)
qed

text \<open>A pool of two on-demand buffers of at most 64 bytes, charged to budget 0.\<close>

definition buffer_sample_budget :: budgets where
  "buffer_sample_budget = (\<lambda>_. \<lparr>mb_limit_bytes = 0, mb_parent = None, mb_current_bytes = 0, mb_peak_bytes = 0,
     mb_rejection_events = 0\<rparr>)"

lemma buffer_sample:
  "budget_linked buffer_sample_budget (Some 0)"
  "\<exists>p st. tr_buffer_pool_init_dynamic_budgeted True True buffer_sample_budget (Some buffer_pool_zero) 2 64 (Some 0) =
     (TR_OK, Some p, st)"
  by (simp_all add: budget_linked_def linked_def buffer_sample_budget_def tr_buffer_pool_init_dynamic_budgeted_def
      tr_buffer_budget_reserve_def tr_memory_budget_reserve_def tr_memory_budget_reserve_local_def Let_def)

theorem buffer_pool_accounting_witness:
  "\<exists>p st st'. tr_buffer_pool_init_dynamic_budgeted True True buffer_sample_budget (Some buffer_pool_zero) 2 64 (Some 0) =
       (TR_OK, Some p, st) \<and> balance st 0 = pool_bytes p \<and>
     tr_buffer_pool_destroy st (Some p) = (TR_OK, Some (buffer_pool_zero\<lparr>bp_closed := True\<rparr>), st') \<and> balance st' 0 = 0"
proof -
  obtain p st where i: "tr_buffer_pool_init_dynamic_budgeted True True buffer_sample_budget (Some buffer_pool_zero) 2 64 (Some 0) =
     (TR_OK, Some p, st)" using buffer_sample(2) by blast
  have full: "pool_free p = {..<unat (bp_buffer_count p)}" using init_dynamic_state(3,4) [OF i buffer_sample(1)] by simp
  have "charged buffer_sample_budget (Some 0) 0" "balance buffer_sample_budget 0 = 0"
    by (simp_all add: charged_def buffer_sample_budget_def)
  then show ?thesis
    using buffer_pool_accounting [OF pool_run.dynamic [OF i] buffer_sample(1)] i full by auto
qed

lemma acquire_returns_pool: "\<exists>ret p' st' out'. tr_buffer_acquire data st (Some p) c (Some out) = (ret, Some p', st', out')"
  by (cases "bp_free_list p") (auto simp: tr_buffer_acquire_def Let_def split_beta)

lemma buffer_sample_acquire:
  "case tr_buffer_pool_init_dynamic_budgeted True True buffer_sample_budget (Some buffer_pool_zero) 2 64 (Some 0) of
     (r, p, st) \<Rightarrow> fst (tr_buffer_acquire (Some 9) st p 16 (Some None)) = TR_OK"
  by code_simp

theorem buffer_acquire_exclusive_witness:
  "\<exists>p st p' st' i. tr_buffer_pool_init_dynamic_budgeted True True buffer_sample_budget (Some buffer_pool_zero) 2 64 (Some 0) =
       (TR_OK, Some p, st) \<and> tr_buffer_acquire (Some 9) st (Some p) 16 (Some None) = (TR_OK, Some p', st', Some (Some i)) \<and>
     i \<in> pool_free p \<and> pool_free p' = pool_free p - {i}"
proof -
  obtain p st where i: "tr_buffer_pool_init_dynamic_budgeted True True buffer_sample_budget (Some buffer_pool_zero) 2 64 (Some 0) =
     (TR_OK, Some p, st)" using buffer_sample(2) by blast
  have c: "1 < unat (bp_buffer_count p)" using init_dynamic_state(4) [OF i buffer_sample(1)] by simp
  obtain ret p' st' out' where a: "tr_buffer_acquire (Some 9) st (Some p) 16 (Some None) = (ret, Some p', st', out')"
    using acquire_returns_pool by blast
  moreover have "ret = TR_OK" using buffer_sample_acquire a i by simp
  ultimately show ?thesis
    using buffer_acquire_exclusive [OF pool_run.dynamic [OF i] buffer_sample(1) a c] i by auto
qed

end
