(* ===== verification/Tr_Parser.thy ===== *)
theory Tr_Parser
  imports Tr_Wire Tr_Buffer
begin

text \<open>
  The frame parser of \<open>src/transport/protocol/parser.c\<close> and the frames of \<open>frame.c\<close>: a receiver reads straight into
  the interval the parser offers, reports how many bytes arrived, and gets a frame once header and
  payload are complete. The payload buffer is a descriptor of a pool of \<open>Tr_Buffer\<close>. The state the
  functions work on is the parser, the pool it points to, the budgets the pool charges, and the bytes
  in the data area of every descriptor, as a function from descriptor and offset. The pointer that
  \<open>tr_parser_write_ptr\<close> returns is a place: an offset into the header buffer or into the data of a
  descriptor.

  Shown here: the outcome of every read is determined by the bytes of the current frame received so
  far, however they were cut, and is the verdict of a reference definition on them; failing returns
  the payload buffer to the pool. The receive loop over these rounds is in \<open>Tr_Parser_Stream\<close>.
\<close>

datatype tr_parser_state = TR_PARSER_HEADER | TR_PARSER_WAIT_PAYLOAD_BUFFER | TR_PARSER_PAYLOAD

record tr_parser =
  pr_state :: tr_parser_state
  pr_header_buf :: "u8 list"
  pr_header_have :: u32
  pr_header :: tr_frame_header
  pr_payload :: "nat option"
  pr_payload_have :: u32
  pr_payload_crc_state :: u32
  pr_limits :: tr_wire_limits

record tr_frame =
  fr_header :: tr_frame_header
  fr_payload :: "nat option"

record recv_state =
  rs_parser :: tr_parser
  rs_pool :: tr_buffer_pool
  rs_budgets :: budgets
  rs_mem :: "nat \<Rightarrow> nat \<Rightarrow> u8"

datatype write_place = Header_At nat | Payload_At nat nat

definition frame_header_zero :: tr_frame_header where
  "frame_header_zero = \<lparr>fh_version = 0, fh_type = 0, fh_flags = 0, fh_stream_id = 0, fh_message_id = 0, fh_payload_len = 0,
     fh_payload_crc32c = 0, fh_header_crc32c = 0, fh_reserved = 0\<rparr>"

definition tr_frame_init :: "tr_frame option \<Rightarrow> tr_frame option" where
  "tr_frame_init frame = (case frame of None \<Rightarrow> None | Some _ \<Rightarrow> Some \<lparr>fr_header = frame_header_zero, fr_payload = None\<rparr>)"

definition tr_frame_release :: "tr_buffer_pool \<Rightarrow> tr_frame option \<Rightarrow> tr_buffer_pool \<times> tr_frame option" where
  "tr_frame_release pool frame =
     (case frame of None \<Rightarrow> (pool, None)
      | Some f \<Rightarrow> (case fr_payload f of None \<Rightarrow> pool | Some i \<Rightarrow> fst (tr_buffer_release pool (Buffer_Pooled i)),
          Some \<lparr>fr_header = frame_header_zero, fr_payload = None\<rparr>))"

definition tr_parser_clear_current :: "tr_parser \<Rightarrow> tr_parser" where
  "tr_parser_clear_current parser = parser\<lparr>pr_state := TR_PARSER_HEADER, pr_header_have := 0, pr_header := frame_header_zero,
     pr_payload := None, pr_payload_have := 0, pr_payload_crc_state := tr_crc32c_begin\<rparr>"

definition parser_zero :: tr_parser where
  "parser_zero = \<lparr>pr_state = TR_PARSER_HEADER, pr_header_buf = replicate TR_WIRE_HEADER_SIZE 0, pr_header_have = 0,
     pr_header = frame_header_zero, pr_payload = None, pr_payload_have = 0, pr_payload_crc_state = 0,
     pr_limits = \<lparr>max_payload_len = 0\<rparr>\<rparr>"

text \<open>\<open>pool_null\<close> says that the pool argument is the null pointer.\<close>

definition tr_parser_init ::
  "recv_state option \<Rightarrow> bool \<Rightarrow> tr_wire_limits option \<Rightarrow> tr_status \<times> recv_state option" where
  "tr_parser_init parser pool_null limits =
     (case parser of None \<Rightarrow> (TR_ERR_INVALID, None)
      | Some w \<Rightarrow>
          if pool_null then (TR_ERR_INVALID, Some w)
          else (TR_OK, Some (w\<lparr>rs_parser := tr_parser_clear_current
            (parser_zero\<lparr>pr_limits := \<lparr>max_payload_len =
              (case limits of None \<Rightarrow> TR_WIRE_DEFAULT_MAX_PAYLOAD
               | Some l \<Rightarrow> if max_payload_len l \<noteq> 0 then max_payload_len l else TR_WIRE_DEFAULT_MAX_PAYLOAD)\<rparr>\<rparr>)\<rparr>)))"

definition tr_parser_reset :: "recv_state option \<Rightarrow> recv_state option" where
  "tr_parser_reset parser =
     (case parser of None \<Rightarrow> None
      | Some w \<Rightarrow>
          Some (w\<lparr>rs_pool := (case pr_payload (rs_parser w) of None \<Rightarrow> rs_pool w
              | Some i \<Rightarrow> fst (tr_buffer_release (rs_pool w) (Buffer_Pooled i))),
            rs_parser := tr_parser_clear_current (rs_parser w)\<rparr>))"

text \<open>\<open>data\<close> is what \<open>realloc\<close> returns if the pool has to grow a buffer.\<close>

definition tr_parser_prepare :: "nat option \<Rightarrow> recv_state option \<Rightarrow> tr_status \<times> recv_state option" where
  "tr_parser_prepare data parser =
     (case parser of None \<Rightarrow> (TR_ERR_INVALID, None)
      | Some w \<Rightarrow>
          if pr_state (rs_parser w) \<noteq> TR_PARSER_WAIT_PAYLOAD_BUFFER then (TR_OK, Some w)
          else
            let (ret, pool, st, payload) = tr_buffer_acquire data (rs_budgets w) (Some (rs_pool w))
                  (fh_payload_len (pr_header (rs_parser w))) (Some (pr_payload (rs_parser w)));
                w = w\<lparr>rs_pool := the pool, rs_budgets := st, rs_parser := (rs_parser w)\<lparr>pr_payload := the payload\<rparr>\<rparr>
            in if ret \<noteq> TR_OK then (ret, Some w)
            else (TR_OK, Some (w\<lparr>rs_parser := (rs_parser w)\<lparr>pr_payload_have := 0, pr_payload_crc_state := tr_crc32c_begin,
              pr_state := TR_PARSER_PAYLOAD\<rparr>\<rparr>)))"

definition tr_parser_write_ptr :: "recv_state option \<Rightarrow> write_place option" where
  "tr_parser_write_ptr parser =
     (case parser of None \<Rightarrow> None
      | Some w \<Rightarrow>
          let p = rs_parser w in
          if pr_state p = TR_PARSER_HEADER then Some (Header_At (unat (pr_header_have p)))
          else if pr_state p = TR_PARSER_PAYLOAD
          then map_option (\<lambda>i. Payload_At i (unat (pr_payload_have p))) (pr_payload p)
          else None)"

definition tr_parser_write_len :: "recv_state option \<Rightarrow> size_t" where
  "tr_parser_write_len parser =
     (case parser of None \<Rightarrow> 0
      | Some w \<Rightarrow>
          let p = rs_parser w in
          if pr_state p = TR_PARSER_HEADER then ucast ((40 :: u32) - pr_header_have p)
          else if pr_state p = TR_PARSER_PAYLOAD \<and> pr_payload p \<noteq> None
          then ucast (fh_payload_len (pr_header p) - pr_payload_have p)
          else 0)"

definition tr_parser_emit_empty :: "recv_state \<Rightarrow> tr_frame \<Rightarrow> tr_status \<times> recv_state \<times> tr_frame" where
  "tr_parser_emit_empty w out_frame =
     (if fh_payload_crc32c (pr_header (rs_parser w)) \<noteq> tr_crc32c [] then (TR_ERR_PAYLOAD_CRC, w, out_frame)
      else (TR_FRAME_READY, w\<lparr>rs_parser := tr_parser_clear_current (rs_parser w)\<rparr>,
        (the (tr_frame_init (Some out_frame)))\<lparr>fr_header := pr_header (rs_parser w)\<rparr>))"

text \<open>The end of a header: decode, validate, then an empty frame or the payload buffer.\<close>

definition parser_header_done ::
  "nat option \<Rightarrow> recv_state \<Rightarrow> tr_frame \<Rightarrow> tr_status \<times> recv_state \<times> tr_frame" where
  "parser_header_done data w out_frame =
     (let raw = pr_header_buf (rs_parser w);
          (ret, header) = tr_wire_header_decode (Some raw) (Some (pr_header (rs_parser w)));
          w = w\<lparr>rs_parser := (rs_parser w)\<lparr>pr_header := the header\<rparr>\<rparr>
      in if ret \<noteq> TR_OK then (ret, the (tr_parser_reset (Some w)), out_frame)
      else let ret = tr_wire_header_validate (Some raw) (Some (pr_header (rs_parser w))) (Some (pr_limits (rs_parser w)))
      in if ret \<noteq> TR_OK then (ret, the (tr_parser_reset (Some w)), out_frame)
      else if fh_payload_len (pr_header (rs_parser w)) = 0 then
        let (ret, w, out_frame) = tr_parser_emit_empty w out_frame in
        if tr_status_code ret < 0 then (ret, the (tr_parser_reset (Some w)), out_frame) else (ret, w, out_frame)
      else
        let w = w\<lparr>rs_parser := (rs_parser w)\<lparr>pr_state := TR_PARSER_WAIT_PAYLOAD_BUFFER\<rparr>\<rparr>;
            (ret, w') = tr_parser_prepare data (Some w);
            w = the w'
        in if ret = TR_AGAIN then (TR_AGAIN, w, out_frame)
        else if ret \<noteq> TR_OK then (ret, the (tr_parser_reset (Some w)), out_frame)
        else (TR_OK, w, out_frame))"

text \<open>Payload bytes have been counted: more to come, a wrong checksum, or the frame.\<close>

definition parser_payload_check :: "recv_state \<Rightarrow> tr_frame \<Rightarrow> tr_status \<times> recv_state \<times> tr_frame" where
  "parser_payload_check w out_frame =
     (let p = rs_parser w
      in if pr_payload_have p \<noteq> fh_payload_len (pr_header p) then (TR_OK, w, out_frame)
      else if tr_crc32c_finish (pr_payload_crc_state p) \<noteq> fh_payload_crc32c (pr_header p)
      then (TR_ERR_PAYLOAD_CRC, the (tr_parser_reset (Some w)), out_frame)
      else (TR_FRAME_READY, w\<lparr>rs_parser := tr_parser_clear_current (p\<lparr>pr_payload := None\<rparr>)\<rparr>,
        (the (tr_frame_init (Some out_frame)))\<lparr>fr_header := pr_header p, fr_payload := pr_payload p\<rparr>))"

text \<open>Payload bytes have arrived: checksum, count and length of the buffer, then the check.\<close>

definition parser_payload_more :: "recv_state \<Rightarrow> size_t \<Rightarrow> tr_frame \<Rightarrow> tr_status \<times> recv_state \<times> tr_frame" where
  "parser_payload_more w produced out_frame =
     (let p = rs_parser w;
          i = the (pr_payload p);
          off = unat (pr_payload_have p);
          new_data = map (rs_mem w i) [off..<off + unat produced];
          p = p\<lparr>pr_payload_crc_state := tr_crc32c_update (pr_payload_crc_state p) new_data,
            pr_payload_have := pr_payload_have p + ucast produced\<rparr>;
          pool = bp_set_buffer i ((bp_buffer (rs_pool w) i)\<lparr>bf_len := pr_payload_have p\<rparr>) (rs_pool w)
      in parser_payload_check (w\<lparr>rs_parser := p, rs_pool := pool\<rparr>) out_frame)"

definition tr_parser_produce ::
  "nat option \<Rightarrow> recv_state option \<Rightarrow> size_t \<Rightarrow> tr_frame option \<Rightarrow> tr_status \<times> recv_state option \<times> tr_frame option" where
  "tr_parser_produce data parser produced out_frame =
     (case (parser, out_frame) of
        (Some w, Some f) \<Rightarrow>
          let writable = tr_parser_write_len (Some w) in
          if produced = 0 \<or> writable < produced then (TR_ERR_INVALID, parser, out_frame)
          else
            (case pr_state (rs_parser w) of
               TR_PARSER_HEADER \<Rightarrow>
                 let w = w\<lparr>rs_parser := (rs_parser w)\<lparr>pr_header_have := pr_header_have (rs_parser w) + ucast produced\<rparr>\<rparr> in
                 if pr_header_have (rs_parser w) \<noteq> 40 then (TR_OK, Some w, out_frame)
                 else let (ret, w, f) = parser_header_done data w f in (ret, Some w, Some f)
             | TR_PARSER_PAYLOAD \<Rightarrow>
                 let (ret, w, f) = parser_payload_more w produced f in (ret, Some w, Some f)
             | TR_PARSER_WAIT_PAYLOAD_BUFFER \<Rightarrow> (TR_ERR_STATE, parser, out_frame))
      | _ \<Rightarrow> (TR_ERR_INVALID, parser, out_frame))"

text \<open>What \<open>recv\<close> does with the interval: it stores the bytes that arrived at its start.\<close>

definition parser_store :: "write_place \<Rightarrow> u8 list \<Rightarrow> recv_state \<Rightarrow> recv_state" where
  "parser_store place bs w =
     (case place of
        Header_At off \<Rightarrow> w\<lparr>rs_parser := (rs_parser w)\<lparr>pr_header_buf := poke off bs (pr_header_buf (rs_parser w))\<rparr>\<rparr>
      | Payload_At i off \<Rightarrow> w\<lparr>rs_mem := (rs_mem w)(i := \<lambda>k. if off \<le> k \<and> k < off + length bs then bs ! (k - off) else rs_mem w i k)\<rparr>)"


text \<open>One round of the receive loop: the bytes that arrived are stored and reported.\<close>

definition parser_recv :: "nat option \<Rightarrow> recv_state \<Rightarrow> u8 list \<Rightarrow> tr_frame \<Rightarrow> tr_status \<times> recv_state \<times> tr_frame" where
  "parser_recv data w bs f =
     (let w = parser_store (the (tr_parser_write_ptr (Some w))) bs w;
          (ret, w', f') = tr_parser_produce data (Some w) (of_nat (length bs)) (Some f)
      in (ret, the w', the f'))"

section \<open>The reference verdict\<close>

datatype frame_verdict = More | Ready | Bad tr_status

definition frame_verdict :: "tr_wire_limits \<Rightarrow> u8 list \<Rightarrow> frame_verdict" where
  "frame_verdict limits bs =
     (if length bs < 40 then More
      else
        let h = wire_header_fields (take 40 bs);
            ret = tr_wire_header_validate (Some (take 40 bs)) (Some h) (Some limits)
        in if ret \<noteq> TR_OK then Bad ret
        else if length bs < 40 + unat (fh_payload_len h) then More
        else if tr_crc32c (drop 40 bs) \<noteq> fh_payload_crc32c h then Bad TR_ERR_PAYLOAD_CRC
        else Ready)"

section \<open>The invariant\<close>

definition header_accepted :: "tr_wire_limits \<Rightarrow> tr_frame_header \<Rightarrow> u8 list \<Rightarrow> bool" where
  "header_accepted limits h raw \<longleftrightarrow> h = wire_header_fields raw \<and> fh_payload_len h \<noteq> 0 \<and>
     tr_wire_header_validate (Some raw) (Some h) (Some limits) = TR_OK"

text \<open>The parser stands after the bytes \<open>bs\<close> of a frame.\<close>

definition parser_at :: "tr_wire_limits \<Rightarrow> recv_state \<Rightarrow> u8 list \<Rightarrow> bool" where
  "parser_at limits w bs \<longleftrightarrow>
     pr_limits (rs_parser w) = limits \<and> length (pr_header_buf (rs_parser w)) = 40 \<and>
     (case pr_state (rs_parser w) of
        TR_PARSER_HEADER \<Rightarrow> length bs < 40 \<and> unat (pr_header_have (rs_parser w)) = length bs \<and>
          take (length bs) (pr_header_buf (rs_parser w)) = bs \<and> pr_payload (rs_parser w) = None
      | TR_PARSER_WAIT_PAYLOAD_BUFFER \<Rightarrow> length bs = 40 \<and> header_accepted limits (pr_header (rs_parser w)) bs \<and>
          pr_payload (rs_parser w) = None
      | TR_PARSER_PAYLOAD \<Rightarrow> 40 \<le> length bs \<and> header_accepted limits (pr_header (rs_parser w)) (take 40 bs) \<and>
          length bs - 40 < unat (fh_payload_len (pr_header (rs_parser w))) \<and>
          unat (pr_payload_have (rs_parser w)) = length bs - 40 \<and>
          pr_payload_crc_state (rs_parser w) = tr_crc32c_update tr_crc32c_begin (drop 40 bs) \<and>
          (\<exists>i. pr_payload (rs_parser w) = Some i \<and> i < length (the (bp_buffers (rs_pool w))) \<and>
             bf_checked_out (bp_buffer (rs_pool w) i) \<and>
             fh_payload_len (pr_header (rs_parser w)) \<le> bf_capacity (bp_buffer (rs_pool w) i) \<and>
             map (rs_mem w i) [0..<length bs - 40] = drop 40 bs))"

text \<open>The descriptors the parser or the pool still has.\<close>

definition parser_owns :: "recv_state \<Rightarrow> nat set" where
  "parser_owns w = pool_free (rs_pool w) \<union> set_option (pr_payload (rs_parser w))"

definition pool_good :: "nat option \<Rightarrow> budgets \<Rightarrow> recv_state \<Rightarrow> bool" where
  "pool_good budget st0 w \<longleftrightarrow> pool_state budget st0 (rs_pool w) (rs_budgets w)"

text \<open>A frame handed out: its header, and its payload in a buffer that is neither free nor the parser's.\<close>

definition frame_holds :: "recv_state \<Rightarrow> tr_frame \<Rightarrow> u8 list \<Rightarrow> bool" where
  "frame_holds w f bs \<longleftrightarrow> fr_header f = wire_header_fields (take 40 bs) \<and>
     (case fr_payload f of None \<Rightarrow> length bs = 40
      | Some i \<Rightarrow> i \<notin> parser_owns w \<and> bf_len (bp_buffer (rs_pool w) i) = fh_payload_len (fr_header f) \<and>
          unat (fh_payload_len (fr_header f)) = length bs - 40 \<and> map (rs_mem w i) [0..<length bs - 40] = drop 40 bs)"

text \<open>What a round does, given the bytes of the frame received including this round.\<close>

definition recv_outcome :: "tr_wire_limits \<Rightarrow> recv_state \<Rightarrow> tr_frame \<Rightarrow> u8 list \<Rightarrow> tr_status \<Rightarrow> recv_state \<Rightarrow> tr_frame \<Rightarrow> bool" where
  "recv_outcome limits w f bs ret w' f' \<longleftrightarrow>
     (case frame_verdict limits bs of
        Ready \<Rightarrow> ret = TR_FRAME_READY \<and> parser_at limits w' [] \<and> frame_holds w' f' bs \<and>
          parser_owns w = parser_owns w' \<union> set_option (fr_payload f')
      | Bad e \<Rightarrow> ret = e \<and> f' = f \<and> parser_at limits w' [] \<and> parser_owns w' = parser_owns w
      | More \<Rightarrow> f' = f \<and> parser_owns w' = parser_owns w \<and>
          (if ret = TR_OK then parser_at limits w' bs \<and> pr_state (rs_parser w') \<noteq> TR_PARSER_WAIT_PAYLOAD_BUFFER
           else length bs = 40 \<and> ret \<noteq> TR_FRAME_READY \<and>
             parser_at limits w' (if ret = TR_AGAIN then bs else [])))"

section \<open>Every round\<close>

lemma clear_current_at:
  "pr_limits p = limits \<Longrightarrow> length (pr_header_buf p) = 40 \<Longrightarrow> parser_at limits (w\<lparr>rs_parser := tr_parser_clear_current p\<rparr>) []"
  by (simp add: parser_at_def tr_parser_clear_current_def)

lemma clear_current_simps [simp]:
  "pr_payload (tr_parser_clear_current p) = None" "pr_state (tr_parser_clear_current p) = TR_PARSER_HEADER"
  by (simp_all add: tr_parser_clear_current_def)

lemma reset_none:
  "pr_payload (rs_parser w) = None \<Longrightarrow>
     tr_parser_reset (Some w) = Some (w\<lparr>rs_parser := tr_parser_clear_current (rs_parser w)\<rparr>)"
  by (simp add: tr_parser_reset_def)

lemma reset_some:
  "pr_payload (rs_parser w) = Some i \<Longrightarrow>
     tr_parser_reset (Some w) = Some (w\<lparr>rs_pool := bp_give_back i (rs_pool w), rs_parser := tr_parser_clear_current (rs_parser w)\<rparr>)"
  by (simp add: tr_parser_reset_def tr_buffer_release_def)

text \<open>The status of an acquisition is never the one that announces a frame.\<close>

lemma local_not_frame_ready:
  "fst (tr_memory_budget_reserve_local st budget n) \<noteq> TR_FRAME_READY" "fst (tr_memory_budget_release_local st budget n) \<noteq> TR_FRAME_READY"
  by (simp_all add: tr_memory_budget_reserve_local_def tr_memory_budget_release_local_def Let_def split: option.split)

lemma reserve_not_frame_ready: "fst (tr_memory_budget_reserve st budget n) \<noteq> TR_FRAME_READY"
  using local_not_frame_ready
  by (simp add: tr_memory_budget_reserve_def Let_def split: option.split prod.split) (metis fst_conv)

lemma grow_not_frame_ready: "fst (bp_grow data st p i c) \<noteq> TR_FRAME_READY"
  using reserve_not_frame_ready
  by (simp add: bp_grow_def tr_buffer_budget_reserve_def Let_def split: option.split prod.split) (metis fst_conv)

lemma acquire_not_frame_ready: "fst (tr_buffer_acquire data st pool c out) \<noteq> TR_FRAME_READY"
  using grow_not_frame_ready
  by (simp add: tr_buffer_acquire_def Let_def split: option.split prod.split) (metis fst_conv)

lemma prepare_effect:
  assumes "parser_at limits w bs" and "pool_good budget st0 w" and "budget_linked st0 budget"
    and "tr_parser_prepare data (Some w) = (ret, w')"
  obtains v where "w' = Some v" "parser_at limits v bs" "pool_good budget st0 v" "parser_owns v = parser_owns w"
    "ret = TR_OK \<Longrightarrow> pr_state (rs_parser v) \<noteq> TR_PARSER_WAIT_PAYLOAD_BUFFER"
    "ret \<noteq> TR_OK \<Longrightarrow> length bs = 40 \<and> pr_payload (rs_parser v) = None" "ret \<noteq> TR_FRAME_READY"
    "pr_limits (rs_parser v) = pr_limits (rs_parser w)" "pr_header_buf (rs_parser v) = pr_header_buf (rs_parser w)"
    "pr_state (rs_parser w) \<noteq> TR_PARSER_WAIT_PAYLOAD_BUFFER \<Longrightarrow> ret = TR_OK \<and> v = w"
proof (cases "pr_state (rs_parser w) = TR_PARSER_WAIT_PAYLOAD_BUFFER")
  case False
  then show ?thesis using that [of w] assms by (auto simp: tr_parser_prepare_def)
next
  case True
  let ?len = "fh_payload_len (pr_header (rs_parser w))"
  obtain ret' pool st out where a: "tr_buffer_acquire data (rs_budgets w) (Some (rs_pool w)) ?len (Some (pr_payload (rs_parser w))) =
      (ret', Some pool, st, out)" using acquire_returns_pool by blast
  have at: "pr_limits (rs_parser w) = limits" "length (pr_header_buf (rs_parser w)) = 40" "length bs = 40"
    "header_accepted limits (pr_header (rs_parser w)) bs" "pr_payload (rs_parser w) = None"
    using assms(1) True by (simp_all add: parser_at_def)
  have len: "?len \<noteq> 0" using at(4) unfolding header_accepted_def by blast
  note eff = acquire_effect [OF assms(2) [unfolded pool_good_def] assms(3) a]
  define w1 where "w1 = w\<lparr>rs_pool := pool, rs_budgets := st, rs_parser := (rs_parser w)\<lparr>pr_payload := the out\<rparr>\<rparr>"
  have res: "(ret, w') = (if ret' \<noteq> TR_OK then (ret', Some w1)
      else (TR_OK, Some (w1\<lparr>rs_parser := (rs_parser w1)\<lparr>pr_payload_have := 0, pr_payload_crc_state := tr_crc32c_begin,
        pr_state := TR_PARSER_PAYLOAD\<rparr>\<rparr>)))"
    using assms(4) True by (simp add: tr_parser_prepare_def a w1_def Let_def split: if_splits)
  show ?thesis
  proof (cases "ret' = TR_OK")
    case ok: True
    then obtain i where i: "out = Some (Some i)" "i \<in> pool_free (rs_pool w)" "only_buffer (rs_pool w) i pool"
      "pool_free pool = pool_free (rs_pool w) - {i}" "?len \<le> bf_capacity (bp_buffer pool i)" "bf_checked_out (bp_buffer pool i)"
      using eff(4) by blast
    let ?v = "w1\<lparr>rs_parser := (rs_parser w1)\<lparr>pr_payload_have := 0, pr_payload_crc_state := tr_crc32c_begin, pr_state := TR_PARSER_PAYLOAD\<rparr>\<rparr>"
    have "i < length (the (bp_buffers pool))" using i(2) only_buffer_fields(8) [OF i(3)] by (simp add: pool_free_def)
    then have "parser_at limits ?v bs"
      using at i len by (auto simp: parser_at_def w1_def word_neq_0_unat tr_crc32c_update_ref crc32c_ref_def)
    moreover have "parser_owns ?v = parser_owns w" using i(1,2,4) at(5) by (auto simp: parser_owns_def w1_def)
    ultimately show ?thesis using that [of ?v] ok res eff(1) True by (simp add: pool_good_def w1_def)
  next
    case False
    have out: "out = Some None" using False a len
      by (auto simp: tr_buffer_acquire_def Let_def split: if_splits option.splits prod.splits)
    have "parser_at limits w1 bs" using at True by (simp add: parser_at_def w1_def out)
    moreover have "parser_owns w1 = parser_owns w" using eff(5) False at(5) by (auto simp: parser_owns_def w1_def out)
    moreover have "ret' \<noteq> TR_FRAME_READY" using acquire_not_frame_ready by (metis a fst_conv)
    ultimately show ?thesis using that [of w1] False res eff(1) True at(3)
      by (simp add: pool_good_def w1_def out)
  qed
qed

lemma take_poke_end:
  "take (length bs) buf = bs \<Longrightarrow> length bs + length c \<le> length buf \<Longrightarrow> take (length bs + length c) (poke (length bs) c buf) = bs @ c"
  by (simp add: poke_def)

text \<open>A round inside the header.\<close>

lemma header_recv:
  assumes "parser_at limits w bs" and "pr_state (rs_parser w) = TR_PARSER_HEADER" and "c \<noteq> []" and "length bs + length c \<le> 40"
  defines "p \<equiv> (rs_parser w)\<lparr>pr_header_buf := poke (length bs) c (pr_header_buf (rs_parser w)), pr_header_have := of_nat (length bs + length c)\<rparr>"
  shows "parser_recv data w c f =
      (if length bs + length c < 40 then (TR_OK, w\<lparr>rs_parser := p\<rparr>, f) else parser_header_done data (w\<lparr>rs_parser := p\<rparr>) f)"
    and "length bs + length c < 40 \<Longrightarrow> parser_at limits (w\<lparr>rs_parser := p\<rparr>) (bs @ c)"
    and "pr_limits p = limits" "length (pr_header_buf p) = 40" "pr_payload p = None" "length bs + length c = 40 \<Longrightarrow> pr_header_buf p = bs @ c"
proof -
  have at: "pr_limits (rs_parser w) = limits" "length (pr_header_buf (rs_parser w)) = 40" "length bs < 40"
    "unat (pr_header_have (rs_parser w)) = length bs" "take (length bs) (pr_header_buf (rs_parser w)) = bs" "pr_payload (rs_parser w) = None"
    using assms(1,2) by (simp_all add: parser_at_def)
  have have_eq: "pr_header_have (rs_parser w) = of_nat (length bs)" using at(3,4) by (intro word_unat_eq_iff [THEN iffD2]) (simp add: unat_of_nat take_bit_nat_eq_self)
  have c: "unat (of_nat (length c) :: u64) = length c" "unat (of_nat (length c) :: u32) = length c"
    using assms(4) by (simp_all add: unat_of_nat take_bit_nat_eq_self)
  have u: "ucast (of_nat (length c) :: u64) = (of_nat (length c) :: u32)"
    using assms(4) by (intro word_unat_eq_iff [THEN iffD2]) (simp add: unat_ucast_u64_u32 c)
  have n: "unat (of_nat (length bs + length c) :: u32) = length bs + length c"
    using assms(4) by (simp add: unat_of_nat take_bit_nat_eq_self del: of_nat_add)
  have "unat ((40 :: u32) - of_nat (length bs)) = 40 - length bs"
    using at(3) by (subst unat_sub_le) (simp_all add: word_le_nat_alt unat_of_nat take_bit_nat_eq_self)
  then have wr: "\<not> (ucast ((40 :: u32) - of_nat (length bs)) :: u64) < of_nat (length c)" "(of_nat (length c) :: u64) \<noteq> 0"
    using assms(3,4) c(1) by (simp_all add: word_less_nat_alt word_neq_0_unat)
  have n40: "(of_nat (length bs) + of_nat (length c) = (40 :: u32)) \<longleftrightarrow> length bs + length c = 40"
    using n by (simp add: word_unat_eq_iff)
  show "parser_recv data w c f =
      (if length bs + length c < 40 then (TR_OK, w\<lparr>rs_parser := p\<rparr>, f) else parser_header_done data (w\<lparr>rs_parser := p\<rparr>) f)"
    using wr n40 assms(2,4) at(4)
    by (cases "length bs + length c = 40"; cases "parser_header_done data (w\<lparr>rs_parser := p\<rparr>) f")
      (simp_all add: parser_recv_def tr_parser_write_ptr_def parser_store_def tr_parser_produce_def tr_parser_write_len_def
        have_eq u p_def Let_def)
  have buf: "take (length bs + length c) (pr_header_buf p) = bs @ c"
    unfolding p_def using take_poke_end [OF at(5)] at(2) assms(4) by simp
  show len: "length (pr_header_buf p) = 40" using at(2) assms(4) by (simp add: p_def)
  show "pr_limits p = limits" "pr_payload p = None" using at by (simp_all add: p_def)
  show "length bs + length c = 40 \<Longrightarrow> pr_header_buf p = bs @ c" using buf len by simp
  show "parser_at limits (w\<lparr>rs_parser := p\<rparr>) (bs @ c)" if "length bs + length c < 40"
    using that at assms(2) buf len n by (simp add: parser_at_def p_def)
qed

text \<open>The end of a header.\<close>

lemma header_done_outcome:
  assumes "pr_limits (rs_parser w) = limits" "length (pr_header_buf (rs_parser w)) = 40" "pr_payload (rs_parser w) = None"
    and "pr_header_buf (rs_parser w) = bs" and "pool_good budget st0 w" and "budget_linked st0 budget"
    and "parser_header_done data w f = (ret, w', f')"
  shows "recv_outcome limits w f bs ret w' f' \<and> pool_good budget st0 w'"
proof -
  have len: "length bs = 40" using assms(2,4) by simp
  define h where "h = wire_header_fields bs"
  define v where "v = tr_wire_header_validate (Some bs) (Some h) (Some limits)"
  define w1 where "w1 = w\<lparr>rs_parser := (rs_parser w)\<lparr>pr_header := h\<rparr>\<rparr>"
  have w1: "rs_pool w1 = rs_pool w" "rs_budgets w1 = rs_budgets w" "pr_payload (rs_parser w1) = None" "pr_header (rs_parser w1) = h"
    "pr_limits (rs_parser w1) = limits" "length (pr_header_buf (rs_parser w1)) = 40"
    using assms(1-3) by (simp_all add: w1_def)
  have verdict: "frame_verdict limits bs = (if v \<noteq> TR_OK then Bad v else if fh_payload_len h \<noteq> 0 then More
      else if tr_crc32c [] \<noteq> fh_payload_crc32c h then Bad TR_ERR_PAYLOAD_CRC else Ready)"
    by (simp add: frame_verdict_def len Let_def v_def h_def word_neq_0_unat)
  define r where "r = w1\<lparr>rs_parser := tr_parser_clear_current (rs_parser w1)\<rparr>"
  have r: "the (tr_parser_reset (Some w1)) = r" "parser_at limits r []" "parser_owns r = parser_owns w" "pool_good budget st0 r"
    using reset_none [OF w1(3)] clear_current_at [OF w1(5,6)] assms(3,5) w1 by (simp_all add: r_def parser_owns_def pool_good_def)
  have eq: "parser_header_done data w f =
      (if v \<noteq> TR_OK then (v, r, f)
       else if fh_payload_len h = 0 then
         (let (ret, w, f) = tr_parser_emit_empty w1 f in
          if tr_status_code ret < 0 then (ret, the (tr_parser_reset (Some w)), f) else (ret, w, f))
       else
         (let (ret, w') = tr_parser_prepare data (Some (w1\<lparr>rs_parser := (rs_parser w1)\<lparr>pr_state := TR_PARSER_WAIT_PAYLOAD_BUFFER\<rparr>\<rparr>));
              w = the w'
          in if ret = TR_AGAIN then (TR_AGAIN, w, f)
          else if ret \<noteq> TR_OK then (ret, the (tr_parser_reset (Some w)), f) else (TR_OK, w, f)))"
    using assms(1,4) by (simp add: parser_header_done_def Let_def r(1) [symmetric] w1_def v_def h_def)
  consider "v \<noteq> TR_OK" | "v = TR_OK" "fh_payload_len h = 0" | "v = TR_OK" "fh_payload_len h \<noteq> 0" by blast
  then show ?thesis
  proof cases
    case 1
    then show ?thesis using assms(7) verdict r by (auto simp: eq recv_outcome_def)
  next
    case 2
    have emit: "tr_parser_emit_empty w1 f = (if fh_payload_crc32c h \<noteq> tr_crc32c [] then (TR_ERR_PAYLOAD_CRC, w1, f)
        else (TR_FRAME_READY, r, \<lparr>fr_header = h, fr_payload = None\<rparr>))"
      by (simp add: tr_parser_emit_empty_def w1(4) r_def tr_frame_init_def)
    have "(ret, w', f') = (if fh_payload_crc32c h \<noteq> tr_crc32c [] then (TR_ERR_PAYLOAD_CRC, r, f)
        else (TR_FRAME_READY, r, \<lparr>fr_header = h, fr_payload = None\<rparr>))"
      using assms(7) 2 by (simp add: eq emit r(1) split: if_splits)
    moreover have "frame_verdict limits bs = (if fh_payload_crc32c h \<noteq> tr_crc32c [] then Bad TR_ERR_PAYLOAD_CRC else Ready)"
      using verdict 2 by (simp add: eq_commute [of "tr_crc32c []"])
    moreover have "frame_holds r \<lparr>fr_header = h, fr_payload = None\<rparr> bs" by (simp add: frame_holds_def len h_def)
    ultimately show ?thesis using r(2-4) by (simp add: recv_outcome_def split: if_splits)
  next
    case 3
    let ?w2 = "w1\<lparr>rs_parser := (rs_parser w1)\<lparr>pr_state := TR_PARSER_WAIT_PAYLOAD_BUFFER\<rparr>\<rparr>"
    have at: "parser_at limits ?w2 bs"
      using w1 len 3 unfolding parser_at_def by (simp add: header_accepted_def h_def v_def)
    have good: "pool_good budget st0 ?w2" using assms(5) by (simp add: pool_good_def w1)
    have owns: "parser_owns ?w2 = parser_owns w" using assms(3) by (simp add: parser_owns_def w1)
    obtain ret' v' where p: "tr_parser_prepare data (Some ?w2) = (ret', v')" by fastforce
    from prepare_effect [OF at good assms(6) p] obtain u where u: "v' = Some u" "parser_at limits u bs" "pool_good budget st0 u"
      "parser_owns u = parser_owns ?w2" "ret' = TR_OK \<Longrightarrow> pr_state (rs_parser u) \<noteq> TR_PARSER_WAIT_PAYLOAD_BUFFER"
      "ret' \<noteq> TR_OK \<Longrightarrow> length bs = 40 \<and> pr_payload (rs_parser u) = None"
      "ret' \<noteq> TR_FRAME_READY" by metis
    have ul: "pr_limits (rs_parser u) = limits" "length (pr_header_buf (rs_parser u)) = 40" using u(2) by (simp_all add: parser_at_def)
    have res: "(ret, w', f') = (if ret' = TR_AGAIN then (TR_AGAIN, u, f)
        else if ret' \<noteq> TR_OK then (ret', the (tr_parser_reset (Some u)), f) else (TR_OK, u, f))"
      using assms(7) 3 p u(1) by (simp add: eq)
    show ?thesis
    proof (cases "ret' = TR_OK \<or> ret' = TR_AGAIN")
      case True
      then show ?thesis using res verdict 3 u owns len by (auto simp: recv_outcome_def)
    next
      case False
      then have pay: "pr_payload (rs_parser u) = None" using u(6) by blast
      show ?thesis using res verdict 3 False owns len reset_none [OF pay] clear_current_at [OF ul] u(3,4) pay
        u(7) by (simp add: recv_outcome_def parser_owns_def pool_good_def)
    qed
  qed
qed

text \<open>A round inside the payload.\<close>

lemma map_store_upt:
  "map (\<lambda>k. if n \<le> k \<and> k < n + length c then c ! (k - n) else m k) [0..<n + length c] = map m [0..<n] @ c"
proof -
  have "map (\<lambda>k. if n \<le> k \<and> k < n + length c then c ! (k - n) else m k) [n..<n + length c] = c"
    by (rule nth_equalityI) simp_all
  moreover have "[0..<n + length c] = [0..<n] @ [n..<n + length c]" by (rule upt_add_eq_append) simp
  ultimately show ?thesis by simp
qed

lemma payload_recv:
  assumes "parser_at limits w bs" and "pr_state (rs_parser w) = TR_PARSER_PAYLOAD" and "c \<noteq> []"
    and "length bs - 40 + length c \<le> unat (fh_payload_len (pr_header (rs_parser w)))"
  obtains i v where "parser_recv data w c f = (let h = pr_header (rs_parser w) in
      if length bs - 40 + length c \<noteq> unat (fh_payload_len h) then (TR_OK, v, f)
      else if tr_crc32c (drop 40 (bs @ c)) \<noteq> fh_payload_crc32c h then (TR_ERR_PAYLOAD_CRC, the (tr_parser_reset (Some v)), f)
      else (TR_FRAME_READY, v\<lparr>rs_parser := tr_parser_clear_current (rs_parser v)\<rparr>, \<lparr>fr_header = h, fr_payload = Some i\<rparr>))"
    and "rs_pool v = bp_set_buffer i ((bp_buffer (rs_pool w) i)\<lparr>bf_len := of_nat (length bs - 40 + length c)\<rparr>) (rs_pool w)"
    and "rs_budgets v = rs_budgets w" and "pr_payload (rs_parser w) = Some i" and "pr_payload (rs_parser v) = Some i"
    and "pr_state (rs_parser v) = TR_PARSER_PAYLOAD" and "pr_header (rs_parser v) = pr_header (rs_parser w)"
    and "pr_limits (rs_parser v) = limits" and "length (pr_header_buf (rs_parser v)) = 40"
    and "unat (pr_payload_have (rs_parser v)) = length bs - 40 + length c"
    and "pr_payload_crc_state (rs_parser v) = tr_crc32c_update tr_crc32c_begin (drop 40 (bs @ c))"
    and "map (rs_mem v i) [0..<length bs - 40 + length c] = drop 40 (bs @ c)"
    and "i < length (the (bp_buffers (rs_pool w)))" and "bf_checked_out (bp_buffer (rs_pool w) i)"
proof -
  let ?p = "rs_parser w"
  let ?len = "fh_payload_len (pr_header ?p)"
  let ?n = "length bs - 40"
  from assms(1,2) obtain i where at: "pr_limits ?p = limits" "length (pr_header_buf ?p) = 40" "40 \<le> length bs"
    "unat (pr_payload_have ?p) = ?n" "pr_payload_crc_state ?p = tr_crc32c_update tr_crc32c_begin (drop 40 bs)"
    and i: "pr_payload ?p = Some i" "i < length (the (bp_buffers (rs_pool w)))" "bf_checked_out (bp_buffer (rs_pool w) i)"
    "map (rs_mem w i) [0..<?n] = drop 40 bs"
    by (auto simp: parser_at_def)
  have bound: "?n + length c < 2 ^ 32" using assms(4) unat_lt_2p [of ?len] by simp
  then have c: "unat (of_nat (length c) :: u64) = length c" "unat (of_nat (length c) :: u32) = length c"
    by (simp_all add: unat_of_nat take_bit_nat_eq_self)
  have u: "ucast (of_nat (length c) :: u64) = (of_nat (length c) :: u32)"
    using bound by (intro word_unat_eq_iff [THEN iffD2]) (simp add: unat_ucast_u64_u32 c)
  have h: "unat (pr_payload_have ?p + of_nat (length c)) = ?n + length c"
    using bound at(4) c by (subst unat_add_less) simp_all
  have hw: "pr_payload_have ?p + of_nat (length c) = of_nat (?n + length c)"
    using h bound by (intro word_unat_eq_iff [THEN iffD2]) (simp add: unat_of_nat take_bit_nat_eq_self del: of_nat_add)
  have "unat (?len - pr_payload_have ?p) = unat ?len - ?n"
    using assms(4) at(4) by (subst unat_sub_le) (simp_all add: word_le_nat_alt)
  then have wr: "\<not> (ucast (?len - pr_payload_have ?p) :: u64) < of_nat (length c)" "(of_nat (length c) :: u64) \<noteq> 0"
    using assms(3,4) c(1) by (simp_all add: word_less_nat_alt word_neq_0_unat)
  define m where "m = (\<lambda>k. if ?n \<le> k \<and> k < ?n + length c then c ! (k - ?n) else rs_mem w i k)"
  have new: "map m [?n..<?n + length c] = c" unfolding m_def by (rule nth_equalityI) simp_all
  have all: "map m [0..<?n + length c] = drop 40 (bs @ c)" unfolding m_def map_store_upt using i(4) at(3) by simp
  have crc: "tr_crc32c_update (pr_payload_crc_state ?p) c = tr_crc32c_update tr_crc32c_begin (drop 40 (bs @ c))"
    using at(3) by (simp add: at(5) tr_crc32c_update_append)
  define v where "v = w\<lparr>rs_mem := (rs_mem w)(i := m),
     rs_parser := ?p\<lparr>pr_payload_crc_state := tr_crc32c_update tr_crc32c_begin (drop 40 (bs @ c)), pr_payload_have := of_nat (?n + length c)\<rparr>,
     rs_pool := bp_set_buffer i ((bp_buffer (rs_pool w) i)\<lparr>bf_len := of_nat (?n + length c)\<rparr>) (rs_pool w)\<rparr>"
  have full: "(of_nat (?n + length c) = ?len) \<longleftrightarrow> ?n + length c = unat ?len" using h hw by (metis word_unat_eq_iff)
  have clear: "tr_parser_clear_current (p\<lparr>pr_payload := None\<rparr>) = tr_parser_clear_current p" for p
    by (simp add: tr_parser_clear_current_def)
  have fin: "tr_crc32c_finish (tr_crc32c_update tr_crc32c_begin (drop 40 (bs @ c))) = tr_crc32c (drop 40 (bs @ c))"
    by (simp add: tr_crc32c_def)
  have store: "parser_store (the (tr_parser_write_ptr (Some w))) c w = w\<lparr>rs_mem := (rs_mem w)(i := m)\<rparr>"
    using assms(2) i(1) at(4) by (simp add: tr_parser_write_ptr_def parser_store_def m_def)
  have more: "parser_payload_more (w\<lparr>rs_mem := (rs_mem w)(i := m)\<rparr>) (of_nat (length c)) f = (let h = pr_header ?p in
      if ?n + length c \<noteq> unat (fh_payload_len h) then (TR_OK, v, f)
      else if tr_crc32c (drop 40 (bs @ c)) \<noteq> fh_payload_crc32c h then (TR_ERR_PAYLOAD_CRC, the (tr_parser_reset (Some v)), f)
      else (TR_FRAME_READY, v\<lparr>rs_parser := tr_parser_clear_current (rs_parser v)\<rparr>, \<lparr>fr_header = h, fr_payload = Some i\<rparr>))"
    (is "_ = ?check")
  proof -
    have "parser_payload_more (w\<lparr>rs_mem := (rs_mem w)(i := m)\<rparr>) (of_nat (length c)) f = parser_payload_check v f"
      using i(1) by (simp add: parser_payload_more_def Let_def v_def c at(4) new crc u hw del: of_nat_add)
    moreover have vs: "pr_payload_have (rs_parser v) = of_nat (?n + length c)" "pr_header (rs_parser v) = pr_header ?p"
      "pr_payload_crc_state (rs_parser v) = tr_crc32c_update tr_crc32c_begin (drop 40 (bs @ c))" "pr_payload (rs_parser v) = Some i"
      using i(1) by (simp_all add: v_def)
    then have "parser_payload_check v f = ?check"
      by (simp add: parser_payload_check_def Let_def full fin clear tr_frame_init_def del: of_nat_add drop_append)
    ultimately show ?thesis by simp
  qed
  have recv: "parser_recv data w c f = parser_payload_more (w\<lparr>rs_mem := (rs_mem w)(i := m)\<rparr>) (of_nat (length c)) f"
    using wr assms(2) i(1) by (simp add: parser_recv_def store tr_parser_produce_def tr_parser_write_len_def Let_def split: prod.split)
  show thesis
    by (rule that [of v i]) (use recv more i at assms(2) h hw all in \<open>simp_all add: v_def del: of_nat_add\<close>)
qed

lemma payload_outcome:
  assumes "parser_at limits w bs" and "pr_state (rs_parser w) = TR_PARSER_PAYLOAD" and "c \<noteq> []"
    and "length bs - 40 + length c \<le> unat (fh_payload_len (pr_header (rs_parser w)))"
    and "pool_good budget st0 w" and "parser_recv data w c f = (ret, w', f')"
  shows "recv_outcome limits w f (bs @ c) ret w' f' \<and> pool_good budget st0 w'"
proof -
  let ?h = "pr_header (rs_parser w)"
  let ?n = "length bs - 40 + length c"
  obtain i v where recv: "parser_recv data w c f = (let h = ?h in
      if ?n \<noteq> unat (fh_payload_len h) then (TR_OK, v, f)
      else if tr_crc32c (drop 40 (bs @ c)) \<noteq> fh_payload_crc32c h then (TR_ERR_PAYLOAD_CRC, the (tr_parser_reset (Some v)), f)
      else (TR_FRAME_READY, v\<lparr>rs_parser := tr_parser_clear_current (rs_parser v)\<rparr>, \<lparr>fr_header = h, fr_payload = Some i\<rparr>))"
    and pool: "rs_pool v = bp_set_buffer i ((bp_buffer (rs_pool w) i)\<lparr>bf_len := of_nat ?n\<rparr>) (rs_pool w)"
    and v: "rs_budgets v = rs_budgets w" "pr_payload (rs_parser w) = Some i" "pr_payload (rs_parser v) = Some i"
      "pr_state (rs_parser v) = TR_PARSER_PAYLOAD" "pr_header (rs_parser v) = ?h"
      "pr_limits (rs_parser v) = limits" "length (pr_header_buf (rs_parser v)) = 40"
      "unat (pr_payload_have (rs_parser v)) = ?n"
      "pr_payload_crc_state (rs_parser v) = tr_crc32c_update tr_crc32c_begin (drop 40 (bs @ c))"
      "map (rs_mem v i) [0..<?n] = drop 40 (bs @ c)"
    and i: "i < length (the (bp_buffers (rs_pool w)))" "bf_checked_out (bp_buffer (rs_pool w) i)"
    by (rule payload_recv [OF assms(1-4), of data f]) blast
  have len: "40 \<le> length bs" and acc: "header_accepted limits ?h (take 40 bs)"
    and cap: "fh_payload_len ?h \<le> bf_capacity (bp_buffer (rs_pool w) i)"
    using assms(1,2) v(2) by (auto simp: parser_at_def)
  have n: "length (bs @ c) - 40 = ?n" "take 40 (bs @ c) = take 40 bs" "40 \<le> length (bs @ c)" using len by simp_all
  have verdict: "frame_verdict limits (bs @ c) = (if ?n \<noteq> unat (fh_payload_len ?h) then More
      else if tr_crc32c (drop 40 (bs @ c)) \<noteq> fh_payload_crc32c ?h then Bad TR_ERR_PAYLOAD_CRC else Ready)"
    using acc n assms(4) len
    by (auto simp: frame_verdict_def Let_def header_accepted_def simp del: drop_append take_append length_append)
  note s = set_len_state [OF assms(5) [unfolded pool_good_def] i(1), of "of_nat ?n", folded pool]
  have inv: "pool_inv (rs_pool v)" using s(1) by (simp add: pool_state_def)
  have iv: "i < length (the (bp_buffers (rs_pool v)))" "bf_checked_out (bp_buffer (rs_pool v) i)"
    using i only_buffer_fields(8) [OF s(2)] s(4) by simp_all
  have owns: "parser_owns v = parser_owns w" by (simp add: parser_owns_def v s(3))
  consider (more) "?n \<noteq> unat (fh_payload_len ?h)"
    | (crc) "?n = unat (fh_payload_len ?h)" "tr_crc32c (drop 40 (bs @ c)) \<noteq> fh_payload_crc32c ?h"
    | (ready) "?n = unat (fh_payload_len ?h)" "tr_crc32c (drop 40 (bs @ c)) = fh_payload_crc32c ?h" by blast
  then show ?thesis
  proof cases
    case more
    then have r: "ret = TR_OK" "w' = v" "f' = f" using assms(6) recv by simp_all
    have "parser_at limits v (bs @ c)"
      unfolding parser_at_def using v more assms(4) n acc iv cap s(4)
      by (simp del: drop_append take_append length_append)
    then show ?thesis using r verdict more owns s(1) v(1,4) by (simp add: recv_outcome_def pool_good_def)
  next
    case crc
    then have r: "ret = TR_ERR_PAYLOAD_CRC" "w' = v\<lparr>rs_pool := bp_give_back i (rs_pool v), rs_parser := tr_parser_clear_current (rs_parser v)\<rparr>"
      "f' = f" using assms(6) recv reset_some [OF v(3)] by simp_all
    have "parser_owns w' = parser_owns w"
      using give_back_effect(4) [OF inv iv] owns by (simp add: r parser_owns_def v(3))
    moreover have "parser_at limits w' []"
      using clear_current_at [OF v(6,7), of "v\<lparr>rs_pool := bp_give_back i (rs_pool v)\<rparr>"] by (simp add: r)
    moreover have "pool_good budget st0 w'" using give_back_state [OF s(1) iv(1)] by (simp add: pool_good_def r v(1))
    ultimately show ?thesis using r(1,3) verdict crc by (simp add: recv_outcome_def)
  next
    case ready
    then have r: "ret = TR_FRAME_READY" "w' = v\<lparr>rs_parser := tr_parser_clear_current (rs_parser v)\<rparr>"
      "f' = \<lparr>fr_header = ?h, fr_payload = Some i\<rparr>" using assms(6) recv by simp_all
    have free: "parser_owns w' = pool_free (rs_pool v)" by (simp add: r parser_owns_def)
    then have "i \<notin> parser_owns w'" using iv by (simp add: pool_free_def)
    moreover have "bf_len (bp_buffer (rs_pool v) i) = fh_payload_len ?h" by (simp add: s(4) ready(1))
    ultimately have "frame_holds w' f' (bs @ c)"
      unfolding frame_holds_def r n using ready(1) v(10) acc
      by (simp add: header_accepted_def del: drop_append take_append length_append)
    moreover have "parser_owns w = parser_owns w' \<union> {i}" using owns free v(3) by (simp add: parser_owns_def)
    ultimately show ?thesis using r verdict ready clear_current_at [OF v(6,7), of v] s(1) v(1)
      by (simp add: recv_outcome_def pool_good_def)
  qed
qed

text \<open>Every round, in terms of the room the parser offers.\<close>

lemma recv_step:
  assumes "parser_at limits w bs" and "pool_good budget st0 w" and "budget_linked st0 budget"
    and "c \<noteq> []" and "length c \<le> unat (tr_parser_write_len (Some w))" and "parser_recv data w c f = (ret, w', f')"
  shows "recv_outcome limits w f (bs @ c) ret w' f' \<and> pool_good budget st0 w'"
proof (cases "pr_state (rs_parser w)")
  case TR_PARSER_HEADER
  have h: "unat (pr_header_have (rs_parser w)) = length bs" "length bs < 40" using assms(1) TR_PARSER_HEADER by (simp_all add: parser_at_def)
  have "unat (40 - pr_header_have (rs_parser w)) = 40 - length bs" using h by (subst unat_sub_le) (simp_all add: word_le_nat_alt)
  then have room: "length bs + length c \<le> 40" using assms(5) TR_PARSER_HEADER h by (simp add: tr_parser_write_len_def)
  let ?p = "(rs_parser w)\<lparr>pr_header_buf := poke (length bs) c (pr_header_buf (rs_parser w)), pr_header_have := of_nat (length bs + length c)\<rparr>"
  note hr = header_recv [OF assms(1) TR_PARSER_HEADER assms(4) room]
  have owns: "parser_owns (w\<lparr>rs_parser := ?p\<rparr>) = parser_owns w" and good: "pool_good budget st0 (w\<lparr>rs_parser := ?p\<rparr>)"
    using assms(2) by (simp_all add: parser_owns_def pool_good_def)
  show ?thesis
  proof (cases "length bs + length c < 40")
    case True
    then have "ret = TR_OK" "w' = w\<lparr>rs_parser := ?p\<rparr>" "f' = f" using assms(6) hr(1) by simp_all
    then show ?thesis using hr(2) True owns good TR_PARSER_HEADER by (simp add: recv_outcome_def frame_verdict_def)
  next
    case False
    then have full: "length bs + length c = 40" and d: "parser_header_done data (w\<lparr>rs_parser := ?p\<rparr>) f = (ret, w', f')"
      using assms(6) room hr(1) by simp_all
    have "recv_outcome limits (w\<lparr>rs_parser := ?p\<rparr>) f (bs @ c) ret w' f' \<and> pool_good budget st0 w'"
      by (rule header_done_outcome [OF _ _ _ _ good assms(3) d]) (use hr(3-6) full in simp_all)
    then show ?thesis unfolding recv_outcome_def owns .
  qed
next
  case TR_PARSER_WAIT_PAYLOAD_BUFFER
  then show ?thesis using assms(4,5) by (simp add: tr_parser_write_len_def)
next
  case TR_PARSER_PAYLOAD
  let ?len = "fh_payload_len (pr_header (rs_parser w))"
  have h: "unat (pr_payload_have (rs_parser w)) = length bs - 40" "length bs - 40 < unat ?len"
    using assms(1) TR_PARSER_PAYLOAD by (simp_all add: parser_at_def)
  have "unat (?len - pr_payload_have (rs_parser w)) = unat ?len - (length bs - 40)"
    using h by (subst unat_sub_le) (simp_all add: word_le_nat_alt)
  then have "length bs - 40 + length c \<le> unat ?len"
    using assms(5) TR_PARSER_PAYLOAD h by (auto simp: tr_parser_write_len_def Let_def split: if_splits)
  then show ?thesis using payload_outcome [OF assms(1) TR_PARSER_PAYLOAD assms(4) _ assms(2,6)] by blast
qed

end
