(* ===== verification/Tr_Parser_Stream.thy ===== *)
theory Tr_Parser_Stream
  imports Tr_Parser
begin

text \<open>
  The receive loop of a connection over the frame parser, as the read path of \<open>reactor.c\<close> drives it: prepare,
  read into the offered room, report. Shown here: whatever the peer sends and however the reads cut it,
  what the loop hands out is exactly what the reference verdict says of the bytes consumed; a stream that
  starts with a valid frame yields exactly that frame and takes exactly its bytes.
\<close>

section \<open>The receive loop\<close>

text \<open>The receive loop of a connection: prepare, read at most \<open>k + 1\<close> bytes of the input into the offered
  room, report them; until a round does not return \<open>TR_OK\<close> or the input is used up. The result
  includes the input that is left.\<close>

fun parser_rounds :: "(nat option \<times> nat) list \<Rightarrow> recv_state \<Rightarrow> tr_frame \<Rightarrow> u8 list \<Rightarrow> tr_status \<times> recv_state \<times> tr_frame \<times> u8 list" where
  "parser_rounds [] w f input = (TR_OK, w, f, input)"
| "parser_rounds ((data, k) # rs) w f input =
     (let (ret, w') = tr_parser_prepare data (Some w) in
      if ret \<noteq> TR_OK then (ret, the w', f, input)
      else
        let n = min (Suc k) (min (unat (tr_parser_write_len w')) (length input)) in
        if n = 0 then (TR_OK, the w', f, input)
        else
          let (ret, w, f) = parser_recv data (the w') (take n input) f in
          if ret = TR_OK then parser_rounds rs w f (drop n input) else (ret, w, f, drop n input))"

lemma parser_rounds_step:
  assumes "tr_parser_prepare data (Some w) = (TR_OK, Some v)" and "n = min (Suc k) (min (unat (tr_parser_write_len (Some v))) (length input))"
    and "0 < n" and "parser_recv data v (take n input) f = (ret, w', f')"
  shows "parser_rounds ((data, k) # rs) w f input = (if ret = TR_OK then parser_rounds rs w' f' (drop n input) else (ret, w', f', drop n input))"
  using assms(1,3,4) by (simp add: Let_def assms(2) [symmetric])

lemma validate_not_progress:
  "tr_wire_header_validate raw h l \<noteq> TR_FRAME_READY" "tr_wire_header_validate raw h l \<noteq> TR_AGAIN"
  by (cases "(raw, h, l)" rule: tr_wire_header_validate.cases;
      simp add: tr_wire_header_validate.simps wire_reset_checks_def)+

lemma verdict_bad: "frame_verdict limits bs = Bad e \<Longrightarrow> e \<notin> {TR_OK, TR_AGAIN, TR_FRAME_READY}"
  by (auto simp: frame_verdict_def Let_def validate_not_progress split: if_splits)

lemma at_more: "parser_at limits w bs \<Longrightarrow> frame_verdict limits bs = More"
  by (cases "pr_state (rs_parser w)")
    (auto simp: parser_at_def frame_verdict_def header_accepted_def Let_def word_neq_0_unat)

text \<open>What the loop has done when it stops, after the bytes \<open>bs\<close> of the current frame.\<close>

definition rounds_outcome :: "tr_wire_limits \<Rightarrow> recv_state \<Rightarrow> tr_frame \<Rightarrow> u8 list \<Rightarrow> tr_status \<Rightarrow> recv_state \<Rightarrow> tr_frame \<Rightarrow> bool" where
  "rounds_outcome limits w f bs ret w' f' \<longleftrightarrow>
     (if ret = TR_FRAME_READY
      then frame_verdict limits bs = Ready \<and> frame_holds w' f' bs \<and> parser_at limits w' [] \<and>
        parser_owns w = parser_owns w' \<union> set_option (fr_payload f')
      else f' = f \<and> parser_owns w' = parser_owns w \<and>
        (if ret = TR_OK \<or> ret = TR_AGAIN then frame_verdict limits bs = More \<and> parser_at limits w' bs
         else frame_verdict limits bs = Bad ret \<and> parser_at limits w' [] \<or> frame_verdict limits bs = More \<and> length bs = 40))"

lemma recv_outcome_rounds: "recv_outcome limits w f bs ret w' f' \<Longrightarrow> rounds_outcome limits w f bs ret w' f'"
  using verdict_bad [of limits bs ret]
  by (cases "frame_verdict limits bs") (auto simp: recv_outcome_def rounds_outcome_def split: if_splits)

lemma rounds_outcome_owner:
  "parser_owns v = parser_owns w \<Longrightarrow> rounds_outcome limits v f bs ret w' f' = rounds_outcome limits w f bs ret w' f'"
  by (simp add: rounds_outcome_def)

lemma rounds_sound:
  assumes "parser_at limits w bs" and "pool_good budget st0 w" and "budget_linked st0 budget"
    and "parser_rounds rs w f input = (ret, w', f', rest)"
  shows "\<exists>c. input = c @ rest \<and> rounds_outcome limits w f (bs @ c) ret w' f' \<and> pool_good budget st0 w'"
  using assms(1,2,4)
proof (induction rs arbitrary: w f input bs)
  case Nil
  then show ?case by (auto simp: rounds_outcome_def at_more)
next
  case (Cons x rs)
  obtain data k where x: "x = (data, k)" by fastforce
  obtain r1 v1 where p: "tr_parser_prepare data (Some w) = (r1, v1)" by fastforce
  from prepare_effect [OF Cons.prems(1,2) assms(3) p] obtain v where v: "v1 = Some v" "parser_at limits v bs" "pool_good budget st0 v"
    "parser_owns v = parser_owns w" "r1 \<noteq> TR_OK \<Longrightarrow> length bs = 40" "r1 \<noteq> TR_FRAME_READY" by metis
  let ?n = "min (Suc k) (min (unat (tr_parser_write_len (Some v))) (length input))"
  show ?case
  proof (cases "r1 = TR_OK \<and> ?n \<noteq> 0")
    case False
    then have "w' = v" "f' = f" "rest = input" "ret = r1" using Cons.prems(3) p v(1) by (auto simp: x split: if_splits)
    then show ?thesis using v(2-6) at_more [OF v(2)] by (intro exI [of _ "[]"]) (auto simp: rounds_outcome_def)
  next
    case True
    obtain r2 w2 f2 where q: "parser_recv data v (take ?n input) f = (r2, w2, f2)" by (metis prod_cases3)
    have c: "take ?n input \<noteq> []" "length (take ?n input) \<le> unat (tr_parser_write_len (Some v))" using True by auto
    have out: "recv_outcome limits v f (bs @ take ?n input) r2 w2 f2" "pool_good budget st0 w2"
      using recv_step [OF v(2,3) assms(3) c q] by blast+
    have res: "(ret, w', f', rest) = (if r2 = TR_OK then parser_rounds rs w2 f2 (drop ?n input) else (r2, w2, f2, drop ?n input))"
      using Cons.prems(3) parser_rounds_step [OF _ refl _ q, of w rs] p v(1) True by (simp add: x)
    have split: "input = take ?n input @ drop ?n input" by simp
    show ?thesis
    proof (cases "r2 = TR_OK")
      case ok: True
      then have "frame_verdict limits (bs @ take ?n input) = More"
        using recv_outcome_rounds [OF out(1)] by (simp add: rounds_outcome_def)
      then have at: "parser_at limits w2 (bs @ take ?n input)" "f2 = f" "parser_owns w2 = parser_owns w"
        using out(1) ok v(4) by (simp_all add: recv_outcome_def)
      have "\<exists>c. drop ?n input = c @ rest \<and> rounds_outcome limits w2 f2 ((bs @ take ?n input) @ c) ret w' f' \<and> pool_good budget st0 w'"
        by (rule Cons.IH [OF at(1) out(2)]) (use ok res in simp)
      then obtain c' where c': "drop ?n input = c' @ rest" "rounds_outcome limits w2 f2 ((bs @ take ?n input) @ c') ret w' f'"
        "pool_good budget st0 w'" by blast
      have "rounds_outcome limits w f (bs @ take ?n input @ c') ret w' f'"
        using c'(2) rounds_outcome_owner [OF at(3)] at(2) by simp
      then show ?thesis using c'(1,3) split by (metis append_assoc)
    next
      case False
      then have "rounds_outcome limits v f (bs @ take ?n input) ret w' f'" "rest = drop ?n input" "pool_good budget st0 w'"
        using recv_outcome_rounds [OF out(1)] res out(2) by simp_all
      then show ?thesis using split rounds_outcome_owner [OF v(4)] by blast
    qed
  qed
qed

section \<open>Progress\<close>

text \<open>A fixed pool that can serve the frame.\<close>

definition pool_serves :: "u32 \<Rightarrow> tr_buffer_pool \<Rightarrow> bool" where
  "pool_serves n p \<longleftrightarrow> bp_storage p \<and> \<not> bp_closed p \<and> n \<le> bp_buffer_size p \<and> pool_free p \<noteq> {}"

lemma acquire_served:
  assumes "pool_inv p" and "pool_serves n p" and "n \<noteq> 0"
  shows "fst (tr_buffer_acquire data st (Some p) n (Some out)) = TR_OK"
proof -
  have "free_list (\<lambda>i. bf_next (bp_buffer p i)) (bp_free_list p) (pool_free p) (unat (bp_free_count p))" "pool_free p \<noteq> {}"
    using assms(1,2) by (simp_all add: pool_inv_def pool_serves_def)
  then have "bp_free_list p \<noteq> None" by (metis free_list_None)
  moreover have "bp_storage (bp_take_out i p)" for i using assms(2) by (simp add: bp_take_out_def Let_def pool_serves_def)
  ultimately show ?thesis using assms(2,3) by (auto simp: tr_buffer_acquire_def Let_def pool_serves_def)
qed

lemma header_done_served:
  assumes "pr_header_buf (rs_parser w) = bs" and "length bs = 40" and "pr_limits (rs_parser w) = limits"
    and "pool_inv (rs_pool w)" and "pool_serves (fh_payload_len (wire_header_fields bs)) (rs_pool w)"
    and "frame_verdict limits bs = More"
  shows "fst (parser_header_done data w f) = TR_OK"
proof -
  let ?h = "wire_header_fields bs"
  have v: "tr_wire_header_validate (Some bs) (Some ?h) (Some limits) = TR_OK" "fh_payload_len ?h \<noteq> 0"
    using assms(2,6) by (auto simp: frame_verdict_def Let_def split: if_splits)
  let ?w = "w\<lparr>rs_parser := (rs_parser w)\<lparr>pr_header := ?h, pr_state := TR_PARSER_WAIT_PAYLOAD_BUFFER\<rparr>\<rparr>"
  have "fst (tr_parser_prepare data (Some ?w)) = TR_OK"
    using acquire_served [OF assms(4,5) v(2), of data "rs_budgets w" "pr_payload (rs_parser w)"]
    by (auto simp: tr_parser_prepare_def Let_def split: prod.splits)
  then show ?thesis using v assms(1,3) by (auto simp: parser_header_done_def Let_def split: prod.splits)
qed

text \<open>The loop is on its way to the end of the frame: it is not waiting for a buffer, and while it is in the
  header the pool can serve the payload.\<close>

definition on_course :: "u32 \<Rightarrow> recv_state \<Rightarrow> bool" where
  "on_course n w \<longleftrightarrow> pr_state (rs_parser w) \<noteq> TR_PARSER_WAIT_PAYLOAD_BUFFER \<and>
     (pr_state (rs_parser w) = TR_PARSER_HEADER \<longrightarrow> pool_serves n (rs_pool w))"

lemma recv_on_course:
  assumes "parser_at limits w bs" and "pool_good budget st0 w" and "budget_linked st0 budget" and "on_course n w"
    and "c \<noteq> []" and "length c \<le> unat (tr_parser_write_len (Some w))" and "parser_recv data w c f = (ret, w', f')"
    and "frame_verdict limits (bs @ c) = More" and "40 \<le> length (bs @ c) \<Longrightarrow> fh_payload_len (wire_header_fields (take 40 (bs @ c))) = n"
  shows "ret = TR_OK \<and> parser_at limits w' (bs @ c) \<and> pool_good budget st0 w' \<and> on_course n w' \<and> f' = f"
proof -
  have out: "recv_outcome limits w f (bs @ c) ret w' f'" "pool_good budget st0 w'"
    using recv_step [OF assms(1-3,5-7)] by blast+
  have ok: "ret = TR_OK \<Longrightarrow> ?thesis" if "pr_state (rs_parser w') = TR_PARSER_HEADER \<Longrightarrow> pool_serves n (rs_pool w')"
    using out that assms(8) by (simp add: recv_outcome_def on_course_def)
  show ?thesis
  proof (cases "pr_state (rs_parser w)")
    case TR_PARSER_HEADER
    have h: "unat (pr_header_have (rs_parser w)) = length bs" "length bs < 40" using assms(1) TR_PARSER_HEADER by (simp_all add: parser_at_def)
    have "unat (40 - pr_header_have (rs_parser w)) = 40 - length bs" using h by (subst unat_sub_le) (simp_all add: word_le_nat_alt)
    then have room: "length bs + length c \<le> 40" using assms(6) TR_PARSER_HEADER h by (simp add: tr_parser_write_len_def)
    note hr = header_recv [OF assms(1) TR_PARSER_HEADER assms(5) room]
    have serves: "pool_serves n (rs_pool w)" using assms(4) TR_PARSER_HEADER by (simp add: on_course_def)
    show ?thesis
    proof (cases "length bs + length c < 40")
      case True
      then show ?thesis using hr(1) assms(7) serves by (intro ok) auto
    next
      case False
      let ?p = "(rs_parser w)\<lparr>pr_header_buf := poke (length bs) c (pr_header_buf (rs_parser w)), pr_header_have := of_nat (length bs + length c)\<rparr>"
      from False have full: "length bs + length c = 40" using room by simp
      have "fst (parser_header_done data (w\<lparr>rs_parser := ?p\<rparr>) f) = TR_OK"
        by (rule header_done_served [where bs = "bs @ c" and limits = limits])
          (use hr(3,6) full assms(2,8,9) serves in \<open>simp_all add: pool_good_def pool_state_def\<close>)
      then have r: "ret = TR_OK" using hr(1) False assms(7) by simp
      then have "parser_at limits w' (bs @ c)" using out(1) assms(8) by (simp add: recv_outcome_def)
      then have "pr_state (rs_parser w') \<noteq> TR_PARSER_HEADER" using full by (auto simp: parser_at_def)
      then show ?thesis using ok r by blast
    qed
  next
    case TR_PARSER_WAIT_PAYLOAD_BUFFER
    then show ?thesis using assms(4) by (simp add: on_course_def)
  next
    case TR_PARSER_PAYLOAD
    then have len: "40 < length (bs @ c)" using assms(1,5) by (cases c) (auto simp: parser_at_def)
    then have r: "ret = TR_OK" using out(1) assms(8) by (auto simp: recv_outcome_def split: if_splits)
    then have "parser_at limits w' (bs @ c)" using out(1) assms(8) by (simp add: recv_outcome_def)
    then have "pr_state (rs_parser w') \<noteq> TR_PARSER_HEADER" using len by (auto simp: parser_at_def)
    then show ?thesis using ok r by blast
  qed
qed

text \<open>The room the parser offers ends where the header or the payload ends.\<close>

lemma room_bounded:
  assumes "parser_at limits w bs" and "pr_state (rs_parser w) \<noteq> TR_PARSER_WAIT_PAYLOAD_BUFFER"
    and "frame = bs @ ms" and "40 \<le> length frame"
    and "length frame = 40 + unat (fh_payload_len (wire_header_fields (take 40 frame)))"
  shows "0 < unat (tr_parser_write_len (Some w)) \<and> unat (tr_parser_write_len (Some w)) \<le> length ms"
proof (cases "pr_state (rs_parser w)")
  case TR_PARSER_HEADER
  have h: "unat (pr_header_have (rs_parser w)) = length bs" "length bs < 40" using assms(1) TR_PARSER_HEADER by (simp_all add: parser_at_def)
  have "unat (40 - pr_header_have (rs_parser w)) = 40 - length bs" using h by (subst unat_sub_le) (simp_all add: word_le_nat_alt)
  then show ?thesis using TR_PARSER_HEADER h assms(3,4) by (simp add: tr_parser_write_len_def)
next
  case TR_PARSER_WAIT_PAYLOAD_BUFFER
  then show ?thesis using assms(2) by simp
next
  case TR_PARSER_PAYLOAD
  let ?len = "fh_payload_len (pr_header (rs_parser w))"
  have h: "unat (pr_payload_have (rs_parser w)) = length bs - 40" "length bs - 40 < unat ?len" "40 \<le> length bs"
    "pr_header (rs_parser w) = wire_header_fields (take 40 bs)" "pr_payload (rs_parser w) \<noteq> None"
    using assms(1) TR_PARSER_PAYLOAD by (auto simp: parser_at_def header_accepted_def)
  have "unat (?len - pr_payload_have (rs_parser w)) = unat ?len - (length bs - 40)"
    using h by (subst unat_sub_le) (simp_all add: word_le_nat_alt)
  then show ?thesis using TR_PARSER_PAYLOAD h assms(3,5) by (simp add: tr_parser_write_len_def Let_def) arith
qed

lemma rounds_deliver:
  assumes "parser_at limits w bs" and "pool_good budget st0 w" and "budget_linked st0 budget"
    and "frame = bs @ ms" and "40 \<le> length frame" and "length frame = 40 + unat n"
    and "fh_payload_len (wire_header_fields (take 40 frame)) = n" and "frame_verdict limits frame = Ready"
    and "on_course n w" and "length ms \<le> length rs"
    and "parser_rounds rs w f (ms @ rest) = (ret, w', f', rest')"
  shows "ret = TR_FRAME_READY \<and> rest' = rest"
  using assms(1,2,4,9-11)
proof (induction rs arbitrary: w f bs ms)
  case Nil
  then show ?case using at_more [OF Nil(1)] assms(8) by auto
next
  case (Cons x rs)
  obtain data k where x: "x = (data, k)" by fastforce
  note prems = Cons.prems
  have st: "pr_state (rs_parser w) \<noteq> TR_PARSER_WAIT_PAYLOAD_BUFFER" using prems(4) by (simp add: on_course_def)
  then have p: "tr_parser_prepare data (Some w) = (TR_OK, Some w)" by (simp add: tr_parser_prepare_def)
  have room: "0 < unat (tr_parser_write_len (Some w))" "unat (tr_parser_write_len (Some w)) \<le> length ms"
    using room_bounded [OF prems(1) st prems(3) assms(5)] assms(6,7) by blast+
  define m where "m = min (Suc k) (min (unat (tr_parser_write_len (Some w))) (length (ms @ rest)))"
  have m: "0 < m" "m \<le> length ms" "m \<le> unat (tr_parser_write_len (Some w))" using room by (auto simp: m_def)
  define c where "c = take m ms"
  have c: "c \<noteq> []" "length c \<le> unat (tr_parser_write_len (Some w))" "take m (ms @ rest) = c" "drop m (ms @ rest) = drop m ms @ rest"
    using m by (auto simp: c_def)
  obtain r2 w2 f2 where q: "parser_recv data w c f = (r2, w2, f2)" by (metis prod_cases3)
  have res: "(ret, w', f', rest') = (if r2 = TR_OK then parser_rounds rs w2 f2 (drop m ms @ rest) else (r2, w2, f2, drop m ms @ rest))"
    using prems(6) parser_rounds_step [OF p m_def m(1), of f r2 w2 f2 rs] q unfolding x c(3,4) by simp
  show ?case
  proof (cases "m = length ms")
    case True
    then have "bs @ c = frame" by (simp add: c_def prems(3))
    then have "r2 = TR_FRAME_READY" using recv_step [OF prems(1,2) assms(3) c(1,2) q] assms(8) by (simp add: recv_outcome_def)
    then show ?thesis using res True by simp
  next
    case False
    have pre: "frame = (bs @ c) @ drop m ms" "length (bs @ c) < length frame" using prems(3) False m(2) by (simp_all add: c_def)
    have take40: "take 40 (bs @ c) = take 40 frame" if "40 \<le> length (bs @ c)" using that pre(1) by simp
    have "frame_verdict limits (bs @ c) = More"
    proof (cases "length (bs @ c) < 40")
      case True
      then show ?thesis by (simp add: frame_verdict_def)
    next
      case False
      then have "tr_wire_header_validate (Some (take 40 (bs @ c))) (Some (wire_header_fields (take 40 (bs @ c)))) (Some limits) = TR_OK"
        using assms(5,8) take40 by (auto simp: frame_verdict_def Let_def split: if_splits)
      then show ?thesis using False pre(2) assms(6,7) take40 by (simp add: frame_verdict_def Let_def del: take_append)
    qed
    from recv_on_course [OF prems(1,2) assms(3) prems(4) c(1,2) q this] take40 assms(7)
    have nx: "r2 = TR_OK" "parser_at limits w2 (bs @ c)" "pool_good budget st0 w2" "on_course n w2" by auto
    show ?thesis
      by (rule Cons.IH [OF nx(2,3) pre(1) nx(4)]) (use prems(5) m nx(1) res in auto)
  qed
qed

section \<open>Properties\<close>

lemma init_at:
  assumes "tr_parser_init (Some w0) False limits = (TR_OK, Some w)"
  shows "parser_at (pr_limits (rs_parser w)) w []" "rs_pool w = rs_pool w0" "rs_budgets w = rs_budgets w0"
    "pr_state (rs_parser w) = TR_PARSER_HEADER" "parser_owns w = pool_free (rs_pool w0)"
  using assms by (auto simp: tr_parser_init_def parser_at_def parser_zero_def tr_parser_clear_current_def parser_owns_def)

text \<open>C2: whatever the peer sends and however the reads cut it, the receive loop of a fresh parser over a pool in any
  reachable state does exactly what the reference verdict says of the bytes it consumed. A frame is handed
  out only when header and payload are complete and pass both checksums and the limits; it carries the
  decoded header and the payload bytes, in a buffer that is neither free nor the parser's. A validation
  failure is reported with the verdict's status, and otherwise the loop asks for more. In every case no
  descriptor is lost: those the pool and the parser had are the ones they have afterwards, plus the one the
  frame carries away.\<close>

theorem parser_verdict_exact:
  assumes "tr_parser_init (Some w0) False limits = (TR_OK, Some w)"
    and "pool_run budget st0 (rs_pool w0) (rs_budgets w0)" and "budget_linked st0 budget"
    and "parser_rounds rs w f input = (ret, w', f', rest)"
  shows "\<exists>bs. input = bs @ rest \<and>
    (case frame_verdict (pr_limits (rs_parser w)) bs of
       Ready \<Rightarrow> ret = TR_FRAME_READY \<and> frame_holds w' f' bs \<and>
         pool_free (rs_pool w0) = pool_free (rs_pool w') \<union> set_option (fr_payload f')
     | Bad e \<Rightarrow> ret = e \<and> f' = f \<and> pool_free (rs_pool w') = pool_free (rs_pool w0)
     | More \<Rightarrow> ret \<noteq> TR_FRAME_READY \<and> f' = f \<and> parser_owns w' = pool_free (rs_pool w0) \<and>
         (ret \<noteq> TR_OK \<and> ret \<noteq> TR_AGAIN \<longrightarrow> length bs = 40))"
proof -
  note i = init_at [OF assms(1)]
  have "pool_good budget st0 w" using pool_run_state [OF assms(2,3)] by (simp add: pool_good_def i)
  from rounds_sound [OF i(1) this assms(3,4)] obtain bs where bs: "input = bs @ rest"
    "rounds_outcome (pr_limits (rs_parser w)) w f bs ret w' f'" by auto
  have reset: "pool_free (rs_pool w') = parser_owns w'" if "parser_at (pr_limits (rs_parser w)) w' []"
    using that by (cases "pr_state (rs_parser w')") (simp_all add: parser_owns_def parser_at_def)
  show ?thesis
  proof (cases "frame_verdict (pr_limits (rs_parser w)) bs")
    case More
    then show ?thesis using bs by (auto simp: rounds_outcome_def i(5) split: if_splits)
  next
    case Ready
    then have "ret = TR_FRAME_READY" "frame_holds w' f' bs" "parser_at (pr_limits (rs_parser w)) w' []"
      "parser_owns w = parser_owns w' \<union> set_option (fr_payload f')" using bs(2) by (simp_all add: rounds_outcome_def split: if_splits)
    then show ?thesis using bs(1) Ready reset i(5) by (intro exI [of _ bs]) simp
  next
    case (Bad e)
    then have "ret = e" "f' = f" "parser_at (pr_limits (rs_parser w)) w' []" "parser_owns w' = parser_owns w"
      using bs(2) by (simp_all add: rounds_outcome_def split: if_splits)
    then show ?thesis using bs(1) Bad reset i(5) by (intro exI [of _ bs]) simp
  qed
qed

text \<open>C1: a frame sent is the frame received: if a sender encodes a header that meets the wire contract with the
  length and checksum of its payload, then a receiver with a fixed pool that has a free buffer of
  sufficient size hands out exactly this header and payload after at most as many reads as there are
  bytes, and leaves every byte that follows the frame unread.\<close>

theorem parser_frame_delivered:
  assumes "tr_parser_init (Some w0) False limits = (TR_OK, Some w)"
    and "pool_run budget st0 (rs_pool w0) (rs_budgets w0)" and "budget_linked st0 budget"
    and "tr_wire_header_encode (Some out) (Some h) = (TR_OK, Some hb)" and "wire_fields_ok (Some (pr_limits (rs_parser w))) h"
    and "unat (fh_payload_len h) = length pb" and "fh_payload_crc32c h = tr_crc32c pb"
    and "pool_serves (fh_payload_len h) (rs_pool w0)" and "length (hb @ pb) \<le> length rs"
  shows "\<exists>w' f'. parser_rounds rs w f (hb @ pb @ rest) = (TR_FRAME_READY, w', f', rest) \<and>
    fr_header f' = h\<lparr>fh_header_crc32c := tr_header_crc hb\<rparr> \<and>
    (case fr_payload f' of None \<Rightarrow> pb = []
     | Some i \<Rightarrow> i \<in> pool_free (rs_pool w0) \<and> i \<notin> pool_free (rs_pool w') \<and> map (rs_mem w' i) [0..<length pb] = pb)"
proof -
  let ?lim = "pr_limits (rs_parser w)"
  note i = init_at [OF assms(1)]
  have good: "pool_good budget st0 w" using pool_run_state [OF assms(2,3)] by (simp add: pool_good_def i)
  from wire_encoded [of out h] assms(4,5) have hb: "length hb = 40" "wire_header_fields hb = h\<lparr>fh_header_crc32c := tr_header_crc hb\<rparr>"
    "tr_wire_header_validate (Some hb) (Some (h\<lparr>fh_header_crc32c := tr_header_crc hb\<rparr>)) (Some ?lim) = TR_OK" by auto
  have ready: "frame_verdict ?lim (hb @ pb) = Ready" using hb assms(6,7) by (simp add: frame_verdict_def Let_def)
  obtain ret w' f' rest' where r: "parser_rounds rs w f (hb @ pb @ rest) = (ret, w', f', rest')" by (metis prod_cases4)
  have d: "ret = TR_FRAME_READY \<and> rest' = rest"
    by (rule rounds_deliver [OF i(1) good assms(3), of "hb @ pb" "hb @ pb" "fh_payload_len h" rs f rest ret w' f' rest'])
      (use hb assms(6,8,9) ready r i(2,4) in \<open>simp_all add: on_course_def\<close>)
  obtain c where c: "hb @ pb @ rest = c @ rest'" "rounds_outcome ?lim w f ([] @ c) ret w' f'"
    using rounds_sound [OF i(1) good assms(3) r] by blast
  have "c = hb @ pb" using c(1) d by simp
  then have f': "frame_holds w' f' (hb @ pb)" "pool_free (rs_pool w0) = parser_owns w' \<union> set_option (fr_payload f')"
    using c(2) d i(5) by (simp_all add: rounds_outcome_def)
  show ?thesis
    using r d f' hb by (auto simp: frame_holds_def parser_owns_def split: option.splits)
qed

section \<open>Witnesses\<close>

definition parser_sample_header :: tr_frame_header where
  "parser_sample_header = \<lparr>fh_version = 1, fh_type = 1, fh_flags = 3, fh_stream_id = 7, fh_message_id = 13,
     fh_payload_len = 3, fh_payload_crc32c = tr_crc32c [1, 2, 3], fh_header_crc32c = 0, fh_reserved = 0\<rparr>"

definition parser_sample_pool :: tr_buffer_pool where
  "parser_sample_pool = the (fst (snd (tr_buffer_pool_init True True True buffer_sample_budget (Some buffer_pool_zero) 2 64)))"

definition parser_sample :: recv_state where
  "parser_sample = \<lparr>rs_parser = parser_zero, rs_pool = parser_sample_pool, rs_budgets = buffer_sample_budget, rs_mem = \<lambda>_ _. 0\<rparr>"

definition parser_sample_ready :: recv_state where
  "parser_sample_ready = the (snd (tr_parser_init (Some parser_sample) False None))"

lemma parser_sample_pool:
  "tr_buffer_pool_init_budgeted True True True buffer_sample_budget (Some buffer_pool_zero) 2 64 None =
     (TR_OK, Some parser_sample_pool, buffer_sample_budget)"
  "budget_linked buffer_sample_budget None" "pool_run None buffer_sample_budget parser_sample_pool buffer_sample_budget"
  "pool_serves 3 parser_sample_pool"
proof -
  show i: "tr_buffer_pool_init_budgeted True True True buffer_sample_budget (Some buffer_pool_zero) 2 64 None =
     (TR_OK, Some parser_sample_pool, buffer_sample_budget)"
    by (simp add: parser_sample_pool_def tr_buffer_pool_init_def tr_buffer_pool_init_budgeted_def tr_buffer_budget_reserve_def Let_def)
  show l: "budget_linked buffer_sample_budget None" by (simp add: budget_linked_def)
  show "pool_run None buffer_sample_budget parser_sample_pool buffer_sample_budget" by (rule pool_run.fixed [OF i])
  show "pool_serves 3 parser_sample_pool" using init_fixed_state [OF i l] by (simp add: pool_serves_def lessThan_empty_iff)
qed

lemma parser_sample_ready:
  "tr_parser_init (Some parser_sample) False None = (TR_OK, Some parser_sample_ready)"
  "pr_limits (rs_parser parser_sample_ready) = \<lparr>max_payload_len = TR_WIRE_DEFAULT_MAX_PAYLOAD\<rparr>"
  by (simp_all add: parser_sample_ready_def tr_parser_init_def tr_parser_clear_current_def)

theorem parser_frame_delivered_witness:
  "\<exists>hb w' f'. parser_rounds (replicate 43 (None, 4)) parser_sample_ready \<lparr>fr_header = frame_header_zero, fr_payload = None\<rparr>
       (hb @ [1, 2, 3] @ [9, 9]) = (TR_FRAME_READY, w', f', [9, 9]) \<and>
     fr_header f' = parser_sample_header\<lparr>fh_header_crc32c := tr_header_crc hb\<rparr>"
proof -
  obtain hb where hb: "tr_wire_header_encode (Some []) (Some parser_sample_header) = (TR_OK, Some hb)" "length hb = 40"
    by (rule wire_encoded) blast
  have "wire_fields_ok (Some (pr_limits (rs_parser parser_sample_ready))) parser_sample_header"
    by (simp add: wire_fields_ok_def parser_sample_header_def parser_sample_ready wire_max_payload_def)
  from parser_frame_delivered [OF parser_sample_ready(1) _ parser_sample_pool(2) hb(1) this, of "[1, 2, 3]" "replicate 43 (None, 4)"
      "\<lparr>fr_header = frame_header_zero, fr_payload = None\<rparr>" "[9, 9]"] parser_sample_pool(3,4)
  show ?thesis using hb(2) by (auto simp: parser_sample_def parser_sample_header_def)
qed

lemma zeros_magic: "peek TR_WIRE_OFF_MAGIC 4 (replicate 40 0) \<noteq> tr_magic"
  by code_simp

lemma zeros_verdict: "replicate n 0 = bs @ rest \<Longrightarrow> frame_verdict limits bs \<in> {More, Bad TR_ERR_BAD_MAGIC}"
proof -
  assume "replicate n 0 = bs @ rest"
  then have "bs = replicate (length bs) 0" by (metis append_eq_conv_conj length_append length_replicate take_replicate min.absorb1 le_add1)
  then have "peek TR_WIRE_OFF_MAGIC 4 (take 40 bs) \<noteq> tr_magic" if "40 \<le> length bs"
    using that by (metis min.absorb1 take_replicate zeros_magic)
  then show ?thesis by (auto simp: frame_verdict_def Let_def tr_wire_header_validate.simps)
qed

theorem parser_verdict_exact_witness:
  "\<exists>ret w' rest. parser_rounds (replicate 45 (None, 9)) parser_sample_ready \<lparr>fr_header = frame_header_zero, fr_payload = None\<rparr>
       (replicate 50 0) = (ret, w', \<lparr>fr_header = frame_header_zero, fr_payload = None\<rparr>, rest) \<and> ret \<noteq> TR_FRAME_READY"
proof -
  let ?f = "\<lparr>fr_header = frame_header_zero, fr_payload = None\<rparr>"
  obtain ret w' f' rest where r: "parser_rounds (replicate 45 (None, 9)) parser_sample_ready ?f (replicate 50 0) = (ret, w', f', rest)"
    by (metis prod_cases4)
  have "rs_pool parser_sample = parser_sample_pool" "rs_budgets parser_sample = buffer_sample_budget" by (simp_all add: parser_sample_def)
  then obtain bs where bs: "replicate 50 0 = bs @ rest"
    "case frame_verdict (pr_limits (rs_parser parser_sample_ready)) bs of
       Ready \<Rightarrow> ret = TR_FRAME_READY \<and> frame_holds w' f' bs \<and>
         pool_free (rs_pool parser_sample) = pool_free (rs_pool w') \<union> set_option (fr_payload f')
     | Bad e \<Rightarrow> ret = e \<and> f' = ?f \<and> pool_free (rs_pool w') = pool_free (rs_pool parser_sample)
     | More \<Rightarrow> ret \<noteq> TR_FRAME_READY \<and> f' = ?f \<and> parser_owns w' = pool_free (rs_pool parser_sample) \<and>
         (ret \<noteq> TR_OK \<and> ret \<noteq> TR_AGAIN \<longrightarrow> length bs = 40)"
    using parser_verdict_exact [OF parser_sample_ready(1) _ parser_sample_pool(2) r] parser_sample_pool(3) by auto
  then have "ret \<noteq> TR_FRAME_READY" "f' = ?f"
    using zeros_verdict [OF bs(1), of "pr_limits (rs_parser parser_sample_ready)"] by auto
  then show ?thesis using r by blast
qed

end
