(* ===== verification/Tr_Task_Executor.thy ===== *)
theory Tr_Task_Executor
  imports Tr_Memory_Budget Tr_Free_List
begin

text \<open>
  The bounded task executor of \<open>src/execution/task_executor.c\<close>: a table of slots, a free list and two
  first-in first-out queues threaded through the slots, worker threads that run tasks, and an owner that
  delivers completions. Every critical section is one atomic step. A worker thread is a step function
  over its position in the loop; the owner's dispatch is a loop over critical sections with what happens
  while the lock is released, the callback included, as a parameter. Allocation, \<open>pthread_create\<close>,
  \<open>pthread_join\<close> and the destruction of the synchronisation objects are outcomes given as arguments; the
  work function is the status it returns. The sizes of the structs are those of the LP64 ABI with glibc.
\<close>

abbreviation (input) TR_TASK_END :: u32 where "TR_TASK_END \<equiv> 0xffffffff"

abbreviation (input) sizeof_tr_task_executor :: u64 where "sizeof_tr_task_executor \<equiv> 272"
abbreviation (input) sizeof_tr_task_slot :: u64 where "sizeof_tr_task_slot \<equiv> 56"
abbreviation (input) sizeof_pthread_t :: u64 where "sizeof_pthread_t \<equiv> 8"

datatype tr_task_state = TR_TASK_FREE | TR_TASK_QUEUED | TR_TASK_RUNNING | TR_TASK_COMPLETED | TR_TASK_DELIVERING

datatype tr_executor_state = TR_EXECUTOR_NEW | TR_EXECUTOR_STARTING | TR_EXECUTOR_OPEN | TR_EXECUTOR_STOPPING | TR_EXECUTOR_JOINED

text \<open>The comparisons \<open>state < TR_EXECUTOR_STOPPING\<close> of the sources.\<close>

fun executor_stopped :: "tr_executor_state \<Rightarrow> bool" where
  "executor_stopped TR_EXECUTOR_STOPPING = True"
| "executor_stopped TR_EXECUTOR_JOINED = True"
| "executor_stopped _ = False"

record tr_task_handle =
  th_instance :: u64
  th_generation :: u64
  th_slot :: u32

record tr_task_result =
  tr_work_status :: int
  tr_cancelled :: bool

text \<open>Function and argument pointers are identifiers; \<open>None\<close> is the null pointer.\<close>

record tr_task_spec =
  sp_work :: "nat option"
  sp_done :: "nat option"
  sp_arg :: "nat option"

record tr_task_executor_config =
  ec_workers :: size_t
  ec_capacity :: size_t

type_synonym tr_task_stop_mode = u32

abbreviation (input) TR_TASK_DRAIN :: tr_task_stop_mode where "TR_TASK_DRAIN \<equiv> 0"
abbreviation (input) TR_TASK_CANCEL :: tr_task_stop_mode where "TR_TASK_CANCEL \<equiv> 1"

record tr_task_executor_stats =
  es_capacity :: size_t
  es_outstanding :: size_t
  es_queued :: size_t
  es_running :: size_t
  es_completed :: size_t
  es_delivering :: size_t
  es_workers_alive :: size_t
  es_accepting :: bool

record tr_task_slot =
  ts_spec :: tr_task_spec
  ts_cancel :: bool
  ts_result :: tr_task_result
  ts_generation :: u64
  ts_next :: u32
  ts_state :: tr_task_state

record tr_task_executor =
  ex_owner :: nat
  ex_slots :: "tr_task_slot list"
  ex_budget :: nat
  ex_bytes :: u64
  ex_workers :: size_t
  ex_started :: size_t
  ex_joined :: size_t
  ex_instance :: u64
  ex_free_head :: u32
  ex_pending_head :: u32
  ex_pending_tail :: u32
  ex_complete_head :: u32
  ex_complete_tail :: u32
  ex_stats :: tr_task_executor_stats
  ex_state :: tr_executor_state
  ex_dispatching :: bool
  ex_retiring :: bool
  ex_condition_destroyed :: bool
  ex_notify :: "nat option"
  ex_notify_arg :: "nat option"

definition task_spec_zero :: tr_task_spec where
  "task_spec_zero = \<lparr>sp_work = None, sp_done = None, sp_arg = None\<rparr>"

definition task_slot_zero :: tr_task_slot where
  "task_slot_zero = \<lparr>ts_spec = task_spec_zero, ts_cancel = False, ts_result = \<lparr>tr_work_status = 0, tr_cancelled = False\<rparr>,
     ts_generation = 0, ts_next = 0, ts_state = TR_TASK_FREE\<rparr>"

definition ex_slot :: "tr_task_executor \<Rightarrow> u32 \<Rightarrow> tr_task_slot" where
  "ex_slot ex i = ex_slots ex ! unat i"

definition ex_set_slot :: "u32 \<Rightarrow> tr_task_slot \<Rightarrow> tr_task_executor \<Rightarrow> tr_task_executor" where
  "ex_set_slot i s ex = ex\<lparr>ex_slots := (ex_slots ex)[unat i := s]\<rparr>"

section \<open>Counters that never wrap\<close>

definition tr_task_generation_next :: "u64 \<Rightarrow> tr_status \<times> u64" where
  "tr_task_generation_next val = (if val = UINT64_MAX then (TR_ERR_STATE, val) else (TR_OK, val + 1))"

text \<open>The compare-and-swap loop is one atomic step; the result is the status, the counter and the out value.\<close>

definition tr_task_instance_next :: "u64 \<Rightarrow> u64 \<Rightarrow> tr_status \<times> u64 \<times> u64" where
  "tr_task_instance_next counter out = (if counter = UINT64_MAX then (TR_ERR_STATE, counter, out) else (TR_OK, counter + 1, counter + 1))"

section \<open>Queues\<close>

definition tr_task_enqueue :: "tr_task_slot list \<Rightarrow> u32 \<Rightarrow> u32 \<Rightarrow> u32 \<Rightarrow> tr_task_slot list \<times> u32 \<times> u32" where
  "tr_task_enqueue slots head tail index =
     (let slots = slots[unat index := (slots ! unat index)\<lparr>ts_next := TR_TASK_END\<rparr>]
      in if tail \<noteq> TR_TASK_END then (slots[unat tail := (slots ! unat tail)\<lparr>ts_next := index\<rparr>], head, index)
      else (slots, index, index))"

definition tr_task_dequeue :: "tr_task_slot list \<Rightarrow> u32 \<Rightarrow> u32 \<Rightarrow> u32 \<times> u32 \<times> u32" where
  "tr_task_dequeue slots head tail =
     (let index = head;
          head = ts_next (slots ! unat index)
      in (index, head, if head = TR_TASK_END then TR_TASK_END else tail))"

section \<open>Worker threads\<close>

definition tr_task_cancel_requested :: "bool option \<Rightarrow> bool" where
  "tr_task_cancel_requested cancel = (case cancel of None \<Rightarrow> False | Some requested \<Rightarrow> requested)"

text \<open>Taking a task off the pending queue.\<close>

definition worker_take :: "tr_task_executor \<Rightarrow> u32 \<times> tr_task_executor" where
  "worker_take ex =
     (let (index, head, tail) = tr_task_dequeue (ex_slots ex) (ex_pending_head ex) (ex_pending_tail ex);
          ex = ex\<lparr>ex_pending_head := head, ex_pending_tail := tail\<rparr>;
          ex = ex_set_slot index ((ex_slot ex index)\<lparr>ts_state := TR_TASK_RUNNING\<rparr>) ex
      in (index, ex\<lparr>ex_stats := (ex_stats ex)\<lparr>es_queued := es_queued (ex_stats ex) - 1, es_running := es_running (ex_stats ex) + 1\<rparr>\<rparr>))"

text \<open>Committing the result of the work function.\<close>

definition worker_commit :: "u32 \<Rightarrow> int \<Rightarrow> tr_task_executor \<Rightarrow> tr_task_executor" where
  "worker_commit index status ex =
     (let slot = ex_slot ex index;
          slot = slot\<lparr>ts_result := \<lparr>tr_work_status = status, tr_cancelled = tr_task_cancel_requested (Some (ts_cancel slot))\<rparr>,
            ts_state := TR_TASK_COMPLETED\<rparr>;
          ex = ex_set_slot index slot ex;
          ex = ex\<lparr>ex_stats := (ex_stats ex)\<lparr>es_running := es_running (ex_stats ex) - 1, es_completed := es_completed (ex_stats ex) + 1\<rparr>\<rparr>;
          (slots, head, tail) = tr_task_enqueue (ex_slots ex) (ex_complete_head ex) (ex_complete_tail ex) index
      in ex\<lparr>ex_slots := slots, ex_complete_head := head, ex_complete_tail := tail\<rparr>)"

text \<open>The position of a worker thread: waiting for work with the lock held, running a task, ended.\<close>

datatype worker_pc = Waiting | Working u32 | Ended

text \<open>One step of a worker thread; \<open>status\<close> is what the work function returns. The last component is
  the notification, if one is made. A waiting worker that finds neither work nor a stop sleeps on.\<close>

fun tr_task_worker :: "int \<Rightarrow> worker_pc \<times> tr_task_executor \<Rightarrow> worker_pc \<times> tr_task_executor \<times> (nat \<times> nat option) option" where
  "tr_task_worker status (Waiting, ex) =
     (if ex_pending_head ex = TR_TASK_END then
        (if ex_state ex \<noteq> TR_EXECUTOR_STOPPING then (Waiting, ex, None)
         else (Ended, ex\<lparr>ex_stats := (ex_stats ex)\<lparr>es_workers_alive := es_workers_alive (ex_stats ex) - 1\<rparr>\<rparr>, None))
      else let (index, ex) = worker_take ex in (Working index, ex, None))"
| "tr_task_worker status (Working index, ex) =
     (Waiting, worker_commit index status ex, map_option (\<lambda>notify. (notify, ex_notify_arg ex)) (ex_notify ex))"
| "tr_task_worker status (Ended, ex) = (Ended, ex, None)"

section \<open>Life cycle\<close>

text \<open>The slots of a new executor: a free list in the order of the table.\<close>

definition new_slots :: "size_t \<Rightarrow> tr_task_slot list" where
  "new_slots capacity = map (\<lambda>i. task_slot_zero\<lparr>ts_next := if i + 1 < unat capacity then of_nat (i + 1) else TR_TASK_END\<rparr>) [0..<unat capacity]"

definition new_executor :: "nat \<Rightarrow> nat \<Rightarrow> u64 \<Rightarrow> u64 \<Rightarrow> tr_task_executor_config \<Rightarrow> tr_task_executor" where
  "new_executor self budget bytes inst config =
     \<lparr>ex_owner = self, ex_slots = new_slots (ec_capacity config), ex_budget = budget, ex_bytes = bytes,
      ex_workers = ec_workers config, ex_started = 0, ex_joined = 0, ex_instance = inst, ex_free_head = 0,
      ex_pending_head = TR_TASK_END, ex_pending_tail = TR_TASK_END, ex_complete_head = TR_TASK_END, ex_complete_tail = TR_TASK_END,
      ex_stats = \<lparr>es_capacity = ec_capacity config, es_outstanding = 0, es_queued = 0, es_running = 0, es_completed = 0,
        es_delivering = 0, es_workers_alive = 0, es_accepting = False\<rparr>,
      ex_state = TR_EXECUTOR_NEW, ex_dispatching = False, ex_retiring = False, ex_condition_destroyed = False,
      ex_notify = None, ex_notify_arg = None\<rparr>"

text \<open>\<open>allocs\<close> are the outcomes of the three allocations and of the two initialisations; the result
  includes the instance counter and the budgets.\<close>

record create_env =
  ce_executor :: bool
  ce_slots :: bool
  ce_threads :: bool
  ce_mutex :: bool
  ce_cond :: bool

definition tr_task_executor_create ::
  "create_env \<Rightarrow> nat \<Rightarrow> u64 \<Rightarrow> budgets \<Rightarrow> tr_task_executor_config option \<Rightarrow> nat option \<Rightarrow> tr_task_executor option option \<Rightarrow>
    tr_status \<times> u64 \<times> budgets \<times> tr_task_executor option option" where
  "tr_task_executor_create env self instances st config budget out =
     (case (config, budget, out) of
        (Some c, Some b, Some cell) \<Rightarrow>
          if mb_limit_bytes (st b) = 0 \<or> ec_workers c = 0 \<or> ec_capacity c < ec_workers c \<or> ec_capacity c = 0 \<or>
            ucast TR_TASK_END \<le> ec_capacity c
          then (TR_ERR_INVALID, instances, st, out)
          else if cell \<noteq> None then (TR_ERR_STATE, instances, st, out)
          else if (SIZE_MAX - sizeof_tr_task_executor) div sizeof_tr_task_slot < ec_capacity c
          then (TR_ERR_BAD_LENGTH, instances, st, out)
          else
            let bytes = sizeof_tr_task_executor + ec_capacity c * sizeof_tr_task_slot in
            if (SIZE_MAX - bytes) div sizeof_pthread_t < ec_workers c then (TR_ERR_BAD_LENGTH, instances, st, out)
            else
              let bytes = bytes + ec_workers c * sizeof_pthread_t;
                  (ret, instances, inst) = tr_task_instance_next instances 0
              in if ret \<noteq> TR_OK then (ret, instances, st, out)
              else
                let (ret, st) = tr_memory_budget_reserve st budget bytes in
                if ret \<noteq> TR_OK then (ret, instances, st, out)
                else if \<not> ce_executor env \<or> \<not> ce_slots env \<or> \<not> ce_threads env
                then (TR_ERR_NOMEM, instances, snd (tr_memory_budget_release st budget bytes), out)
                else if \<not> ce_mutex env \<or> \<not> ce_cond env
                then (TR_ERR_SYS, instances, snd (tr_memory_budget_release st budget bytes), out)
                else (TR_OK, instances, st, Some (Some (new_executor self b bytes inst c)))
      | _ \<Rightarrow> (TR_ERR_INVALID, instances, st, out))"

definition tr_task_executor_set_notify ::
  "nat \<Rightarrow> tr_task_executor option \<Rightarrow> nat option \<Rightarrow> nat option \<Rightarrow> tr_status \<times> tr_task_executor option" where
  "tr_task_executor_set_notify self executor notify arg =
     (case executor of None \<Rightarrow> (TR_ERR_INVALID, None)
      | Some ex \<Rightarrow>
          if notify = None \<and> arg \<noteq> None then (TR_ERR_INVALID, executor)
          else if self \<noteq> ex_owner ex then (TR_ERR_STATE, executor)
          else if ex_dispatching ex \<or>
            ex_state ex \<noteq> TR_EXECUTOR_NEW \<and>
              \<not> (ex_state ex = TR_EXECUTOR_JOINED \<and> notify = None \<and> es_outstanding (ex_stats ex) = 0)
          then (TR_ERR_STATE, executor)
          else (TR_OK, Some (ex\<lparr>ex_notify := notify, ex_notify_arg := arg\<rparr>)))"

text \<open>The creation loop of \<open>start\<close>; \<open>created\<close> are the outcomes of the calls of \<open>pthread_create\<close>, and a call
  beyond the list fails.\<close>

fun start_loop :: "bool list \<Rightarrow> tr_task_executor \<Rightarrow> tr_status \<times> tr_task_executor" where
  "start_loop created ex =
     (if ex_workers ex \<le> ex_started ex then (TR_OK, ex)
      else (case created of
          True # created \<Rightarrow>
            start_loop created (ex\<lparr>ex_started := ex_started ex + 1,
              ex_stats := (ex_stats ex)\<lparr>es_workers_alive := es_workers_alive (ex_stats ex) + 1\<rparr>\<rparr>)
        | _ \<Rightarrow> (TR_ERR_SYS, ex)))"

declare start_loop.simps [simp del]

definition tr_task_executor_start :: "nat \<Rightarrow> bool list \<Rightarrow> tr_task_executor option \<Rightarrow> tr_status \<times> tr_task_executor option" where
  "tr_task_executor_start self created executor =
     (case executor of None \<Rightarrow> (TR_ERR_INVALID, None)
      | Some ex \<Rightarrow>
          if self \<noteq> ex_owner ex then (TR_ERR_STATE, executor)
          else if ex_state ex \<noteq> TR_EXECUTOR_NEW then (TR_ERR_STATE, executor)
          else
            let (ret, ex) = start_loop created (ex\<lparr>ex_state := TR_EXECUTOR_STARTING\<rparr>)
            in (ret, Some (ex\<lparr>ex_state := if ret = TR_OK then TR_EXECUTOR_OPEN else TR_EXECUTOR_STOPPING,
                 ex_stats := (ex_stats ex)\<lparr>es_accepting := (ret = TR_OK)\<rparr>\<rparr>)))"

section \<open>Submitting and cancelling\<close>

definition task_handle :: "tr_task_executor \<Rightarrow> u32 \<Rightarrow> tr_task_handle" where
  "task_handle ex index = \<lparr>th_instance = ex_instance ex, th_generation = ts_generation (ex_slot ex index), th_slot = index\<rparr>"

definition tr_task_executor_submit ::
  "tr_task_executor option \<Rightarrow> tr_task_spec option \<Rightarrow> tr_task_handle option \<Rightarrow>
    tr_status \<times> tr_task_executor option \<times> tr_task_handle option" where
  "tr_task_executor_submit executor spec out =
     (case (executor, spec, out) of
        (Some ex, Some s, Some _) \<Rightarrow>
          if sp_work s = None \<or> sp_done s = None then (TR_ERR_INVALID, executor, out)
          else if ex_state ex \<noteq> TR_EXECUTOR_OPEN
          then (if executor_stopped (ex_state ex) then TR_ERR_CLOSED else TR_ERR_STATE, executor, out)
          else
            let index = ex_free_head ex in
            if index = TR_TASK_END then (TR_AGAIN, executor, out)
            else
              let slot = ex_slot ex index;
                  (ret, generation) = tr_task_generation_next (ts_generation slot)
              in if ret \<noteq> TR_OK then (ret, executor, out)
              else
                let ex = ex\<lparr>ex_free_head := ts_next slot\<rparr>;
                    ex = ex_set_slot index (slot\<lparr>ts_generation := generation, ts_spec := s, ts_cancel := False,
                      ts_state := TR_TASK_QUEUED\<rparr>) ex;
                    (slots, head, tail) = tr_task_enqueue (ex_slots ex) (ex_pending_head ex) (ex_pending_tail ex) index;
                    ex = ex\<lparr>ex_slots := slots, ex_pending_head := head, ex_pending_tail := tail,
                      ex_stats := (ex_stats ex)\<lparr>es_queued := es_queued (ex_stats ex) + 1,
                        es_outstanding := es_outstanding (ex_stats ex) + 1\<rparr>\<rparr>
                in (TR_OK, Some ex, Some (task_handle ex index))
      | _ \<Rightarrow> (TR_ERR_INVALID, executor, out))"

definition tr_task_executor_cancel :: "tr_task_executor option \<Rightarrow> tr_task_handle \<Rightarrow> tr_status \<times> tr_task_executor option" where
  "tr_task_executor_cancel executor handle =
     (case executor of None \<Rightarrow> (TR_ERR_INVALID, None)
      | Some ex \<Rightarrow>
          if th_instance handle \<noteq> ex_instance ex \<or> es_capacity (ex_stats ex) \<le> ucast (th_slot handle) \<or> th_generation handle = 0
          then (TR_ERR_STALE, executor)
          else
            let slot = ex_slot ex (th_slot handle) in
            if ts_state slot = TR_TASK_FREE \<or> ts_generation slot \<noteq> th_generation handle then (TR_ERR_STALE, executor)
            else if ts_state slot \<noteq> TR_TASK_QUEUED \<and> ts_state slot \<noteq> TR_TASK_RUNNING then (TR_ERR_STATE, executor)
            else (TR_OK, Some (ex_set_slot (th_slot handle) (slot\<lparr>ts_cancel := True\<rparr>) ex)))"

section \<open>Delivering completions\<close>

text \<open>Taking the oldest completion, up to releasing the lock.\<close>

definition dispatch_take :: "tr_task_executor \<Rightarrow> u32 \<times> tr_task_handle \<times> tr_task_executor" where
  "dispatch_take ex =
     (let (index, head, tail) = tr_task_dequeue (ex_slots ex) (ex_complete_head ex) (ex_complete_tail ex);
          ex = ex\<lparr>ex_complete_head := head, ex_complete_tail := tail\<rparr>;
          handle = task_handle ex index;
          ex = ex_set_slot index ((ex_slot ex index)\<lparr>ts_state := TR_TASK_DELIVERING\<rparr>) ex
      in (index, handle, ex\<lparr>ex_stats := (ex_stats ex)\<lparr>es_completed := es_completed (ex_stats ex) - 1,
           es_delivering := es_delivering (ex_stats ex) + 1\<rparr>\<rparr>))"

text \<open>Freeing the slot after the callback.\<close>

definition dispatch_give_back :: "u32 \<Rightarrow> tr_task_executor \<Rightarrow> tr_task_executor" where
  "dispatch_give_back index ex =
     (let ex = ex_set_slot index ((ex_slot ex index)\<lparr>ts_spec := task_spec_zero, ts_state := TR_TASK_FREE,
            ts_next := ex_free_head ex\<rparr>) ex
      in ex\<lparr>ex_free_head := index, ex_stats := (ex_stats ex)\<lparr>es_delivering := es_delivering (ex_stats ex) - 1,
           es_outstanding := es_outstanding (ex_stats ex) - 1\<rparr>\<rparr>)"

text \<open>\<open>unlocked\<close> is what happens to the executor while the callback runs. The first argument is
  \<open>limit - count\<close>.\<close>

fun dispatch_loop ::
  "(tr_task_spec \<Rightarrow> tr_task_handle \<Rightarrow> tr_task_result \<Rightarrow> tr_task_executor \<Rightarrow> tr_task_executor) \<Rightarrow> nat \<Rightarrow> tr_task_executor \<Rightarrow>
    nat \<times> tr_task_executor" where
  "dispatch_loop unlocked 0 ex = (0, ex)"
| "dispatch_loop unlocked (Suc n) ex =
     (if ex_complete_head ex = TR_TASK_END then (0, ex)
      else
        let (index, handle, ex) = dispatch_take ex;
            slot = ex_slot ex index;
            ex = unlocked (ts_spec slot) handle (ts_result slot) ex;
            (count, ex) = dispatch_loop unlocked n (dispatch_give_back index ex)
        in (Suc count, ex))"

definition tr_task_executor_dispatch ::
  "(tr_task_spec \<Rightarrow> tr_task_handle \<Rightarrow> tr_task_result \<Rightarrow> tr_task_executor \<Rightarrow> tr_task_executor) \<Rightarrow> nat \<Rightarrow>
    tr_task_executor option \<Rightarrow> size_t \<Rightarrow> size_t option \<Rightarrow> tr_status \<times> tr_task_executor option \<times> size_t option" where
  "tr_task_executor_dispatch unlocked self executor limit delivered =
     (case (executor, delivered) of
        (Some ex, Some _) \<Rightarrow>
          if limit = 0 then (TR_ERR_INVALID, executor, delivered)
          else if self \<noteq> ex_owner ex then (TR_ERR_STATE, executor, delivered)
          else if ex_dispatching ex then (TR_ERR_STATE, executor, delivered)
          else
            let (count, ex) = dispatch_loop unlocked (unat limit) (ex\<lparr>ex_dispatching := True\<rparr>)
            in (TR_OK, Some (ex\<lparr>ex_dispatching := False\<rparr>), Some (of_nat count))
      | _ \<Rightarrow> (TR_ERR_INVALID, executor, delivered))"

section \<open>Stopping\<close>

definition request_cancel :: "tr_task_slot \<Rightarrow> tr_task_slot" where
  "request_cancel slot = (if ts_state slot = TR_TASK_QUEUED \<or> ts_state slot = TR_TASK_RUNNING then slot\<lparr>ts_cancel := True\<rparr> else slot)"

definition tr_task_executor_stop :: "tr_task_executor option \<Rightarrow> tr_task_stop_mode \<Rightarrow> tr_status \<times> tr_task_executor option" where
  "tr_task_executor_stop executor mode =
     (case executor of None \<Rightarrow> (TR_ERR_INVALID, None)
      | Some ex \<Rightarrow>
          if mode \<noteq> TR_TASK_DRAIN \<and> mode \<noteq> TR_TASK_CANCEL then (TR_ERR_INVALID, executor)
          else
          let ex = (if ex_state ex \<noteq> TR_EXECUTOR_JOINED then ex\<lparr>ex_state := TR_EXECUTOR_STOPPING\<rparr> else ex);
              ex = ex\<lparr>ex_stats := (ex_stats ex)\<lparr>es_accepting := False\<rparr>\<rparr>;
              n = unat (es_capacity (ex_stats ex));
              ex = (if mode = TR_TASK_CANCEL
                    then ex\<lparr>ex_slots := map request_cancel (take n (ex_slots ex)) @ drop n (ex_slots ex)\<rparr> else ex)
          in (TR_OK, Some ex))"

text \<open>The join loop; \<open>joins\<close> are the outcomes of the calls of \<open>pthread_join\<close>.\<close>

fun join_loop :: "bool list \<Rightarrow> tr_task_executor \<Rightarrow> tr_status \<times> tr_task_executor" where
  "join_loop joins ex =
     (if ex_started ex \<le> ex_joined ex then (TR_OK, ex)
      else (case joins of
          True # joins \<Rightarrow> join_loop joins (ex\<lparr>ex_joined := ex_joined ex + 1\<rparr>)
        | _ \<Rightarrow> (TR_ERR_SYS, ex)))"

declare join_loop.simps [simp del]

definition tr_task_executor_join :: "nat \<Rightarrow> bool list \<Rightarrow> tr_task_executor option \<Rightarrow> tr_status \<times> tr_task_executor option" where
  "tr_task_executor_join self joins executor =
     (case executor of None \<Rightarrow> (TR_ERR_INVALID, None)
      | Some ex \<Rightarrow>
          if self \<noteq> ex_owner ex then (TR_ERR_STATE, executor)
          else if ex_dispatching ex \<or> \<not> executor_stopped (ex_state ex) then (TR_ERR_STATE, executor)
          else if es_workers_alive (ex_stats ex) \<noteq> 0 then (TR_AGAIN, executor)
          else
            let (ret, ex) = join_loop joins ex
            in if ret \<noteq> TR_OK then (ret, Some ex) else (TR_OK, Some (ex\<lparr>ex_state := TR_EXECUTOR_JOINED\<rparr>)))"

definition tr_task_executor_get_stats ::
  "tr_task_executor option \<Rightarrow> tr_task_executor_stats option \<Rightarrow> tr_status \<times> tr_task_executor_stats option" where
  "tr_task_executor_get_stats executor out =
     (case (executor, out) of (Some ex, Some _) \<Rightarrow> (TR_OK, Some (ex_stats ex)) | _ \<Rightarrow> (TR_ERR_INVALID, out))"

text \<open>\<open>cond_ok\<close> and \<open>mutex_ok\<close> are the outcomes of destroying the condition variable and the mutex.\<close>

definition tr_task_executor_destroy ::
  "nat \<Rightarrow> bool \<Rightarrow> bool \<Rightarrow> budgets \<Rightarrow> tr_task_executor option option \<Rightarrow> tr_status \<times> budgets \<times> tr_task_executor option option" where
  "tr_task_executor_destroy self cond_ok mutex_ok st executor =
     (case executor of
        Some (Some current) \<Rightarrow>
          if self \<noteq> ex_owner current then (TR_ERR_STATE, st, executor)
          else
            let ret = (if ex_retiring current then TR_OK
                  else if ex_dispatching current \<or> ex_state current \<noteq> TR_EXECUTOR_NEW \<and> ex_state current \<noteq> TR_EXECUTOR_JOINED
                  then TR_ERR_STATE
                  else if es_outstanding (ex_stats current) \<noteq> 0 then TR_AGAIN else TR_OK)
            in if ret \<noteq> TR_OK then (ret, st, executor)
            else
              let current = current\<lparr>ex_retiring := True\<rparr> in
              if \<not> ex_condition_destroyed current \<and> \<not> cond_ok then (TR_ERR_SYS, st, Some (Some current))
              else
                let current = current\<lparr>ex_condition_destroyed := True\<rparr> in
                if \<not> mutex_ok then (TR_ERR_SYS, st, Some (Some current))
                else
                  let (ret, st) = tr_memory_budget_release st (Some (ex_budget current)) (ex_bytes current)
                  in (ret, st, Some None)
      | _ \<Rightarrow> (TR_ERR_INVALID, st, executor))"

definition tr_task_executor_adopt_cleanup ::
  "nat \<Rightarrow> bool \<Rightarrow> tr_task_executor option \<Rightarrow> tr_status \<times> tr_task_executor option" where
  "tr_task_executor_adopt_cleanup self in_worker executor =
     (case executor of None \<Rightarrow> (TR_ERR_INVALID, None)
      | Some ex \<Rightarrow>
          if in_worker then (TR_ERR_STATE, executor)
          else if \<not> executor_stopped (ex_state ex) \<or> ex_dispatching ex then (TR_ERR_STATE, executor)
          else (TR_OK, Some (ex\<lparr>ex_owner := self\<rparr>)))"

definition tr_task_executor_is_current_owner :: "nat \<Rightarrow> tr_task_executor option \<Rightarrow> bool" where
  "tr_task_executor_is_current_owner self executor = (case executor of None \<Rightarrow> False | Some ex \<Rightarrow> self = ex_owner ex)"

end
