(* ===== verification/Tr_Task_Run.thy ===== *)
theory Tr_Task_Run
  imports Tr_Task_Executor
begin

text \<open>
  The runs of a task executor: any interleaving of the calls of its users, the steps of its worker threads and
  the sections of the owner's dispatch. Shown here: the work of every accepted task is started exactly
  once and in the order of submission, its completion is delivered exactly once and in the order of
  completion, the counters are the sizes of the sets they count, cancelling distinguishes exactly the
  tasks that are still open, finished and delivered, and a joined executor has no work left.
\<close>

section \<open>The queues\<close>

definition link :: "u32 \<Rightarrow> nat option" where
  "link w = (if w = TR_TASK_END then None else Some (unat w))"

lemma link_simps [simp]: "link TR_TASK_END = None" "link w = None \<longleftrightarrow> w = TR_TASK_END"
  by (auto simp: link_def)

lemma unat_of_nat_slot: "i < 2 ^ 32 - 1 \<Longrightarrow> unat (of_nat i :: u32) = i"
  by (simp add: unat_of_nat take_bit_nat_eq_self)

lemma link_of_nat [simp]: "i < 2 ^ 32 - 1 \<Longrightarrow> link (of_nat i) = Some i"
  using unat_of_nat_slot [of i] by (auto simp: link_def)

lemma link_Some: "link w = Some i \<Longrightarrow> w = of_nat i \<and> w \<noteq> TR_TASK_END \<and> unat w = i"
  by (auto simp: link_def split: if_splits)

definition follow :: "tr_task_slot list \<Rightarrow> nat \<Rightarrow> nat option" where
  "follow slots i = link (ts_next (slots ! i))"

definition queued :: "tr_task_slot list \<Rightarrow> u32 \<Rightarrow> u32 \<Rightarrow> nat list \<Rightarrow> bool" where
  "queued slots head tail qs \<longleftrightarrow> chain (follow slots) (link head) qs \<and>
     link tail = (if qs = [] then None else Some (last qs)) \<and> distinct qs \<and> set qs \<subseteq> {..<length slots}"

lemma queued_cong:
  assumes "queued slots head tail qs" and "length slots' = length slots" and "\<And>i. i \<in> set qs \<Longrightarrow> ts_next (slots' ! i) = ts_next (slots ! i)"
  shows "queued slots' head tail qs"
  using assms chain_cong [of qs "follow slots'" "follow slots" "link head"] by (simp add: queued_def follow_def)

lemma task_dequeue_effect:
  assumes "queued slots head tail qs" and "head \<noteq> TR_TASK_END" and "tr_task_dequeue slots head tail = (index, head', tail')"
  obtains i qs' where "qs = i # qs'" "index = of_nat i" "unat index = i" "i < length slots" "queued slots head' tail' qs'"
proof -
  obtain i where i: "link head = Some i" using assms(2) by (auto simp: link_def)
  then obtain qs' where qs': "qs = i # qs'" using assms(1) by (cases qs) (auto simp: queued_def)
  note e = link_Some [OF i]
  have "index = head" "head' = ts_next (slots ! i)" "tail' = (if head' = TR_TASK_END then TR_TASK_END else tail)"
    using assms(3) e [THEN conjunct2, THEN conjunct2] by (auto simp: tr_task_dequeue_def Let_def)
  moreover have "chain (follow slots) (link (ts_next (slots ! i))) qs'" "link tail = Some (last qs)" "distinct qs" "set qs \<subseteq> {..<length slots}"
    using assms(1) qs' by (auto simp: queued_def follow_def)
  moreover have "(ts_next (slots ! i) = TR_TASK_END) \<longleftrightarrow> qs' = []" using calculation(4) by (cases qs') auto
  ultimately have "queued slots head' tail' qs'" using qs' by (auto simp: queued_def)
  then show thesis using that qs' e \<open>index = head\<close> \<open>set qs \<subseteq> {..<length slots}\<close> by auto
qed

lemma task_enqueue_effect:
  assumes "queued slots head tail qs" and "i < length slots" and "length slots < 2 ^ 32 - 1" and "i \<notin> set qs"
    and "tr_task_enqueue slots head tail (of_nat i) = (slots', head', tail')"
  shows "queued slots' head' tail' (qs @ [i])" and "length slots' = length slots"
    and "\<And>j. \<exists>n. slots' ! j = (slots ! j)\<lparr>ts_next := n\<rparr>"
    and "\<And>j. j \<notin> insert i (set qs) \<Longrightarrow> slots' ! j = slots ! j"
proof -
  have ui: "unat (of_nat i :: u32) = i" using assms(2,3) by (intro unat_of_nat_slot) simp
  let ?s = "slots[i := (slots ! i)\<lparr>ts_next := TR_TASK_END\<rparr>]"
  have res: "slots' = (if qs = [] then ?s else ?s[last qs := (?s ! last qs)\<lparr>ts_next := of_nat i\<rparr>]) \<and>
      head' = (if qs = [] then of_nat i else head) \<and> tail' = of_nat i"
  proof (cases "qs = []")
    case True
    then have "tail = TR_TASK_END" using assms(1) by (simp add: queued_def)
    then show ?thesis using True assms(5) ui by (auto simp: tr_task_enqueue_def Let_def)
  next
    case False
    then have "link tail = Some (last qs)" using assms(1) by (simp add: queued_def)
    then show ?thesis using False assms(5) ui link_Some [of tail] by (auto simp: tr_task_enqueue_def Let_def)
  qed
  have last: "qs \<noteq> [] \<Longrightarrow> last qs < length slots \<and> last qs \<noteq> i \<and> last qs \<in> set qs"
    using assms(1,4) by (auto simp: queued_def subset_iff)
  show len: "length slots' = length slots" using res by simp
  show "\<exists>n. slots' ! j = (slots ! j)\<lparr>ts_next := n\<rparr>" for j
    using res last assms(2) by (intro exI [of _ "ts_next (slots' ! j)"]) (auto simp: nth_list_update)
  show "slots' ! j = slots ! j" if "j \<notin> insert i (set qs)" for j
    using that res last by (auto simp: nth_list_update)
  have "chain (follow slots') (link head') (qs @ [i])"
  proof (rule chain_snoc [of "follow slots" "link head"])
    show "chain (follow slots) (link head) qs" "distinct qs" using assms(1) by (simp_all add: queued_def)
    show "i \<notin> set qs" by fact
    show "follow slots' j = follow slots j" if "j \<in> set (butlast qs)" for j
    proof -
      have ne: "qs \<noteq> []" using that by auto
      have "distinct (butlast qs @ [last qs])" using assms(1) ne by (simp add: queued_def)
      then have "j \<noteq> last qs" "j \<noteq> i" using that assms(4) in_set_butlastD [OF that] by auto
      then show ?thesis using res by (simp add: follow_def)
    qed
    show "qs \<noteq> [] \<Longrightarrow> follow slots' (last qs) = Some i" using res last assms(2,3) by (simp add: follow_def)
    show "follow slots' i = None" using res last assms(2) by (auto simp: follow_def)
    show "link head' = (if qs = [] then Some i else link head)" using res assms(2,3) by simp
  qed
  then show "queued slots' head' tail' (qs @ [i])"
    using assms(1,2,3,4) res by (simp add: queued_def)
qed

section \<open>Runs\<close>

text \<open>What has happened so far: the handles of the accepted tasks, of those whose work was started, of those
  whose result was committed, and of those whose callback has returned, each in order.\<close>

record task_log =
  tl_accepted :: "tr_task_handle list"
  tl_started :: "tr_task_handle list"
  tl_finished :: "tr_task_handle list"
  tl_delivered :: "tr_task_handle list"

definition handle_at :: "tr_task_executor \<Rightarrow> nat \<Rightarrow> tr_task_handle" where
  "handle_at ex i = task_handle ex (of_nat i)"

text \<open>What a step of a worker adds.\<close>

fun log_worker :: "worker_pc \<Rightarrow> worker_pc \<Rightarrow> tr_task_executor \<Rightarrow> task_log \<Rightarrow> task_log" where
  "log_worker Waiting (Working i) ex l = l\<lparr>tl_started := tl_started l @ [task_handle ex i]\<rparr>"
| "log_worker (Working i) pc ex l = l\<lparr>tl_finished := tl_finished l @ [task_handle ex i]\<rparr>"
| "log_worker pc pc' ex l = l"

text \<open>The state of a run is the executor, the positions of its worker threads and the log. The owner's
  dispatch is the sequence of its sections; anything may happen between them.\<close>

inductive exec_run :: "tr_task_executor \<Rightarrow> worker_pc list \<Rightarrow> task_log \<Rightarrow> bool" where
  create: "tr_task_executor_create env self instances st config (Some b) (Some None) = (TR_OK, instances', st', Some (Some ex)) \<Longrightarrow>
    exec_run ex [] \<lparr>tl_accepted = [], tl_started = [], tl_finished = [], tl_delivered = []\<rparr>"
| set_notify: "exec_run ex ws l \<Longrightarrow> tr_task_executor_set_notify self (Some ex) notify arg = (ret, Some ex') \<Longrightarrow> exec_run ex' ws l"
| start: "exec_run ex ws l \<Longrightarrow> tr_task_executor_start self created (Some ex) = (ret, Some ex') \<Longrightarrow>
    exec_run ex' (ws @ replicate (unat (ex_started ex' - ex_started ex)) Waiting) l"
| submit: "exec_run ex ws l \<Longrightarrow> tr_task_executor_submit (Some ex) (Some spec) (Some h0) = (ret, Some ex', Some h) \<Longrightarrow>
    exec_run ex' ws (if ret = TR_OK then l\<lparr>tl_accepted := tl_accepted l @ [h]\<rparr> else l)"
| cancel: "exec_run ex ws l \<Longrightarrow> tr_task_executor_cancel (Some ex) h = (ret, Some ex') \<Longrightarrow> exec_run ex' ws l"
| worker: "exec_run ex ws l \<Longrightarrow> k < length ws \<Longrightarrow> tr_task_worker status (ws ! k, ex) = (pc, ex', note) \<Longrightarrow>
    exec_run ex' (ws[k := pc]) (log_worker (ws ! k) pc ex' l)"
| dispatch_begin: "exec_run ex ws l \<Longrightarrow> \<not> ex_dispatching ex \<Longrightarrow> exec_run (ex\<lparr>ex_dispatching := True\<rparr>) ws l"
| dispatch_take: "exec_run ex ws l \<Longrightarrow> ex_dispatching ex \<Longrightarrow> es_delivering (ex_stats ex) = 0 \<Longrightarrow> ex_complete_head ex \<noteq> TR_TASK_END \<Longrightarrow>
    dispatch_take ex = (i, h, ex') \<Longrightarrow> exec_run ex' ws l"
| dispatch_give_back: "exec_run ex ws l \<Longrightarrow> unat i < length (ex_slots ex) \<Longrightarrow> ts_state (ex_slot ex i) = TR_TASK_DELIVERING \<Longrightarrow>
    exec_run (dispatch_give_back i ex) ws (l\<lparr>tl_delivered := tl_delivered l @ [task_handle ex i]\<rparr>)"
| dispatch_end: "exec_run ex ws l \<Longrightarrow> ex_dispatching ex \<Longrightarrow> es_delivering (ex_stats ex) = 0 \<Longrightarrow> exec_run (ex\<lparr>ex_dispatching := False\<rparr>) ws l"
| stop: "exec_run ex ws l \<Longrightarrow> tr_task_executor_stop (Some ex) mode = (ret, Some ex') \<Longrightarrow> exec_run ex' ws l"
| join: "exec_run ex ws l \<Longrightarrow> tr_task_executor_join self joins (Some ex) = (ret, Some ex') \<Longrightarrow> exec_run ex' ws l"
| adopt: "exec_run ex ws l \<Longrightarrow> tr_task_executor_adopt_cleanup self in_worker (Some ex) = (ret, Some ex') \<Longrightarrow> exec_run ex' ws l"

section \<open>The invariant\<close>

definition in_state :: "tr_task_executor \<Rightarrow> tr_task_state \<Rightarrow> nat set" where
  "in_state ex s = {i. i < length (ex_slots ex) \<and> ts_state (ex_slots ex ! i) = s}"

lemma finite_in_state [simp]: "finite (in_state ex s)" by (simp add: in_state_def)

definition table_ok :: "tr_task_executor \<Rightarrow> nat list \<Rightarrow> nat list \<Rightarrow> nat list \<Rightarrow> nat list \<Rightarrow> bool" where
  "table_ok ex F P C D \<longleftrightarrow>
     length (ex_slots ex) = unat (es_capacity (ex_stats ex)) \<and> length (ex_slots ex) < 2 ^ 32 - 1 \<and>
     chain (follow (ex_slots ex)) (link (ex_free_head ex)) F \<and> distinct F \<and> set F = in_state ex TR_TASK_FREE \<and>
     queued (ex_slots ex) (ex_pending_head ex) (ex_pending_tail ex) P \<and> set P = in_state ex TR_TASK_QUEUED \<and>
     queued (ex_slots ex) (ex_complete_head ex) (ex_complete_tail ex) C \<and> set C = in_state ex TR_TASK_COMPLETED \<and>
     distinct D \<and> set D = in_state ex TR_TASK_DELIVERING \<and> length D \<le> 1 \<and> (D \<noteq> [] \<longrightarrow> ex_dispatching ex)"

definition counts_ok :: "tr_task_executor \<Rightarrow> nat list \<Rightarrow> nat list \<Rightarrow> nat list \<Rightarrow> nat list \<Rightarrow> bool" where
  "counts_ok ex F P C D \<longleftrightarrow>
     unat (es_queued (ex_stats ex)) = length P \<and> unat (es_completed (ex_stats ex)) = length C \<and>
     unat (es_delivering (ex_stats ex)) = length D \<and> unat (es_running (ex_stats ex)) = card (in_state ex TR_TASK_RUNNING) \<and>
     unat (es_outstanding (ex_stats ex)) + length F = length (ex_slots ex)"

text \<open>A handle the executor has issued, and one whose task is gone.\<close>

definition issued :: "tr_task_executor \<Rightarrow> tr_task_handle \<Rightarrow> bool" where
  "issued ex h \<longleftrightarrow> th_instance h = ex_instance ex \<and> unat (th_slot h) < length (ex_slots ex) \<and> th_generation h \<noteq> 0 \<and>
     th_generation h \<le> ts_generation (ex_slot ex (th_slot h))"

definition gone :: "tr_task_executor \<Rightarrow> tr_task_handle \<Rightarrow> bool" where
  "gone ex h \<longleftrightarrow> ts_state (ex_slot ex (th_slot h)) = TR_TASK_FREE \<or> th_generation h < ts_generation (ex_slot ex (th_slot h))"

definition log_ok :: "tr_task_executor \<Rightarrow> task_log \<Rightarrow> nat list \<Rightarrow> nat list \<Rightarrow> nat list \<Rightarrow> bool" where
  "log_ok ex l P C D \<longleftrightarrow>
     tl_accepted l = tl_started l @ map (handle_at ex) P \<and>
     tl_finished l = tl_delivered l @ map (handle_at ex) D @ map (handle_at ex) C \<and>
     distinct (tl_accepted l) \<and> distinct (tl_finished l) \<and>
     set (tl_started l) = set (tl_finished l) \<union> handle_at ex ` in_state ex TR_TASK_RUNNING \<and>
     set (tl_finished l) \<inter> handle_at ex ` in_state ex TR_TASK_RUNNING = {} \<and>
     (\<forall>h\<in>set (tl_accepted l). issued ex h) \<and> (\<forall>h\<in>set (tl_delivered l). gone ex h)"

fun working_on :: "worker_pc \<Rightarrow> nat list" where
  "working_on (Working i) = [unat i]"
| "working_on _ = []"

definition workers_ok :: "tr_task_executor \<Rightarrow> worker_pc list \<Rightarrow> nat list \<Rightarrow> bool" where
  "workers_ok ex ws P \<longleftrightarrow>
     distinct (concat (map working_on ws)) \<and> set (concat (map working_on ws)) = in_state ex TR_TASK_RUNNING \<and>
     unat (es_workers_alive (ex_stats ex)) = length (filter (\<lambda>pc. pc \<noteq> Ended) ws) \<and>
     (Ended \<in> set ws \<longrightarrow> executor_stopped (ex_state ex) \<and> P = []) \<and>
     unat (ex_started ex) = length ws \<and> ex_started ex \<le> ex_workers ex \<and> ex_workers ex \<noteq> 0 \<and>
     (ex_state ex = TR_EXECUTOR_NEW \<longrightarrow> ws = [] \<and> P = []) \<and> ex_state ex \<noteq> TR_EXECUTOR_STARTING \<and>
     (ex_state ex = TR_EXECUTOR_OPEN \<longrightarrow> ws \<noteq> []) \<and>
     (ex_state ex = TR_EXECUTOR_JOINED \<longrightarrow> filter (\<lambda>pc. pc \<noteq> Ended) ws = []) \<and> (ws = [] \<longrightarrow> P = [])"

lemmas exec_inv_defs = table_ok_def counts_ok_def log_ok_def workers_ok_def

definition exec_inv :: "tr_task_executor \<Rightarrow> worker_pc list \<Rightarrow> task_log \<Rightarrow> bool" where
  "exec_inv ex ws l \<longleftrightarrow> (\<exists>F P C D. table_ok ex F P C D \<and> counts_ok ex F P C D \<and> log_ok ex l P C D \<and> workers_ok ex ws P)"

text \<open>The invariant does not see the cancel flags, specs and results of the slots, nor the owner and the notification.\<close>

definition same_view :: "tr_task_executor \<Rightarrow> tr_task_executor \<Rightarrow> bool" where
  "same_view ex ex' \<longleftrightarrow> length (ex_slots ex') = length (ex_slots ex) \<and>
     (\<forall>i<length (ex_slots ex). ts_state (ex_slots ex' ! i) = ts_state (ex_slots ex ! i) \<and>
        ts_next (ex_slots ex' ! i) = ts_next (ex_slots ex ! i) \<and> ts_generation (ex_slots ex' ! i) = ts_generation (ex_slots ex ! i)) \<and>
     ex_free_head ex' = ex_free_head ex \<and> ex_pending_head ex' = ex_pending_head ex \<and> ex_pending_tail ex' = ex_pending_tail ex \<and>
     ex_complete_head ex' = ex_complete_head ex \<and> ex_complete_tail ex' = ex_complete_tail ex \<and> ex_instance ex' = ex_instance ex \<and>
     es_capacity (ex_stats ex') = es_capacity (ex_stats ex) \<and> es_queued (ex_stats ex') = es_queued (ex_stats ex) \<and>
     es_running (ex_stats ex') = es_running (ex_stats ex) \<and> es_completed (ex_stats ex') = es_completed (ex_stats ex) \<and>
     es_delivering (ex_stats ex') = es_delivering (ex_stats ex) \<and> es_outstanding (ex_stats ex') = es_outstanding (ex_stats ex)"

lemma same_view_in_state: "same_view ex ex' \<Longrightarrow> in_state ex' s = in_state ex s"
  by (auto simp: same_view_def in_state_def)

lemma same_view_handle: "same_view ex ex' \<Longrightarrow> i < length (ex_slots ex) \<Longrightarrow> length (ex_slots ex) < 2 ^ 32 - 1 \<Longrightarrow> handle_at ex' i = handle_at ex i"
  by (simp add: same_view_def handle_at_def task_handle_def ex_slot_def unat_of_nat_slot)

lemma same_view_ok:
  assumes "same_view ex ex'" and "table_ok ex F P C D" and "log_ok ex l P C D" and "counts_ok ex F P C D"
    and "D \<noteq> [] \<Longrightarrow> ex_dispatching ex'"
  shows "table_ok ex' F P C D" "log_ok ex' l P C D" "counts_ok ex' F P C D"
proof -
  note s = same_view_in_state [OF assms(1)]
  have v: "length (ex_slots ex') = length (ex_slots ex)"
    "\<And>i. i < length (ex_slots ex) \<Longrightarrow> ts_next (ex_slots ex' ! i) = ts_next (ex_slots ex ! i)"
    using assms(1) by (simp_all add: same_view_def)
  have sub: "set F \<subseteq> {..<length (ex_slots ex)}" "set P \<subseteq> {..<length (ex_slots ex)}" "set C \<subseteq> {..<length (ex_slots ex)}"
    "set D \<subseteq> {..<length (ex_slots ex)}" using assms(2) by (auto simp: table_ok_def in_state_def)
  have "chain (follow (ex_slots ex')) (link (ex_free_head ex)) F"
    using assms(2) sub(1) v(2) chain_cong [of F "follow (ex_slots ex')" "follow (ex_slots ex)"] by (auto simp: table_ok_def follow_def subset_iff)
  moreover have "queued (ex_slots ex') (ex_pending_head ex) (ex_pending_tail ex) P"
    by (rule queued_cong [of "ex_slots ex"]) (use assms(2) sub(2) v in \<open>auto simp: table_ok_def subset_iff\<close>)
  moreover have "queued (ex_slots ex') (ex_complete_head ex) (ex_complete_tail ex) C"
    by (rule queued_cong [of "ex_slots ex"]) (use assms(2) sub(3) v in \<open>auto simp: table_ok_def subset_iff\<close>)
  ultimately show "table_ok ex' F P C D" using assms(1,2,5) by (simp add: table_ok_def s same_view_def)
  have n: "length (ex_slots ex) < 2 ^ 32 - 1" using assms(2) by (simp add: table_ok_def)
  have h: "map (handle_at ex') xs = map (handle_at ex) xs" if "set xs \<subseteq> {..<length (ex_slots ex)}" for xs
    using that same_view_handle [OF assms(1) _ n] by (auto simp: subset_iff)
  have hr: "handle_at ex' ` in_state ex s = handle_at ex ` in_state ex s" for s
    using same_view_handle [OF assms(1) _ n] by (intro image_cong) (auto simp: in_state_def)
  have g: "issued ex h \<Longrightarrow> issued ex' h" "issued ex h \<Longrightarrow> gone ex h \<Longrightarrow> gone ex' h" for h
    using assms(1) by (auto simp: issued_def gone_def same_view_def ex_slot_def)
  have "set (tl_delivered l) \<subseteq> set (tl_accepted l)" using assms(3) by (auto simp: log_ok_def)
  moreover have "\<forall>h\<in>set (tl_accepted l). issued ex h" "\<forall>h\<in>set (tl_delivered l). gone ex h" using assms(3) unfolding log_ok_def by blast+
  ultimately have "\<forall>h\<in>set (tl_accepted l). issued ex' h" "\<forall>h\<in>set (tl_delivered l). gone ex' h" using g by (meson subsetD)+
  then show "log_ok ex' l P C D" using assms(3) unfolding log_ok_def s h [OF sub(2)] h [OF sub(3)] h [OF sub(4)] hr by blast
  show "counts_ok ex' F P C D" using assms(1,4) by (simp add: counts_ok_def s same_view_def)
qed

section \<open>Moving a slot from one state to another\<close>

definition moved :: "tr_task_executor \<Rightarrow> nat \<Rightarrow> tr_task_state \<Rightarrow> u64 \<Rightarrow> tr_task_executor \<Rightarrow> bool" where
  "moved ex i s g ex' \<longleftrightarrow> i < length (ex_slots ex) \<and> length (ex_slots ex') = length (ex_slots ex) \<and> length (ex_slots ex) < 2 ^ 32 - 1 \<and>
     (\<forall>j<length (ex_slots ex). ts_state (ex_slots ex' ! j) = (if j = i then s else ts_state (ex_slots ex ! j)) \<and>
        ts_generation (ex_slots ex' ! j) = (if j = i then g else ts_generation (ex_slots ex ! j))) \<and>
     ex_instance ex' = ex_instance ex \<and> es_capacity (ex_stats ex') = es_capacity (ex_stats ex)"

lemma moved_slot:
  assumes "moved ex i s g ex'" and "j < length (ex_slots ex)"
  shows "ts_state (ex_slots ex' ! j) = (if j = i then s else ts_state (ex_slots ex ! j))"
    "ts_generation (ex_slots ex' ! j) = (if j = i then g else ts_generation (ex_slots ex ! j))"
  using assms by (simp_all add: moved_def)

lemma moved_in_state:
  "moved ex i s g ex' \<Longrightarrow> in_state ex' t = (if t = s then insert i (in_state ex t) else in_state ex t - {i})"
proof -
  assume m: "moved ex i s g ex'"
  then have "length (ex_slots ex') = length (ex_slots ex)" "i < length (ex_slots ex)" by (simp_all add: moved_def)
  then show ?thesis using moved_slot(1) [OF m] by (auto simp: in_state_def split: if_splits)
qed

lemma handle_at_eq: "i < 2 ^ 32 - 1 \<Longrightarrow> handle_at ex i = \<lparr>th_instance = ex_instance ex, th_generation = ts_generation (ex_slots ex ! i), th_slot = of_nat i\<rparr>"
  by (simp add: handle_at_def task_handle_def ex_slot_def unat_of_nat_slot)

lemma handle_inj: "handle_at ex i = handle_at ex' j \<Longrightarrow> i < 2 ^ 32 - 1 \<Longrightarrow> j < 2 ^ 32 - 1 \<Longrightarrow> i = j"
  by (metis handle_at_eq tr_task_handle.select_convs(3) unat_of_nat_slot)

lemma moved_handle:
  assumes "moved ex i s g ex'" and "j < length (ex_slots ex)" and "j = i \<Longrightarrow> g = ts_generation (ex_slots ex ! i)"
  shows "handle_at ex' j = handle_at ex j"
  using assms by (auto simp: moved_def handle_at_eq)

lemma moved_issued:
  assumes "moved ex i s g ex'" and "ts_generation (ex_slots ex ! i) \<le> g" and "issued ex h"
  shows "issued ex' h" and "gone ex h \<Longrightarrow> (s = TR_TASK_FREE \<or> ts_generation (ex_slots ex ! i) < g \<or> ts_state (ex_slots ex ! i) \<noteq> TR_TASK_FREE) \<Longrightarrow> gone ex' h"
proof -
  have h: "unat (th_slot h) < length (ex_slots ex)" "th_generation h \<le> ts_generation (ex_slots ex ! unat (th_slot h))"
    "th_instance h = ex_instance ex" "th_generation h \<noteq> 0"
    using assms(3) by (simp_all add: issued_def ex_slot_def)
  note m = moved_slot [OF assms(1) h(1)]
  have fields: "ex_instance ex' = ex_instance ex" "length (ex_slots ex') = length (ex_slots ex)" using assms(1) by (simp_all add: moved_def)
  show "issued ex' h" using h m(2) assms(2) fields by (simp add: issued_def ex_slot_def split: if_splits)
  assume "gone ex h" and "s = TR_TASK_FREE \<or> ts_generation (ex_slots ex ! i) < g \<or> ts_state (ex_slots ex ! i) \<noteq> TR_TASK_FREE"
  then show "gone ex' h" using h m assms(2) unfolding gone_def ex_slot_def by (auto split: if_splits)
qed

text \<open>The lists and the log after each of the five moves.\<close>

lemma log_parts:
  assumes "log_ok ex l P C D"
  shows "tl_accepted l = tl_started l @ map (handle_at ex) P" "tl_finished l = tl_delivered l @ map (handle_at ex) D @ map (handle_at ex) C"
    "distinct (tl_accepted l)" "distinct (tl_finished l)"
    "set (tl_started l) = set (tl_finished l) \<union> handle_at ex ` in_state ex TR_TASK_RUNNING"
    "set (tl_finished l) \<inter> handle_at ex ` in_state ex TR_TASK_RUNNING = {}"
    "\<And>h. h \<in> set (tl_accepted l) \<Longrightarrow> issued ex h" "\<And>h. h \<in> set (tl_delivered l) \<Longrightarrow> gone ex h"
    "set (tl_delivered l) \<subseteq> set (tl_accepted l)" "set (tl_finished l) \<subseteq> set (tl_accepted l)"
proof -
  show acc: "tl_accepted l = tl_started l @ map (handle_at ex) P" and fin: "tl_finished l = tl_delivered l @ map (handle_at ex) D @ map (handle_at ex) C"
    and "distinct (tl_accepted l)" "distinct (tl_finished l)"
    and sta: "set (tl_started l) = set (tl_finished l) \<union> handle_at ex ` in_state ex TR_TASK_RUNNING"
    and "set (tl_finished l) \<inter> handle_at ex ` in_state ex TR_TASK_RUNNING = {}"
    and "\<And>h. h \<in> set (tl_accepted l) \<Longrightarrow> issued ex h" "\<And>h. h \<in> set (tl_delivered l) \<Longrightarrow> gone ex h"
    using assms unfolding log_ok_def by blast+
  show f: "set (tl_finished l) \<subseteq> set (tl_accepted l)" unfolding acc using sta by auto
  have "set (tl_delivered l) \<subseteq> set (tl_finished l)" unfolding fin by simp
  then show "set (tl_delivered l) \<subseteq> set (tl_accepted l)" using f by blast
qed

lemma map_handle_moved:
  assumes "moved ex i s g ex'" and "g = ts_generation (ex_slots ex ! i) \<or> i \<notin> set xs" and "set xs \<subseteq> {..<length (ex_slots ex)}"
  shows "map (handle_at ex') xs = map (handle_at ex) xs"
  using assms moved_handle [OF assms(1)] by (auto simp: subset_iff)

lemma in_state_bound: "in_state ex s \<subseteq> {..<length (ex_slots ex)}" by (auto simp: in_state_def)

lemma image_handle_moved:
  assumes "moved ex i s g ex'" and "g = ts_generation (ex_slots ex ! i) \<or> i \<notin> A" and "A \<subseteq> {..<length (ex_slots ex)}"
  shows "handle_at ex' ` A = handle_at ex ` A"
  using assms moved_handle [OF assms(1)] by (intro image_cong) auto

lemma log_moved:
  assumes "log_ok ex l P C D" and "moved ex i s g ex'" and "g = ts_generation (ex_slots ex ! i)" and "ts_state (ex_slots ex ! i) \<noteq> TR_TASK_FREE"
  shows "\<And>h. h \<in> set (tl_accepted l) \<Longrightarrow> issued ex' h" "\<And>h. h \<in> set (tl_delivered l) \<Longrightarrow> gone ex' h"
  using log_parts(7,8,9) [OF assms(1)] moved_issued [OF assms(2)] assms(3,4) by (auto simp: subset_iff)

lemma log_okI:
  assumes "tl_accepted l = tl_started l @ map (handle_at ex) P" "tl_finished l = tl_delivered l @ map (handle_at ex) D @ map (handle_at ex) C"
    "distinct (tl_accepted l)" "distinct (tl_finished l)"
    "set (tl_started l) = set (tl_finished l) \<union> R" "set (tl_finished l) \<inter> R = {}" "R = handle_at ex ` in_state ex TR_TASK_RUNNING"
    "\<And>h. h \<in> set (tl_accepted l) \<Longrightarrow> issued ex h" "\<And>h. h \<in> set (tl_delivered l) \<Longrightarrow> gone ex h"
  shows "log_ok ex l P C D"
  using assms unfolding log_ok_def by blast

lemma log_take:
  assumes "log_ok ex l (i # P) C D" and "moved ex i TR_TASK_RUNNING (ts_generation (ex_slots ex ! i)) ex'"
    and "set (i # P) = in_state ex TR_TASK_QUEUED" and "set C \<subseteq> {..<length (ex_slots ex)}" and "set D \<subseteq> {..<length (ex_slots ex)}"
  shows "log_ok ex' (l\<lparr>tl_started := tl_started l @ [handle_at ex i]\<rparr>) P C D"
proof -
  note p = log_parts [OF assms(1)]
  have "i \<in> in_state ex TR_TASK_QUEUED" "set P \<subseteq> in_state ex TR_TASK_QUEUED" unfolding assms(3) [symmetric] by auto
  then have i: "ts_state (ex_slots ex ! i) \<noteq> TR_TASK_FREE" "set P \<subseteq> {..<length (ex_slots ex)}" "i < length (ex_slots ex)"
    by (auto simp: in_state_def)
  note m = map_handle_moved [OF assms(2)] image_handle_moved [OF assms(2)] moved_in_state [OF assms(2)]
  have R: "handle_at ex' ` in_state ex' TR_TASK_RUNNING = insert (handle_at ex i) (handle_at ex ` in_state ex TR_TASK_RUNNING)"
    using m(3) [of TR_TASK_RUNNING] m(2) [of "insert i (in_state ex TR_TASK_RUNNING)"] in_state_bound i(3) by simp
  have "handle_at ex i \<notin> set (tl_started l)" using p(1,3) by auto
  then have new: "handle_at ex i \<notin> set (tl_finished l)" unfolding p(5) by blast
  show ?thesis
  proof (rule log_okI [OF _ _ _ _ _ _ R [symmetric]])
    show "set (tl_started (l\<lparr>tl_started := tl_started l @ [handle_at ex i]\<rparr>)) =
        set (tl_finished (l\<lparr>tl_started := tl_started l @ [handle_at ex i]\<rparr>)) \<union> insert (handle_at ex i) (handle_at ex ` in_state ex TR_TASK_RUNNING)"
      using p(5) by simp
  qed (use p(1-4,6) new log_moved [OF assms(1,2) refl i(1)] m(1) [of P] m(1) [of C] m(1) [of D] i(2) assms(4,5) in simp_all)
qed

lemma log_commit:
  assumes "log_ok ex l P C D" and "moved ex i TR_TASK_COMPLETED (ts_generation (ex_slots ex ! i)) ex'"
    and "i \<in> in_state ex TR_TASK_RUNNING" and "set P \<subseteq> {..<length (ex_slots ex)}"
    and "set C \<subseteq> {..<length (ex_slots ex)}" and "set D \<subseteq> {..<length (ex_slots ex)}"
  shows "log_ok ex' (l\<lparr>tl_finished := tl_finished l @ [handle_at ex i]\<rparr>) P (C @ [i]) D"
proof -
  note p = log_parts [OF assms(1)]
  have i: "ts_state (ex_slots ex ! i) \<noteq> TR_TASK_FREE" "i < length (ex_slots ex)" using assms(3) by (auto simp: in_state_def)
  have n: "length (ex_slots ex) < 2 ^ 32 - 1" using assms(2) by (simp add: moved_def)
  note m = map_handle_moved [OF assms(2)] image_handle_moved [OF assms(2)] moved_in_state [OF assms(2)]
  have "handle_at ex' ` in_state ex' TR_TASK_RUNNING = handle_at ex ` (in_state ex TR_TASK_RUNNING - {i})"
    using m(3) [of TR_TASK_RUNNING] m(2) [of "in_state ex TR_TASK_RUNNING - {i}"] in_state_bound by auto
  moreover have "inj_on (handle_at ex) (in_state ex TR_TASK_RUNNING)"
    using n by (intro inj_onI handle_inj) (auto simp: in_state_def)
  ultimately have R: "handle_at ex' ` in_state ex' TR_TASK_RUNNING = handle_at ex ` in_state ex TR_TASK_RUNNING - {handle_at ex i}"
    using assms(3) by (simp add: inj_on_image_set_diff [of _ "in_state ex TR_TASK_RUNNING"])
  have new: "handle_at ex i \<notin> set (tl_finished l)" "handle_at ex i \<in> set (tl_started l)" using p(5,6) assms(3) by auto
  show ?thesis
  proof (rule log_okI [OF _ _ _ _ _ _ R [symmetric]])
    show "set (tl_started (l\<lparr>tl_finished := tl_finished l @ [handle_at ex i]\<rparr>)) =
        set (tl_finished (l\<lparr>tl_finished := tl_finished l @ [handle_at ex i]\<rparr>)) \<union> (handle_at ex ` in_state ex TR_TASK_RUNNING - {handle_at ex i})"
      using p(5) new(2) by auto
    show "set (tl_finished (l\<lparr>tl_finished := tl_finished l @ [handle_at ex i]\<rparr>)) \<inter> (handle_at ex ` in_state ex TR_TASK_RUNNING - {handle_at ex i}) = {}"
      using p(6) by auto
  qed (use p(1-4) new log_moved [OF assms(1,2) refl i(1)] m(1) [of P] m(1) [of "C @ [i]"] m(1) [of D] i(2) assms(4-6) in simp_all)
qed

lemma log_dtake:
  assumes "log_ok ex l P (i # C) []" and "moved ex i TR_TASK_DELIVERING (ts_generation (ex_slots ex ! i)) ex'"
    and "set (i # C) = in_state ex TR_TASK_COMPLETED" and "set P \<subseteq> {..<length (ex_slots ex)}"
  shows "log_ok ex' l P C [i]"
proof -
  note p = log_parts [OF assms(1)]
  have "i \<in> in_state ex TR_TASK_COMPLETED" "set C \<subseteq> in_state ex TR_TASK_COMPLETED" unfolding assms(3) [symmetric] by auto
  then have i: "ts_state (ex_slots ex ! i) \<noteq> TR_TASK_FREE" "set (i # C) \<subseteq> {..<length (ex_slots ex)}" "i \<notin> in_state ex TR_TASK_RUNNING"
    by (auto simp: in_state_def)
  note m = map_handle_moved [OF assms(2)] image_handle_moved [OF assms(2)] moved_in_state [OF assms(2)]
  have R: "handle_at ex' ` in_state ex' TR_TASK_RUNNING = handle_at ex ` in_state ex TR_TASK_RUNNING"
    using m(3) [of TR_TASK_RUNNING] m(2) [of "in_state ex TR_TASK_RUNNING"] in_state_bound i(3) by simp
  show ?thesis
    by (rule log_okI [OF _ _ _ _ p(5,6) R [symmetric]])
      (use p(1-4) log_moved [OF assms(1,2) refl i(1)] m(1) [of P] m(1) [of "i # C"] i(2) assms(4) in simp_all)
qed

lemma log_give_back:
  assumes "log_ok ex l P C [i]" and "moved ex i TR_TASK_FREE (ts_generation (ex_slots ex ! i)) ex'"
    and "i \<in> in_state ex TR_TASK_DELIVERING" and "set P \<subseteq> {..<length (ex_slots ex)}" and "set C \<subseteq> {..<length (ex_slots ex)}"
  shows "log_ok ex' (l\<lparr>tl_delivered := tl_delivered l @ [handle_at ex i]\<rparr>) P C []"
proof -
  note p = log_parts [OF assms(1)]
  have i: "ts_state (ex_slots ex ! i) \<noteq> TR_TASK_FREE" "i < length (ex_slots ex)" "i \<notin> in_state ex TR_TASK_RUNNING"
    using assms(3) by (auto simp: in_state_def)
  note m = map_handle_moved [OF assms(2)] image_handle_moved [OF assms(2)] moved_in_state [OF assms(2)]
  have R: "handle_at ex' ` in_state ex' TR_TASK_RUNNING = handle_at ex ` in_state ex TR_TASK_RUNNING"
    using m(3) [of TR_TASK_RUNNING] m(2) [of "in_state ex TR_TASK_RUNNING"] in_state_bound i(3) by simp
  have "length (ex_slots ex) < 2 ^ 32 - 1" using assms(2) by (simp add: moved_def)
  then have "gone ex' (handle_at ex i)" using assms(2) i(2) by (simp add: gone_def handle_at_eq ex_slot_def unat_of_nat_slot moved_def)
  then show ?thesis
    by (intro log_okI [OF _ _ _ _ _ _ R [symmetric]])
      (use p(1-6) log_moved [OF assms(1,2) refl i(1)] m(1) [of P] m(1) [of C] i(2) assms(4,5) in \<open>auto simp: p(5) simp del: image_Un Un_iff\<close>)
qed

lemma log_submit:
  assumes "log_ok ex l P C D" and "moved ex i TR_TASK_QUEUED (ts_generation (ex_slots ex ! i) + 1) ex'"
    and "ts_generation (ex_slots ex ! i) \<noteq> UINT64_MAX" and "i \<in> in_state ex TR_TASK_FREE"
    and "set P = in_state ex TR_TASK_QUEUED" and "set C = in_state ex TR_TASK_COMPLETED" and "set D = in_state ex TR_TASK_DELIVERING"
  shows "log_ok ex' (l\<lparr>tl_accepted := tl_accepted l @ [handle_at ex' i]\<rparr>) (P @ [i]) C D"
proof -
  let ?g = "ts_generation (ex_slots ex ! i)"
  note p = log_parts [OF assms(1)]
  have "unat ?g \<noteq> 2 ^ 64 - 1" using assms(3) by (simp add: word_unat_eq_iff)
  then have "unat (?g + 1) = unat ?g + 1" using unat_lt_2p [of ?g] by (intro unat_Suc_less [of _ "2 ^ 64 - 1"]) simp_all
  then have g: "?g < ?g + 1" "?g + 1 \<noteq> 0" by (simp_all add: word_less_nat_alt word_neq_0_unat)
  have i: "i < length (ex_slots ex)" and out: "i \<notin> set P" "i \<notin> set C" "i \<notin> set D" "i \<notin> in_state ex TR_TASK_RUNNING"
    using assms(4) unfolding assms(5-7) by (auto simp: in_state_def)
  have sub: "set P \<subseteq> {..<length (ex_slots ex)}" "set C \<subseteq> {..<length (ex_slots ex)}" "set D \<subseteq> {..<length (ex_slots ex)}"
    using assms(5-7) in_state_bound by auto
  have n: "length (ex_slots ex) < 2 ^ 32 - 1" using assms(2) by (simp add: moved_def)
  note m = map_handle_moved [OF assms(2)] image_handle_moved [OF assms(2)] moved_in_state [OF assms(2)]
  have R: "handle_at ex' ` in_state ex' TR_TASK_RUNNING = handle_at ex ` in_state ex TR_TASK_RUNNING"
    using m(3) [of TR_TASK_RUNNING] m(2) [of "in_state ex TR_TASK_RUNNING"] in_state_bound out(4) by simp
  have h: "handle_at ex' i = \<lparr>th_instance = ex_instance ex, th_generation = ?g + 1, th_slot = of_nat i\<rparr>"
    using assms(2) i n by (simp add: handle_at_eq moved_def)
  have fresh: "handle_at ex' i \<notin> set (tl_accepted l)"
  proof
    assume "handle_at ex' i \<in> set (tl_accepted l)"
    then have "issued ex (handle_at ex' i)" by (rule p(7))
    then have "?g + 1 \<le> ?g" using i n by (simp add: h issued_def ex_slot_def unat_of_nat_slot)
    then show False using g(1) by (metis leD)
  qed
  have iss: "issued ex' x" if "x \<in> set (tl_accepted l)" for x using moved_issued(1) [OF assms(2) _ p(7) [OF that]] g(1) by simp
  have gon: "gone ex' x" if "x \<in> set (tl_delivered l)" for x
    using moved_issued(2) [OF assms(2) _ p(7) p(8) [OF that]] g(1) that p(9) by auto
  have "issued ex' (handle_at ex' i)"
    unfolding h using assms(2) i n g(2) by (simp add: issued_def ex_slot_def unat_of_nat_slot moved_def)
  then show ?thesis
    by (intro log_okI [OF _ _ _ _ _ _ R [symmetric]])
      (use p(1-6) fresh iss gon m(1) [of P] m(1) [of C] m(1) [of D] out sub in \<open>auto simp: p(5)\<close>)
qed

end
