(* ===== verification/Tr_Task_Inv.thy ===== *)
theory Tr_Task_Inv
  imports Tr_Task_Run
begin

text \<open>
  Every step of a run of the task executor keeps the invariant of \<open>Tr_Task_Run\<close>, and the properties that follow.
\<close>

section \<open>The table\<close>

lemma unat_inc: "unat (x :: u64) < 2 ^ 32 \<Longrightarrow> unat (x + 1) = unat x + 1"
  by (rule unat_Suc_less [of x "2 ^ 32"]) simp_all

lemma unat_dec: "0 < unat (x :: u64) \<Longrightarrow> unat (x - 1) = unat x - 1"
  by (subst unat_sub_le) (simp_all add: word_le_nat_alt)

lemma table_parts:
  assumes "table_ok ex F P C D"
  shows "length (ex_slots ex) = unat (es_capacity (ex_stats ex))" "length (ex_slots ex) < 2 ^ 32 - 1"
    "chain (follow (ex_slots ex)) (link (ex_free_head ex)) F" "distinct F" "set F = in_state ex TR_TASK_FREE"
    "queued (ex_slots ex) (ex_pending_head ex) (ex_pending_tail ex) P" "set P = in_state ex TR_TASK_QUEUED"
    "queued (ex_slots ex) (ex_complete_head ex) (ex_complete_tail ex) C" "set C = in_state ex TR_TASK_COMPLETED"
    "distinct D" "set D = in_state ex TR_TASK_DELIVERING" "length D \<le> 1" "D \<noteq> [] \<Longrightarrow> ex_dispatching ex"
    "set F \<subseteq> {..<length (ex_slots ex)}" "set P \<subseteq> {..<length (ex_slots ex)}" "set C \<subseteq> {..<length (ex_slots ex)}"
    "set D \<subseteq> {..<length (ex_slots ex)}"
  using assms in_state_bound [of ex] unfolding table_ok_def by blast+

lemma card_running:
  assumes "table_ok ex F P C D" and "counts_ok ex F P C D"
  shows "length F + length P + length C + length D + card (in_state ex TR_TASK_RUNNING) = length (ex_slots ex)"
proof -
  note t = table_parts [OF assms(1)]
  have d: "distinct P" "distinct C" using t(6,8) by (simp_all add: queued_def)
  let ?s = "in_state ex"
  have "?s TR_TASK_FREE \<union> (?s TR_TASK_QUEUED \<union> (?s TR_TASK_COMPLETED \<union> (?s TR_TASK_DELIVERING \<union> ?s TR_TASK_RUNNING))) =
      {..<length (ex_slots ex)}" (is "?U = _")
  proof (intro equalityI subsetI)
    fix x assume "x \<in> {..<length (ex_slots ex)}"
    then show "x \<in> ?U" by (cases "ts_state (ex_slots ex ! x)") (simp_all add: in_state_def)
  qed (auto simp: in_state_def)
  then have "card ?U = length (ex_slots ex)" by simp
  moreover have dis: "s \<noteq> s' \<Longrightarrow> ?s s \<inter> ?s s' = {}" for s s' by (auto simp: in_state_def)
  have "card ?U = card (?s TR_TASK_FREE) + (card (?s TR_TASK_QUEUED) + (card (?s TR_TASK_COMPLETED) +
      (card (?s TR_TASK_DELIVERING) + card (?s TR_TASK_RUNNING))))"
    by (simp add: card_Un_disjoint dis Int_Un_distrib)
  ultimately show ?thesis
    using distinct_card [OF t(4)] distinct_card [OF d(1)] distinct_card [OF d(2)] distinct_card [OF t(10)] t(5,7,9,11) by simp
qed

text \<open>The fields no move of a slot touches.\<close>

definition frame :: "tr_task_executor \<Rightarrow> tr_task_executor \<Rightarrow> bool" where
  "frame ex ex' \<longleftrightarrow> ex_state ex' = ex_state ex \<and> ex_dispatching ex' = ex_dispatching ex \<and> ex_started ex' = ex_started ex \<and>
     ex_workers ex' = ex_workers ex \<and> es_workers_alive (ex_stats ex') = es_workers_alive (ex_stats ex)"

lemma set_slot_nth:
  "i < length (ex_slots ex) \<Longrightarrow> length (ex_slots ex) < 2 ^ 32 - 1 \<Longrightarrow>
     ex_slots (ex_set_slot (of_nat i) s ex) ! j = (if j = i then s else ex_slots ex ! j)"
  by (simp add: ex_set_slot_def unat_of_nat_slot nth_list_update)

lemma follow_chain:
  "chain (follow slots) h is \<Longrightarrow> (\<And>j. j \<in> set is \<Longrightarrow> ts_next (slots' ! j) = ts_next (slots ! j)) \<Longrightarrow> chain (follow slots') h is"
  using chain_cong [of "is" "follow slots'" "follow slots"] by (simp add: follow_def)

lemma take_step:
  assumes "table_ok ex F P C D" and "counts_ok ex F P C D" and "ex_pending_head ex \<noteq> TR_TASK_END" and "worker_take ex = (index, ex')"
  obtains i P' where "P = i # P'" "index = of_nat i" "unat index = i" "moved ex i TR_TASK_RUNNING (ts_generation (ex_slots ex ! i)) ex'"
    "table_ok ex' F P' C D" "counts_ok ex' F P' C D" "frame ex ex'"
proof -
  note t = table_parts [OF assms(1)]
  obtain index' head tail where d: "tr_task_dequeue (ex_slots ex) (ex_pending_head ex) (ex_pending_tail ex) = (index', head, tail)"
    by (metis prod_cases3)
  obtain i P' where q: "P = i # P'" "index' = of_nat i" "unat index' = i" "i < length (ex_slots ex)" "queued (ex_slots ex) head tail P'"
    by (rule task_dequeue_effect [OF t(6) assms(3) d])
  have "index = index'" and ex': "ex' = ex\<lparr>ex_pending_head := head, ex_pending_tail := tail,
      ex_slots := (ex_slots ex)[i := (ex_slots ex ! i)\<lparr>ts_state := TR_TASK_RUNNING\<rparr>],
      ex_stats := (ex_stats ex)\<lparr>es_queued := es_queued (ex_stats ex) - 1, es_running := es_running (ex_stats ex) + 1\<rparr>\<rparr>"
    using assms(4) d q(3) by (auto simp: worker_take_def Let_def ex_set_slot_def ex_slot_def)
  then have res: "index = of_nat i" "unat index = i" using q(2,3) by simp_all
  have nx: "ts_next (ex_slots ex' ! j) = ts_next (ex_slots ex ! j)" for j using q(4) by (simp add: ex' nth_list_update)
  have m: "moved ex i TR_TASK_RUNNING (ts_generation (ex_slots ex ! i)) ex'" using q(4) t(2) by (simp add: moved_def ex' nth_list_update)
  note s = moved_in_state [OF m]
  have i: "i \<in> in_state ex TR_TASK_QUEUED" "i \<notin> set P'" "\<And>s. s \<noteq> TR_TASK_QUEUED \<Longrightarrow> i \<notin> in_state ex s"
    using t(6) unfolding t(7) [symmetric] by (auto simp: queued_def q(1)) (use t(7) q(1) in \<open>auto simp: in_state_def\<close>)
  have "chain (follow (ex_slots ex')) (link (ex_free_head ex)) F"
    using t(3) nx by (rule follow_chain)
  moreover have "queued (ex_slots ex') head tail P'" "queued (ex_slots ex') (ex_complete_head ex) (ex_complete_tail ex) C"
    using q(5) t(8) nx by (auto intro: queued_cong simp: ex')
  moreover have "set P' = in_state ex TR_TASK_QUEUED - {i}" using t(7) i(2) q(1) by auto
  ultimately have tab: "table_ok ex' F P' C D"
    using t i(3) unfolding table_ok_def s by (simp add: ex')
  have "card (in_state ex TR_TASK_RUNNING) < 2 ^ 32" using card_running [OF assms(1,2)] t(2) by simp
  then have "counts_ok ex' F P' C D"
    using assms(2) i(3) q(1) unfolding counts_ok_def s by (simp add: ex' unat_inc unat_dec)
  then show thesis using that [OF q(1) res m tab] by (simp add: frame_def ex')
qed

lemma dtake_step:
  assumes "table_ok ex F P C []" and "counts_ok ex F P C []" and "ex_complete_head ex \<noteq> TR_TASK_END" and "ex_dispatching ex"
    and "dispatch_take ex = (index, h, ex')"
  obtains i C' where "C = i # C'" "index = of_nat i" "unat index = i" "moved ex i TR_TASK_DELIVERING (ts_generation (ex_slots ex ! i)) ex'"
    "table_ok ex' F P C' [i]" "counts_ok ex' F P C' [i]" "frame ex ex'" "h = handle_at ex i"
proof -
  note t = table_parts [OF assms(1)]
  obtain index' head tail where d: "tr_task_dequeue (ex_slots ex) (ex_complete_head ex) (ex_complete_tail ex) = (index', head, tail)"
    by (metis prod_cases3)
  obtain i C' where q: "C = i # C'" "index' = of_nat i" "unat index' = i" "i < length (ex_slots ex)" "queued (ex_slots ex) head tail C'"
    by (rule task_dequeue_effect [OF t(8) assms(3) d])
  have "index = index'" and ex': "ex' = ex\<lparr>ex_complete_head := head, ex_complete_tail := tail,
      ex_slots := (ex_slots ex)[i := (ex_slots ex ! i)\<lparr>ts_state := TR_TASK_DELIVERING\<rparr>],
      ex_stats := (ex_stats ex)\<lparr>es_completed := es_completed (ex_stats ex) - 1, es_delivering := es_delivering (ex_stats ex) + 1\<rparr>\<rparr>"
    and hh: "h = task_handle ex index'"
    using assms(5) d q(3) by (auto simp: dispatch_take_def Let_def ex_set_slot_def ex_slot_def task_handle_def)
  then have res: "index = of_nat i" "unat index = i" "h = handle_at ex i" using q(2,3) by (simp_all add: handle_at_def)
  have nx: "ts_next (ex_slots ex' ! j) = ts_next (ex_slots ex ! j)" for j using q(4) by (simp add: ex' nth_list_update)
  have m: "moved ex i TR_TASK_DELIVERING (ts_generation (ex_slots ex ! i)) ex'" using q(4) t(2) by (simp add: moved_def ex' nth_list_update)
  note s = moved_in_state [OF m]
  have i: "i \<in> in_state ex TR_TASK_COMPLETED" "i \<notin> set C'" "\<And>s. s \<noteq> TR_TASK_COMPLETED \<Longrightarrow> i \<notin> in_state ex s"
    using t(8) unfolding t(9) [symmetric] by (auto simp: queued_def q(1)) (use t(9) q(1) in \<open>auto simp: in_state_def\<close>)
  have "chain (follow (ex_slots ex')) (link (ex_free_head ex)) F"
    using t(3) nx by (rule follow_chain)
  moreover have "queued (ex_slots ex') head tail C'" "queued (ex_slots ex') (ex_pending_head ex) (ex_pending_tail ex) P"
    using q(5) t(6) nx by (auto intro: queued_cong simp: ex')
  moreover have "set C' = in_state ex TR_TASK_COMPLETED - {i}" using t(9) i(2) q(1) by auto
  ultimately have tab: "table_ok ex' F P C' [i]"
    using t i(3) assms(4) unfolding table_ok_def s by (simp add: ex')
  have "counts_ok ex' F P C' [i]"
    using assms(2) i(3) q(1) unfolding counts_ok_def s by (simp add: ex' unat_inc unat_dec)
  then show thesis using that [OF q(1) res(1,2) m tab] res(3) by (simp add: frame_def ex')
qed

lemma commit_step:
  assumes "table_ok ex F P C D" and "counts_ok ex F P C D" and "i \<in> in_state ex TR_TASK_RUNNING" and "ex' = worker_commit (of_nat i) status ex"
  shows "moved ex i TR_TASK_COMPLETED (ts_generation (ex_slots ex ! i)) ex'" "table_ok ex' F P (C @ [i]) D" "counts_ok ex' F P (C @ [i]) D"
    "frame ex ex'"
proof -
  note t = table_parts [OF assms(1)]
  have i: "i < length (ex_slots ex)" "\<And>s. s \<noteq> TR_TASK_RUNNING \<Longrightarrow> i \<notin> in_state ex s" using assms(3) by (auto simp: in_state_def)
  then have ui: "unat (of_nat i :: u32) = i" using t(2) by (intro unat_of_nat_slot) simp
  define slots1 where "slots1 = (ex_slots ex)[i := (ex_slots ex ! i)\<lparr>ts_result :=
    \<lparr>tr_work_status = status, tr_cancelled = tr_task_cancel_requested (Some (ts_cancel (ex_slots ex ! i)))\<rparr>, ts_state := TR_TASK_COMPLETED\<rparr>]"
  have s1: "length slots1 = length (ex_slots ex)" "\<And>j. ts_next (slots1 ! j) = ts_next (ex_slots ex ! j)"
    "\<And>j. ts_state (slots1 ! j) = (if j = i then TR_TASK_COMPLETED else ts_state (ex_slots ex ! j))"
    "\<And>j. ts_generation (slots1 ! j) = ts_generation (ex_slots ex ! j)"
    using i(1) by (simp_all add: slots1_def nth_list_update)
  obtain slots' head tail where e: "tr_task_enqueue slots1 (ex_complete_head ex) (ex_complete_tail ex) (of_nat i) = (slots', head, tail)"
    by (metis prod_cases3)
  have ex': "ex' = ex\<lparr>ex_slots := slots', ex_complete_head := head, ex_complete_tail := tail,
      ex_stats := (ex_stats ex)\<lparr>es_running := es_running (ex_stats ex) - 1, es_completed := es_completed (ex_stats ex) + 1\<rparr>\<rparr>"
    using e by (simp add: assms(4) worker_commit_def Let_def ex_set_slot_def ex_slot_def ui slots1_def)
  have iC: "i \<notin> set C" using i(2) t(9) by simp
  have qC: "queued slots1 (ex_complete_head ex) (ex_complete_tail ex) C" by (rule queued_cong [OF t(8)]) (simp_all add: s1)
  note ee = task_enqueue_effect [OF qC _ _ iC e, unfolded s1(1), OF i(1) t(2)]
  have st: "ts_state (slots' ! j) = ts_state (slots1 ! j)" "ts_generation (slots' ! j) = ts_generation (slots1 ! j)" for j
    using ee(3) [of j] by auto
  show m: "moved ex i TR_TASK_COMPLETED (ts_generation (ex_slots ex ! i)) ex'"
    using i(1) t(2) ee(2) st s1 by (simp add: moved_def ex')
  note s = moved_in_state [OF m]
  have out: "set F \<inter> insert i (set C) = {}" "set P \<inter> insert i (set C) = {}" using i(2) by (auto simp: t(5,7,9) in_state_def)
  have nx: "ts_next (slots' ! j) = ts_next (ex_slots ex ! j)" if "j \<notin> insert i (set C)" for j using ee(4) [OF that] s1(2) by simp
  have "chain (follow slots') (link (ex_free_head ex)) F"
    by (rule follow_chain [OF t(3)]) (use nx out(1) in blast)
  moreover have "queued slots' (ex_pending_head ex) (ex_pending_tail ex) P"
    by (rule queued_cong [OF t(6) ee(2)]) (use nx out(2) in blast)
  ultimately show "table_ok ex' F P (C @ [i]) D"
    using t ee(1,2) i(2) unfolding table_ok_def s by (simp add: ex')
  have "0 < card (in_state ex TR_TASK_RUNNING)" using assms(3) card_gt_0_iff by fastforce
  moreover have "length C < 2 ^ 32" using card_running [OF assms(1,2)] t(2) by simp
  ultimately show "counts_ok ex' F P (C @ [i]) D"
    using assms(2,3) i(2) ee(2) unfolding counts_ok_def s by (simp add: ex' unat_inc unat_dec)
  show "frame ex ex'" by (simp add: frame_def ex')
qed

lemma give_back_step:
  assumes "table_ok ex F P C [i]" and "counts_ok ex F P C [i]" and "ex' = dispatch_give_back (of_nat i) ex"
  shows "moved ex i TR_TASK_FREE (ts_generation (ex_slots ex ! i)) ex'" "table_ok ex' (i # F) P C []" "counts_ok ex' (i # F) P C []"
    "frame ex ex'"
proof -
  note t = table_parts [OF assms(1)]
  have i: "i \<in> in_state ex TR_TASK_DELIVERING" using t(11) by auto
  then have i: "i < length (ex_slots ex)" "\<And>s. s \<noteq> TR_TASK_DELIVERING \<Longrightarrow> i \<notin> in_state ex s" by (auto simp: in_state_def)
  then have ui: "unat (of_nat i :: u32) = i" using t(2) by (intro unat_of_nat_slot) simp
  have ex': "ex' = ex\<lparr>ex_slots := (ex_slots ex)[i := (ex_slots ex ! i)\<lparr>ts_spec := task_spec_zero, ts_state := TR_TASK_FREE,
      ts_next := ex_free_head ex\<rparr>], ex_free_head := of_nat i,
      ex_stats := (ex_stats ex)\<lparr>es_delivering := es_delivering (ex_stats ex) - 1, es_outstanding := es_outstanding (ex_stats ex) - 1\<rparr>\<rparr>"
    by (simp add: assms(3) dispatch_give_back_def Let_def ex_set_slot_def ex_slot_def ui)
  have nx: "ts_next (ex_slots ex' ! j) = (if j = i then ex_free_head ex else ts_next (ex_slots ex ! j))" for j
    using i(1) by (simp add: ex' nth_list_update)
  show m: "moved ex i TR_TASK_FREE (ts_generation (ex_slots ex ! i)) ex'" using i(1) t(2) by (simp add: moved_def ex' nth_list_update)
  note s = moved_in_state [OF m]
  have out: "i \<notin> set F" "i \<notin> set P" "i \<notin> set C" using i(2) by (simp_all add: t(5,7,9))
  have D: "in_state ex TR_TASK_DELIVERING = {i}" using t(11) by simp
  have "chain (follow (ex_slots ex')) (link (ex_free_head ex)) F"
    by (rule follow_chain [OF t(3)]) (use nx out(1) in auto)
  then have "chain (follow (ex_slots ex')) (link (ex_free_head ex')) (i # F)"
    using nx [of i] i(1) t(2) by (simp add: follow_def ex')
  moreover have "queued (ex_slots ex') (ex_pending_head ex) (ex_pending_tail ex) P"
    by (rule queued_cong [OF t(6)]) (use nx out(2) in \<open>auto simp: ex'\<close>)
  moreover have "queued (ex_slots ex') (ex_complete_head ex) (ex_complete_tail ex) C"
    by (rule queued_cong [OF t(8)]) (use nx out(3) in \<open>auto simp: ex'\<close>)
  ultimately show "table_ok ex' (i # F) P C []"
    using t out i(2) D unfolding table_ok_def s by (simp add: ex')
  have "length F < length (ex_slots ex)" using card_running [OF assms(1,2)] by simp
  then have "0 < unat (es_outstanding (ex_stats ex))" using assms(2) unfolding counts_ok_def by linarith
  then show "counts_ok ex' (i # F) P C []"
    using assms(2) i(2) \<open>length F < length (ex_slots ex)\<close> unfolding counts_ok_def s by (simp add: ex' unat_dec)
  show "frame ex ex'" by (simp add: frame_def ex')
qed

lemma submit_step:
  assumes "table_ok ex F P C D" and "counts_ok ex F P C D"
    and "tr_task_executor_submit (Some ex) (Some spec) (Some h0) = (TR_OK, Some ex', Some h)"
  obtains i F' where "F = i # F'" "moved ex i TR_TASK_QUEUED (ts_generation (ex_slots ex ! i) + 1) ex'"
    "ts_generation (ex_slots ex ! i) \<noteq> UINT64_MAX" "table_ok ex' F' (P @ [i]) C D" "counts_ok ex' F' (P @ [i]) C D" "frame ex ex'"
    "h = handle_at ex' i" "ex_state ex = TR_EXECUTOR_OPEN"
proof -
  note t = table_parts [OF assms(1)]
  have ok: "ex_state ex = TR_EXECUTOR_OPEN" "ex_free_head ex \<noteq> TR_TASK_END"
    using assms(3) by (auto simp: tr_task_executor_submit_def Let_def split: if_splits)
  then obtain i where li: "link (ex_free_head ex) = Some i" by (auto simp: link_def)
  then obtain F' where F: "F = i # F'" "chain (follow (ex_slots ex)) (follow (ex_slots ex) i) F'" using t(3) by (cases F) auto
  note l = link_Some [OF li]
  have "i \<in> in_state ex TR_TASK_FREE" using t(5) F(1) by auto
  then have i: "i < length (ex_slots ex)" "\<And>s. s \<noteq> TR_TASK_FREE \<Longrightarrow> i \<notin> in_state ex s" by (auto simp: in_state_def)
  let ?g = "ts_generation (ex_slots ex ! i)"
  define slots1 where "slots1 = (ex_slots ex)[i := (ex_slots ex ! i)\<lparr>ts_generation := ?g + 1, ts_spec := spec, ts_cancel := False,
    ts_state := TR_TASK_QUEUED\<rparr>]"
  have s1: "length slots1 = length (ex_slots ex)" "\<And>j. ts_next (slots1 ! j) = ts_next (ex_slots ex ! j)"
    "\<And>j. ts_state (slots1 ! j) = (if j = i then TR_TASK_QUEUED else ts_state (ex_slots ex ! j))"
    "\<And>j. ts_generation (slots1 ! j) = (if j = i then ?g + 1 else ts_generation (ex_slots ex ! j))"
    using i(1) by (simp_all add: slots1_def nth_list_update)
  obtain slots' head tail where e: "tr_task_enqueue slots1 (ex_pending_head ex) (ex_pending_tail ex) (ex_free_head ex) = (slots', head, tail)"
    by (metis prod_cases3)
  have u: "unat (ex_free_head ex) = i" using l by blast
  have g: "?g \<noteq> UINT64_MAX" and ex': "ex' = ex\<lparr>ex_free_head := ts_next (ex_slots ex ! i), ex_slots := slots', ex_pending_head := head, ex_pending_tail := tail,
      ex_stats := (ex_stats ex)\<lparr>es_queued := es_queued (ex_stats ex) + 1, es_outstanding := es_outstanding (ex_stats ex) + 1\<rparr>\<rparr>"
    and h: "h = task_handle ex' (ex_free_head ex)"
    using assms(3) e u ok(2)
    by (auto simp: tr_task_executor_submit_def tr_task_generation_next_def Let_def ex_set_slot_def ex_slot_def slots1_def split: if_splits)
  have iP: "i \<notin> set P" using i(2) t(7) by simp
  have qP: "queued slots1 (ex_pending_head ex) (ex_pending_tail ex) P" by (rule queued_cong [OF t(6)]) (simp_all add: s1)
  note ee = task_enqueue_effect [OF qP _ _ iP e [unfolded l [THEN conjunct1]], unfolded s1(1), OF i(1) t(2)]
  have st: "ts_state (slots' ! j) = ts_state (slots1 ! j)" "ts_generation (slots' ! j) = ts_generation (slots1 ! j)" for j
    using ee(3) [of j] by auto
  have m: "moved ex i TR_TASK_QUEUED (?g + 1) ex'" using i(1) t(2) ee(2) st s1 by (simp add: moved_def ex')
  note s = moved_in_state [OF m]
  have F': "i \<notin> set F'" "set F' = in_state ex TR_TASK_FREE - {i}" using t(4,5) F(1) by auto
  have out: "set F' \<inter> insert i (set P) = {}" "set C \<inter> insert i (set P) = {}"
    using i(2) F' t(9) by (auto simp: t(7) in_state_def)
  have nx: "ts_next (slots' ! j) = ts_next (ex_slots ex ! j)" if "j \<notin> insert i (set P)" for j using ee(4) [OF that] s1(2) by simp
  have "chain (follow slots') (follow (ex_slots ex) i) F'"
    by (rule follow_chain [OF F(2)]) (use nx out(1) in blast)
  moreover have "queued slots' (ex_complete_head ex) (ex_complete_tail ex) C"
    by (rule queued_cong [OF t(8) ee(2)]) (use nx out(2) in blast)
  ultimately have tab: "table_ok ex' F' (P @ [i]) C D"
    using t ee(1,2) i(2) F F' unfolding table_ok_def s by (simp add: ex' follow_def)
  have "length P < 2 ^ 32" "length (ex_slots ex) < 2 ^ 32" using card_running [OF assms(1,2)] t(2) by simp_all
  then have "counts_ok ex' F' (P @ [i]) C D"
    using assms(2) i(2) F(1) ee(2) unfolding counts_ok_def s by (simp add: ex' unat_inc)
  then show thesis using that [OF F(1) m g tab] ok(1) h l by (simp add: frame_def ex' handle_at_def)
qed

section \<open>Worker threads\<close>

definition alive :: "worker_pc list \<Rightarrow> nat" where
  "alive ws = length (filter (\<lambda>pc. pc \<noteq> Ended) ws)"

lemma ws_update:
  assumes "k < length ws"
  obtains us vs where "ws = us @ ws ! k # vs" "\<And>pc. ws[k := pc] = us @ pc # vs"
  using assms id_take_nth_drop [of k ws] upd_conv_take_nth_drop [of k ws] by metis

lemma workers_parts:
  assumes "workers_ok ex ws P"
  shows "distinct (concat (map working_on ws))" "set (concat (map working_on ws)) = in_state ex TR_TASK_RUNNING"
    "unat (es_workers_alive (ex_stats ex)) = alive ws" "Ended \<in> set ws \<Longrightarrow> executor_stopped (ex_state ex) \<and> P = []"
    "unat (ex_started ex) = length ws" "ex_started ex \<le> ex_workers ex" "ex_workers ex \<noteq> 0"
    "ex_state ex = TR_EXECUTOR_NEW \<Longrightarrow> ws = [] \<and> P = []" "ex_state ex \<noteq> TR_EXECUTOR_STARTING"
    "ex_state ex = TR_EXECUTOR_OPEN \<Longrightarrow> ws \<noteq> []" "ex_state ex = TR_EXECUTOR_JOINED \<Longrightarrow> alive ws = 0" "ws = [] \<Longrightarrow> P = []"
  using assms unfolding workers_ok_def alive_def by (blast | simp)+

lemma workers_okI:
  assumes "distinct (concat (map working_on ws))" "set (concat (map working_on ws)) = in_state ex TR_TASK_RUNNING"
    "unat (es_workers_alive (ex_stats ex)) = alive ws" "Ended \<in> set ws \<Longrightarrow> executor_stopped (ex_state ex) \<and> P = []"
    "unat (ex_started ex) = length ws" "ex_started ex \<le> ex_workers ex" "ex_workers ex \<noteq> 0"
    "ex_state ex = TR_EXECUTOR_NEW \<Longrightarrow> ws = [] \<and> P = []" "ex_state ex \<noteq> TR_EXECUTOR_STARTING"
    "ex_state ex = TR_EXECUTOR_OPEN \<Longrightarrow> ws \<noteq> []" "ex_state ex = TR_EXECUTOR_JOINED \<Longrightarrow> alive ws = 0" "ws = [] \<Longrightarrow> P = []"
  shows "workers_ok ex ws P"
  using assms unfolding workers_ok_def alive_def by simp

lemma workers_frame:
  assumes "workers_ok ex ws P" and "frame ex ex'" and "in_state ex' TR_TASK_RUNNING = in_state ex TR_TASK_RUNNING"
  shows "workers_ok ex' ws P"
  using assms unfolding workers_ok_def frame_def by simp

lemma workers_view:
  assumes "workers_ok ex ws P" and "frame ex ex'" and "same_view ex ex'"
  shows "workers_ok ex' ws P"
  using assms same_view_in_state by (blast intro: workers_frame)

lemma worker_step:
  assumes "exec_inv ex ws l" and "k < length ws" and "tr_task_worker status (ws ! k, ex) = (pc, ex', note)"
  shows "exec_inv ex' (ws[k := pc]) (log_worker (ws ! k) pc ex' l)"
proof -
  obtain F P C D where i: "table_ok ex F P C D" "counts_ok ex F P C D" "log_ok ex l P C D" "workers_ok ex ws P"
    using assms(1) by (auto simp: exec_inv_def)
  note t = table_parts [OF i(1)] and w = workers_parts [OF i(4)]
  obtain us vs where ws: "ws = us @ ws ! k # vs" "\<And>pc. ws[k := pc] = us @ pc # vs" by (rule ws_update [OF assms(2)]) (rule that)
  show ?thesis
  proof (cases "ws ! k")
    case Waiting
    have live: "alive ws = alive us + 1 + alive vs" by (subst ws(1)) (simp add: Waiting alive_def)
    have cc: "concat (map working_on ws) = concat (map working_on us) @ concat (map working_on vs)"
      by (subst ws(1)) (simp add: Waiting)
    consider (sleep) "ex_pending_head ex = TR_TASK_END" "ex_state ex \<noteq> TR_EXECUTOR_STOPPING" "pc = Waiting" "ex' = ex"
      | (ends) "ex_pending_head ex = TR_TASK_END" "ex_state ex = TR_EXECUTOR_STOPPING" "pc = Ended"
          "ex' = ex\<lparr>ex_stats := (ex_stats ex)\<lparr>es_workers_alive := es_workers_alive (ex_stats ex) - 1\<rparr>\<rparr>"
      | (take) index where "ex_pending_head ex \<noteq> TR_TASK_END" "worker_take ex = (index, ex')" "pc = Working index"
      using assms(3) Waiting by (auto split: if_splits prod.splits)
    then show ?thesis
    proof cases
      case sleep
      moreover have "ws[k := Waiting] = ws" using Waiting by (metis list_update_id)
      ultimately show ?thesis using assms(1) Waiting by simp
    next
      case ends
      then have P: "P = []" using t(6) by (cases P) (auto simp: queued_def)
      have v: "same_view ex ex'" "D \<noteq> [] \<Longrightarrow> ex_dispatching ex'" using t(13) by (simp_all add: same_view_def ends(4))
      note sv = same_view_ok [OF v(1) i(1,3,2) v(2)]
      have "workers_ok ex' (us @ Ended # vs) P"
      proof (rule workers_okI)
        show "distinct (concat (map working_on (us @ Ended # vs)))"
          "set (concat (map working_on (us @ Ended # vs))) = in_state ex' TR_TASK_RUNNING"
          using w(1,2) same_view_in_state [OF v(1)] unfolding cc by simp_all
        show "unat (es_workers_alive (ex_stats ex')) = alive (us @ Ended # vs)"
          using w(3) live by (simp add: ends(4) unat_dec alive_def)
        show "unat (ex_started ex') = length (us @ Ended # vs)" using w(5) arg_cong [OF ws(1), of length] by (simp add: ends(4))
      qed (use P w ends in simp_all)
      then show ?thesis using sv Waiting ws(2) ends(3) unfolding exec_inv_def by auto
    next
      case take
      obtain j P' where s: "P = j # P'" "index = of_nat j" "unat index = j" "moved ex j TR_TASK_RUNNING (ts_generation (ex_slots ex ! j)) ex'"
        "table_ok ex' F P' C D" "counts_ok ex' F P' C D" "frame ex ex'" by (rule take_step [OF i(1,2) take(1,2)])
      have lg: "log_ok ex' (l\<lparr>tl_started := tl_started l @ [handle_at ex j]\<rparr>) P' C D"
        by (rule log_take) (use i(3) s(1,4) t(7,16,17) in simp_all)
      have jn: "j < length (ex_slots ex)" using t(15) s(1) by simp
      have same: "handle_at ex' j = handle_at ex j" using moved_handle [OF s(4) jn] by simp
      have "j \<in> in_state ex TR_TASK_QUEUED" unfolding t(7) [symmetric] s(1) by simp
      then have jR: "j \<notin> in_state ex TR_TASK_RUNNING" "in_state ex' TR_TASK_RUNNING = insert j (in_state ex TR_TASK_RUNNING)"
        using moved_in_state [OF s(4), of TR_TASK_RUNNING] by (simp_all add: in_state_def)
      have fr: "ex_state ex' = ex_state ex" "ex_started ex' = ex_started ex" "ex_workers ex' = ex_workers ex"
        "es_workers_alive (ex_stats ex') = es_workers_alive (ex_stats ex)" using s(7) by (simp_all add: frame_def)
      have noend: "Ended \<notin> set ws" using w(4) s(1) by auto
      have "workers_ok ex' (us @ Working index # vs) P'"
      proof (rule workers_okI)
        show "distinct (concat (map working_on (us @ Working index # vs)))"
          "set (concat (map working_on (us @ Working index # vs))) = in_state ex' TR_TASK_RUNNING"
          using w(1,2) jR s(3) unfolding cc by auto
        show "unat (es_workers_alive (ex_stats ex')) = alive (us @ Working index # vs)"
          using w(3) live by (simp add: fr alive_def)
        show "unat (ex_started ex') = length (us @ Working index # vs)" using w(5) arg_cong [OF ws(1), of length] by (simp add: fr)
        show "executor_stopped (ex_state ex') \<and> P' = []" if "Ended \<in> set (us @ Working index # vs)"
          using that noend ws(1) by (metis UnCI UnE list.set_intros(2) set_ConsD set_append worker_pc.distinct(5))
        show "alive (us @ Working index # vs) = 0" if "ex_state ex' = TR_EXECUTOR_JOINED"
          using that w(11) live by (simp add: fr)
        show "us @ Working index # vs = [] \<and> P' = []" if "ex_state ex' = TR_EXECUTOR_NEW" using that w(8) s(1) by (simp add: fr)
      qed (use w fr in simp_all)
      then show ?thesis using s(2,5,6) lg Waiting ws(2) take(3) same unfolding exec_inv_def by (auto simp: handle_at_def)
    qed
  next
    case (Working index)
    then have ex': "ex' = worker_commit index status ex" "pc = Waiting" using assms(3) by simp_all
    have cc: "concat (map working_on ws) = concat (map working_on us) @ unat index # concat (map working_on vs)"
      by (subst ws(1)) (simp add: Working)
    define j where "j = unat index"
    have ij: "index = of_nat j" by (simp add: j_def)
    have jR: "j \<in> in_state ex TR_TASK_RUNNING" using w(2) cc by (auto simp: j_def)
    note s = commit_step [OF i(1,2) jR ex'(1) [unfolded ij]]
    have lg: "log_ok ex' (l\<lparr>tl_finished := tl_finished l @ [handle_at ex j]\<rparr>) P (C @ [j]) D"
      by (rule log_commit [OF i(3) s(1) jR t(15-17)])
    have jn: "j < length (ex_slots ex)" using jR by (simp add: in_state_def)
    have same: "handle_at ex' j = handle_at ex j" using moved_handle [OF s(1) jn] by simp
    have R': "in_state ex' TR_TASK_RUNNING = in_state ex TR_TASK_RUNNING - {j}" using moved_in_state [OF s(1), of TR_TASK_RUNNING] by simp
    have fr: "ex_state ex' = ex_state ex" "ex_started ex' = ex_started ex" "ex_workers ex' = ex_workers ex"
      "es_workers_alive (ex_stats ex') = es_workers_alive (ex_stats ex)" using s(4) by (simp_all add: frame_def)
    have live: "alive ws = alive us + 1 + alive vs" by (subst ws(1)) (simp add: Working alive_def)
    have "workers_ok ex' (us @ Waiting # vs) P"
    proof (rule workers_okI)
      show "distinct (concat (map working_on (us @ Waiting # vs)))" "set (concat (map working_on (us @ Waiting # vs))) = in_state ex' TR_TASK_RUNNING"
        using w(1) unfolding R' w(2) [symmetric] cc by (auto simp: j_def)
      show "unat (es_workers_alive (ex_stats ex')) = alive (us @ Waiting # vs)" using w(3) live by (simp add: fr alive_def)
      show "unat (ex_started ex') = length (us @ Waiting # vs)" using w(5) arg_cong [OF ws(1), of length] by (simp add: fr)
      show "executor_stopped (ex_state ex') \<and> P = []" if "Ended \<in> set (us @ Waiting # vs)"
      proof -
        have "Ended \<in> set ws" using that by (subst ws(1)) auto
        then show ?thesis using w(4) by (simp add: fr)
      qed
      show "alive (us @ Waiting # vs) = 0" if "ex_state ex' = TR_EXECUTOR_JOINED" using that w(11) live by (simp add: fr)
      show "us @ Waiting # vs = [] \<and> P = []" if "ex_state ex' = TR_EXECUTOR_NEW" using that w(8) assms(2) by (auto simp: fr)
    qed (use w fr in simp_all)
    then show ?thesis using s(2,3) lg Working ws(2) ex'(2) same unfolding exec_inv_def by (auto simp: handle_at_def ij)
  next
    case Ended
    moreover from this have "ws[k := Ended] = ws" by (metis list_update_id)
    ultimately show ?thesis using assms(1,3) by auto
  qed
qed

section \<open>Every step keeps the invariant\<close>

lemma exec_inv_view:
  assumes "exec_inv ex ws l" and "same_view ex ex'" and "frame ex ex'"
  shows "exec_inv ex' ws l"
proof -
  obtain F P C D where i: "table_ok ex F P C D" "counts_ok ex F P C D" "log_ok ex l P C D" "workers_ok ex ws P"
    using assms(1) by (auto simp: exec_inv_def)
  have "D \<noteq> [] \<Longrightarrow> ex_dispatching ex'" using table_parts(13) [OF i(1)] assms(3) by (simp add: frame_def)
  from same_view_ok [OF assms(2) i(1,3,2) this] workers_view [OF i(4) assms(3,2)] show ?thesis unfolding exec_inv_def by blast
qed

lemma new_slots_nth:
  "i < unat n \<Longrightarrow> new_slots n ! i = task_slot_zero\<lparr>ts_next := if i + 1 < unat n then of_nat (i + 1) else TR_TASK_END\<rparr>"
  by (simp add: new_slots_def)

lemma new_chain:
  assumes "unat n < 2 ^ 32 - 1" and "k \<le> unat n"
  shows "chain (follow (new_slots n)) (if k < unat n then Some k else None) [k..<unat n]"
  using assms(2)
proof (induction "unat n - k" arbitrary: k)
  case 0
  then show ?case by simp
next
  case (Suc m)
  then have k: "k < unat n" by linarith
  have "follow (new_slots n) k = (if Suc k < unat n then Some (Suc k) else None)"
    using k assms(1) by (simp add: follow_def new_slots_nth del: of_nat_Suc)
  moreover have "chain (follow (new_slots n)) (if Suc k < unat n then Some (Suc k) else None) [Suc k..<unat n]"
    using Suc.hyps(1) [of "Suc k"] Suc.hyps(2) k by simp
  ultimately show ?case using k by (simp add: upt_rec [of k])
qed

lemma create_inv:
  assumes "tr_task_executor_create env self instances st config (Some b) (Some None) = (TR_OK, instances', st', Some (Some ex))"
  shows "exec_inv ex [] \<lparr>tl_accepted = [], tl_started = [], tl_finished = [], tl_delivered = []\<rparr>"
proof -
  obtain c bytes inst where ex: "ex = new_executor self b bytes inst c" and c: "ec_workers c \<noteq> 0" "ec_capacity c \<noteq> 0" "\<not> ucast TR_TASK_END \<le> ec_capacity c"
    using assms by (auto simp: tr_task_executor_create_def Let_def split: option.splits if_splits prod.splits)
  let ?n = "unat (ec_capacity c)"
  have n: "?n < 2 ^ 32 - 1" "0 < ?n" using c(2,3) by (simp_all add: word_le_nat_alt word_neq_0_unat)
  have len: "length (ex_slots ex) = ?n" by (simp add: ex new_executor_def new_slots_def)
  have st: "in_state ex s = (if s = TR_TASK_FREE then {..<?n} else {})" for s
    using len by (auto simp: in_state_def ex new_executor_def new_slots_nth task_slot_zero_def)
  have "chain (follow (new_slots (ec_capacity c))) (Some 0) [0..<?n]" using new_chain [OF n(1), of 0] n(2) by simp
  then have "table_ok ex [0..<?n] [] [] []"
    using n len st by (auto simp: table_ok_def ex new_executor_def link_def queued_def new_slots_def lessThan_atLeast0)
  moreover have "counts_ok ex [0..<?n] [] [] []" using len by (simp add: counts_ok_def st) (simp add: ex new_executor_def)
  moreover have "log_ok ex \<lparr>tl_accepted = [], tl_started = [], tl_finished = [], tl_delivered = []\<rparr> [] [] []" by (simp add: log_ok_def st)
  moreover have "workers_ok ex [] []" using c(1) by (simp add: workers_ok_def st) (simp add: ex new_executor_def)
  ultimately show ?thesis unfolding exec_inv_def by blast
qed

lemma start_loop_effect:
  assumes "start_loop created ex = (ret, ex')" and "ex_started ex \<le> ex_workers ex" and "unat (es_workers_alive (ex_stats ex)) = unat (ex_started ex)"
  shows "\<exists>a. ex' = ex\<lparr>ex_started := a, ex_stats := (ex_stats ex)\<lparr>es_workers_alive := a\<rparr>\<rparr> \<and> ex_started ex \<le> a \<and> a \<le> ex_workers ex \<and>
    (ret = TR_OK \<longrightarrow> a = ex_workers ex) \<and> (ret = TR_OK \<or> ret = TR_ERR_SYS)"
  using assms
proof (induction created arbitrary: ex)
  case Nil
  have "es_workers_alive (ex_stats ex) = ex_started ex" using Nil(3) by (simp add: word_unat_eq_iff)
  then show ?case using Nil by (intro exI [of _ "ex_started ex"]) (auto simp: start_loop.simps [of "[]"] split: if_splits)
next
  case (Cons c created)
  have al: "es_workers_alive (ex_stats ex) = ex_started ex" using Cons(4) by (simp add: word_unat_eq_iff)
  show ?case
  proof (cases "ex_workers ex \<le> ex_started ex \<or> \<not> c")
    case True
    then show ?thesis using Cons(2,3) al by (intro exI [of _ "ex_started ex"]) (auto simp: start_loop.simps [of "c # created"] split: if_splits)
  next
    case False
    let ?ex = "ex\<lparr>ex_started := ex_started ex + 1, ex_stats := (ex_stats ex)\<lparr>es_workers_alive := es_workers_alive (ex_stats ex) + 1\<rparr>\<rparr>"
    have lt: "unat (ex_started ex) < unat (ex_workers ex)" using False by (simp add: word_le_nat_alt)
    then have inc: "unat (ex_started ex + 1) = unat (ex_started ex) + 1"
      using unat_lt_2p [of "ex_workers ex"] by (intro unat_Suc_less [of _ "unat (ex_workers ex)"]) simp_all
    have "start_loop created ?ex = (ret, ex')" using Cons(2) False by (simp add: start_loop.simps [of "c # created"])
    from Cons.IH [OF this] al inc lt obtain a where a: "ex' = ?ex\<lparr>ex_started := a, ex_stats := (ex_stats ?ex)\<lparr>es_workers_alive := a\<rparr>\<rparr>"
      "ex_started ex + 1 \<le> a" "a \<le> ex_workers ex" "ret = TR_OK \<longrightarrow> a = ex_workers ex" "ret = TR_OK \<or> ret = TR_ERR_SYS"
      by (auto simp: word_le_nat_alt)
    then show ?thesis using inc by (intro exI [of _ a]) (simp add: word_le_nat_alt)
  qed
qed

lemma start_inv:
  assumes "exec_inv ex ws l" and "tr_task_executor_start self created (Some ex) = (ret, Some ex')"
  shows "exec_inv ex' (ws @ replicate (unat (ex_started ex' - ex_started ex)) Waiting) l"
proof (cases "self = ex_owner ex \<and> ex_state ex = TR_EXECUTOR_NEW")
  case False
  then have "ex' = ex" using assms(2) by (auto simp: tr_task_executor_start_def split: if_splits)
  then show ?thesis using assms(1) by simp
next
  case True
  obtain F P C D where i: "table_ok ex F P C D" "counts_ok ex F P C D" "log_ok ex l P C D" "workers_ok ex ws P"
    using assms(1) by (auto simp: exec_inv_def)
  note t = table_parts [OF i(1)] and w = workers_parts [OF i(4)]
  have ws: "ws = []" "P = []" using w(8) True by auto
  obtain r e where l: "start_loop created (ex\<lparr>ex_state := TR_EXECUTOR_STARTING\<rparr>) = (r, e)" by fastforce
  have z: "ex_started ex = 0" "es_workers_alive (ex_stats ex) = 0" using w(3,5) ws(1) by (simp_all add: alive_def unat_eq_0)
  obtain a where a: "e = ex\<lparr>ex_state := TR_EXECUTOR_STARTING, ex_started := a, ex_stats := (ex_stats ex)\<lparr>es_workers_alive := a\<rparr>\<rparr>"
    "a \<le> ex_workers ex" "r = TR_OK \<longrightarrow> a = ex_workers ex" using start_loop_effect [OF l] z by auto
  have ex': "ex' = ex\<lparr>ex_started := a, ex_state := if r = TR_OK then TR_EXECUTOR_OPEN else TR_EXECUTOR_STOPPING,
      ex_stats := (ex_stats ex)\<lparr>es_workers_alive := a, es_accepting := (r = TR_OK)\<rparr>\<rparr>"
    using assms(2) True l a(1) by (auto simp: tr_task_executor_start_def Let_def)
  have v: "same_view ex ex'" "D \<noteq> [] \<Longrightarrow> ex_dispatching ex'" using t(13) by (simp_all add: same_view_def ex')
  note sv = same_view_ok [OF v(1) i(1,3,2) v(2)]
  have R: "in_state ex' TR_TASK_RUNNING = {}" using w(2) ws(1) same_view_in_state [OF v(1)] by simp
  have "workers_ok ex' (replicate (unat a) Waiting) P"
  proof (rule workers_okI)
    show "distinct (concat (map working_on (replicate (unat a) Waiting)))"
      "set (concat (map working_on (replicate (unat a) Waiting))) = in_state ex' TR_TASK_RUNNING"
      using R by (simp_all add: concat_replicate_trivial)
    show "replicate (unat a) Waiting \<noteq> []" if "ex_state ex' = TR_EXECUTOR_OPEN"
      using that a(3) w(7) by (auto simp: ex' word_neq_0_unat split: if_splits)
  qed (use a ws w in \<open>auto simp: ex' alive_def split: if_splits\<close>)
  moreover have eq: "ws @ replicate (unat (ex_started ex' - ex_started ex)) Waiting = replicate (unat a) Waiting" by (simp add: ex' ws(1) z(1))
  ultimately show ?thesis unfolding eq exec_inv_def using sv by blast
qed

lemma submit_inv:
  assumes "exec_inv ex ws l" and "tr_task_executor_submit (Some ex) (Some spec) (Some h0) = (ret, Some ex', Some h)"
  shows "exec_inv ex' ws (if ret = TR_OK then l\<lparr>tl_accepted := tl_accepted l @ [h]\<rparr> else l)"
proof (cases "ret = TR_OK")
  case False
  then have "ex' = ex" using assms(2) by (auto simp: tr_task_executor_submit_def Let_def split: if_splits prod.splits)
  then show ?thesis using assms(1) False by simp
next
  case True
  obtain F P C D where i: "table_ok ex F P C D" "counts_ok ex F P C D" "log_ok ex l P C D" "workers_ok ex ws P"
    using assms(1) by (auto simp: exec_inv_def)
  note t = table_parts [OF i(1)] and w = workers_parts [OF i(4)]
  obtain j F' where s: "F = j # F'" "moved ex j TR_TASK_QUEUED (ts_generation (ex_slots ex ! j) + 1) ex'"
    "ts_generation (ex_slots ex ! j) \<noteq> UINT64_MAX" "table_ok ex' F' (P @ [j]) C D" "counts_ok ex' F' (P @ [j]) C D" "frame ex ex'"
    "h = handle_at ex' j" "ex_state ex = TR_EXECUTOR_OPEN" by (rule submit_step [OF i(1,2) assms(2) [unfolded True]])
  have j: "j \<in> in_state ex TR_TASK_FREE" unfolding t(5) [symmetric] s(1) by simp
  have lg: "log_ok ex' (l\<lparr>tl_accepted := tl_accepted l @ [handle_at ex' j]\<rparr>) (P @ [j]) C D"
    by (rule log_submit [OF i(3) s(2,3) j t(7,9,11)])
  have R: "in_state ex' TR_TASK_RUNNING = in_state ex TR_TASK_RUNNING"
    using moved_in_state [OF s(2), of TR_TASK_RUNNING] j by (auto simp: in_state_def)
  have fr: "ex_state ex' = TR_EXECUTOR_OPEN" "ex_started ex' = ex_started ex" "ex_workers ex' = ex_workers ex"
    "es_workers_alive (ex_stats ex') = es_workers_alive (ex_stats ex)" using s(6,8) by (simp_all add: frame_def)
  have "workers_ok ex' ws (P @ [j])"
    by (rule workers_okI) (use w s(8) R fr in auto)
  then show ?thesis using s(4,5,7) lg True unfolding exec_inv_def by auto
qed

lemma workers_restate:
  assumes "workers_ok ex ws P" and "executor_stopped s" and "s = TR_EXECUTOR_JOINED \<Longrightarrow> alive ws = 0"
    and "ex_state ex' = s" "ex_started ex' = ex_started ex" "ex_workers ex' = ex_workers ex"
    "es_workers_alive (ex_stats ex') = es_workers_alive (ex_stats ex)" "in_state ex' TR_TASK_RUNNING = in_state ex TR_TASK_RUNNING"
  shows "workers_ok ex' ws P"
  by (rule workers_okI) (use workers_parts [OF assms(1)] assms(2-) in auto)

lemma exec_inv_restate:
  assumes "exec_inv ex ws l" and "same_view ex ex'" and "ex_dispatching ex' = ex_dispatching ex" and "executor_stopped (ex_state ex')"
    and "ex_state ex' = TR_EXECUTOR_JOINED \<Longrightarrow> es_workers_alive (ex_stats ex) = 0"
    and "ex_started ex' = ex_started ex" "ex_workers ex' = ex_workers ex" "es_workers_alive (ex_stats ex') = es_workers_alive (ex_stats ex)"
  shows "exec_inv ex' ws l"
proof -
  obtain F P C D where i: "table_ok ex F P C D" "counts_ok ex F P C D" "log_ok ex l P C D" "workers_ok ex ws P"
    using assms(1) by (auto simp: exec_inv_def)
  have "D \<noteq> [] \<Longrightarrow> ex_dispatching ex'" using table_parts(13) [OF i(1)] assms(3) by simp
  note sv = same_view_ok [OF assms(2) i(1,3,2) this]
  have "workers_ok ex' ws P"
    by (rule workers_restate [OF i(4) assms(4) _ refl assms(6-8) same_view_in_state [OF assms(2)]])
      (use assms(5) workers_parts(3) [OF i(4)] in simp)
  then show ?thesis using sv unfolding exec_inv_def by blast
qed

lemma stop_inv:
  assumes "exec_inv ex ws l" and "tr_task_executor_stop (Some ex) mode = (ret, Some ex')"
  shows "exec_inv ex' ws l"
proof -
  obtain F P C D where i: "table_ok ex F P C D" "workers_ok ex ws P" using assms(1) by (auto simp: exec_inv_def)
  have n: "unat (es_capacity (ex_stats ex)) = length (ex_slots ex)" using table_parts(1) [OF i(1)] by simp
  have rc: "ts_state (request_cancel s) = ts_state s" "ts_next (request_cancel s) = ts_next s" "ts_generation (request_cancel s) = ts_generation s" for s
    by (simp_all add: request_cancel_def)
  show ?thesis
  proof (cases "ret = TR_OK")
    case True
    then have ex': "ex' = ex\<lparr>ex_state := if ex_state ex \<noteq> TR_EXECUTOR_JOINED then TR_EXECUTOR_STOPPING else TR_EXECUTOR_JOINED,
        ex_stats := (ex_stats ex)\<lparr>es_accepting := False\<rparr>,
        ex_slots := if mode = TR_TASK_CANCEL then map request_cancel (ex_slots ex) else ex_slots ex\<rparr>"
      using assms(2) by (auto simp: tr_task_executor_stop_def Let_def n split: if_splits)
    have "ex_state ex = TR_EXECUTOR_JOINED \<Longrightarrow> es_workers_alive (ex_stats ex) = 0"
      using workers_parts(3,11) [OF i(2)] by (simp add: unat_eq_0)
    then show ?thesis
      by (intro exec_inv_restate [OF assms(1)]) (auto simp: ex' same_view_def rc split: if_splits)
  next
    case False
    then have "ex' = ex" using assms(2) by (auto simp: tr_task_executor_stop_def Let_def split: if_splits)
    then show ?thesis using assms(1) by simp
  qed
qed

lemma join_loop_effect: "join_loop joins ex = (ret, ex') \<Longrightarrow> \<exists>a. ex' = ex\<lparr>ex_joined := a\<rparr>"
proof (induction joins arbitrary: ex)
  case Nil
  then show ?case by (intro exI [of _ "ex_joined ex"]) (simp add: join_loop.simps [of "[]"] split: if_splits)
next
  case (Cons j joins)
  show ?case
  proof (cases "ex_started ex \<le> ex_joined ex \<or> \<not> j")
    case True
    then show ?thesis using Cons.prems by (intro exI [of _ "ex_joined ex"]) (auto simp: join_loop.simps [of "j # joins"] split: if_splits)
  next
    case False
    then have "join_loop joins (ex\<lparr>ex_joined := ex_joined ex + 1\<rparr>) = (ret, ex')" using Cons.prems by (simp add: join_loop.simps [of "True # joins"])
    from Cons.IH [OF this] show ?thesis by auto
  qed
qed

lemma join_inv:
  assumes "exec_inv ex ws l" and "tr_task_executor_join self joins (Some ex) = (ret, Some ex')"
  shows "exec_inv ex' ws l"
proof (cases "ex' = ex")
  case False
  then have g: "executor_stopped (ex_state ex)" "es_workers_alive (ex_stats ex) = 0"
    using assms(2) by (auto simp: tr_task_executor_join_def split: if_splits)
  obtain r e where j: "join_loop joins ex = (r, e)" by fastforce
  then obtain a where a: "e = ex\<lparr>ex_joined := a\<rparr>" using join_loop_effect by blast
  have "ex' = ex\<lparr>ex_joined := a, ex_state := if r \<noteq> TR_OK then ex_state ex else TR_EXECUTOR_JOINED\<rparr>"
    using assms(2) False j a by (auto simp: tr_task_executor_join_def split: if_splits)
  then show ?thesis using g by (intro exec_inv_restate [OF assms(1)]) (auto simp: same_view_def)
qed (use assms(1) in simp)

lemma nth_cancel_update:
  "i < length slots \<Longrightarrow> slots[k := (slots ! k)\<lparr>ts_cancel := b\<rparr>] ! i = (if i = k then (slots ! i)\<lparr>ts_cancel := b\<rparr> else slots ! i)"
  by (cases "i = k") simp_all

lemma cancel_view:
  assumes "tr_task_executor_cancel (Some ex) h = (ret, Some ex')"
  shows "same_view ex ex' \<and> frame ex ex'"
  using assms by (auto simp: tr_task_executor_cancel_def Let_def same_view_def frame_def ex_set_slot_def ex_slot_def nth_cancel_update split: if_splits)

lemma dispatch_sections_inv:
  assumes "exec_inv ex ws l"
  shows "\<not> ex_dispatching ex \<Longrightarrow> exec_inv (ex\<lparr>ex_dispatching := True\<rparr>) ws l"
    and "es_delivering (ex_stats ex) = 0 \<Longrightarrow> exec_inv (ex\<lparr>ex_dispatching := False\<rparr>) ws l"
    and "ex_dispatching ex \<Longrightarrow> es_delivering (ex_stats ex) = 0 \<Longrightarrow> ex_complete_head ex \<noteq> TR_TASK_END \<Longrightarrow>
      dispatch_take ex = (index, h, ex') \<Longrightarrow> exec_inv ex' ws l"
    and "unat index < length (ex_slots ex) \<Longrightarrow> ts_state (ex_slot ex index) = TR_TASK_DELIVERING \<Longrightarrow>
      exec_inv (dispatch_give_back index ex) ws (l\<lparr>tl_delivered := tl_delivered l @ [task_handle ex index]\<rparr>)"
proof -
  obtain F P C D where i: "table_ok ex F P C D" "counts_ok ex F P C D" "log_ok ex l P C D" "workers_ok ex ws P"
    using assms by (auto simp: exec_inv_def)
  note t = table_parts [OF i(1)]
  have flag: "exec_inv (ex\<lparr>ex_dispatching := b\<rparr>) ws l" if "D \<noteq> [] \<Longrightarrow> b" for b
  proof -
    have v: "same_view ex (ex\<lparr>ex_dispatching := b\<rparr>)" by (simp add: same_view_def)
    have "workers_ok (ex\<lparr>ex_dispatching := b\<rparr>) ws P" using i(4) same_view_in_state [OF v] by (simp add: workers_ok_def)
    then show ?thesis using same_view_ok [OF v i(1,3,2)] that unfolding exec_inv_def by auto
  qed
  show "exec_inv (ex\<lparr>ex_dispatching := True\<rparr>) ws l" by (rule flag) simp
  have D: "es_delivering (ex_stats ex) = 0 \<Longrightarrow> D = []" using i(2) by (auto simp: counts_ok_def)
  show "exec_inv (ex\<lparr>ex_dispatching := False\<rparr>) ws l" if "es_delivering (ex_stats ex) = 0" by (rule flag) (use that D in simp)
  show "exec_inv ex' ws l" if g: "ex_dispatching ex" "es_delivering (ex_stats ex) = 0" "ex_complete_head ex \<noteq> TR_TASK_END"
      "dispatch_take ex = (index, h, ex')"
  proof -
    have D': "D = []" using D g(2) .
    obtain j C' where s: "C = j # C'" "index = of_nat j" "unat index = j" "moved ex j TR_TASK_DELIVERING (ts_generation (ex_slots ex ! j)) ex'"
      "table_ok ex' F P C' [j]" "counts_ok ex' F P C' [j]" "frame ex ex'" "h = handle_at ex j"
      by (rule dtake_step [OF i(1,2) [unfolded D'] g(3,1,4)])
    have "log_ok ex' l P C' [j]" by (rule log_dtake) (use i(3) D' s(1,4) t(9,15) in simp_all)
    moreover have "j \<in> in_state ex TR_TASK_COMPLETED" unfolding t(9) [symmetric] s(1) by simp
    then have "in_state ex' TR_TASK_RUNNING = in_state ex TR_TASK_RUNNING" using moved_in_state [OF s(4), of TR_TASK_RUNNING] by (auto simp: in_state_def)
    ultimately show ?thesis using s(5,6) workers_frame [OF i(4) s(7)] unfolding exec_inv_def by blast
  qed
  show "exec_inv (dispatch_give_back index ex) ws (l\<lparr>tl_delivered := tl_delivered l @ [task_handle ex index]\<rparr>)"
    if g: "unat index < length (ex_slots ex)" "ts_state (ex_slot ex index) = TR_TASK_DELIVERING"
  proof -
    define j where "j = unat index"
    have ij: "index = of_nat j" by (simp add: j_def)
    have jD: "j \<in> in_state ex TR_TASK_DELIVERING" using g by (simp add: in_state_def j_def ex_slot_def)
    then have "j \<in> set D" using t(11) by simp
    then have D': "D = [j]" using t(12) by (cases D) auto
    note s = give_back_step [OF i(1,2) [unfolded D'] refl]
    have "log_ok (dispatch_give_back (of_nat j) ex) (l\<lparr>tl_delivered := tl_delivered l @ [handle_at ex j]\<rparr>) P C []"
      by (rule log_give_back [OF i(3) [unfolded D'] s(1) jD t(15,16)])
    moreover have "in_state (dispatch_give_back (of_nat j) ex) TR_TASK_RUNNING = in_state ex TR_TASK_RUNNING"
      using moved_in_state [OF s(1), of TR_TASK_RUNNING] jD by (auto simp: in_state_def)
    ultimately show ?thesis using s(2,3) workers_frame [OF i(4) s(4)] unfolding exec_inv_def ij handle_at_def by blast
  qed
qed

lemma exec_run_inv: "exec_run ex ws l \<Longrightarrow> exec_inv ex ws l"
proof (induction rule: exec_run.induct)
  case (set_notify ex ws l self notify arg ret ex')
  then have "same_view ex ex' \<and> frame ex ex'" by (auto simp: tr_task_executor_set_notify_def same_view_def frame_def split: if_splits)
  then show ?case using exec_inv_view set_notify.IH by blast
next
  case (cancel ex ws l h ret ex')
  then show ?case using exec_inv_view cancel_view by blast
next
  case (adopt ex ws l self in_worker ret ex')
  then have "same_view ex ex' \<and> frame ex ex'" by (auto simp: tr_task_executor_adopt_cleanup_def same_view_def frame_def split: if_splits)
  then show ?case using exec_inv_view adopt.IH by blast
qed (blast intro: create_inv start_inv submit_inv worker_step stop_inv join_inv dispatch_sections_inv)+

section \<open>Properties\<close>

lemma run_parts:
  assumes "exec_run ex ws l"
  obtains F P C D where "table_ok ex F P C D" "counts_ok ex F P C D" "log_ok ex l P C D" "workers_ok ex ws P"
  using exec_run_inv [OF assms] by (auto simp: exec_inv_def)

lemma started_length:
  assumes "table_ok ex F P C D" and "log_ok ex l P C D"
  shows "length (tl_started l) = length (tl_finished l) + card (in_state ex TR_TASK_RUNNING)"
proof -
  note p = log_parts [OF assms(2)]
  have "inj_on (handle_at ex) (in_state ex TR_TASK_RUNNING)"
    using table_parts(2) [OF assms(1)] by (intro inj_onI handle_inj) (auto simp: in_state_def)
  then have "card (handle_at ex ` in_state ex TR_TASK_RUNNING) = card (in_state ex TR_TASK_RUNNING)" by (rule card_image)
  moreover have "distinct (tl_started l)" using p(1,3) by simp
  ultimately show ?thesis
    using distinct_card [of "tl_started l"] distinct_card [OF p(4)] p(5,6) card_Un_disjoint [of "set (tl_finished l)" "handle_at ex ` in_state ex TR_TASK_RUNNING"]
    by simp
qed

text \<open>C3: in every interleaving of submissions, cancellations, worker steps, deliveries and shutdown, the work of every
  accepted task is started at most once and in the order of submission, its result is committed once
  and only after it was started, and its completion is delivered once and in the order of completion.
  The counters are exact: queued, running, completed and delivering tasks add up to the outstanding ones,
  which are the accepted minus the delivered and never exceed the capacity. Once nothing is outstanding
  every accepted task has been delivered, and once the executor is joined every accepted task has run.\<close>

theorem task_executor_exactly_once:
  assumes "exec_run ex ws l"
  shows "distinct (tl_accepted l) \<and> distinct (tl_finished l) \<and> set (tl_finished l) \<subseteq> set (tl_started l) \<and>
    tl_started l = take (length (tl_started l)) (tl_accepted l) \<and> tl_delivered l = take (length (tl_delivered l)) (tl_finished l) \<and>
    length (tl_accepted l) = length (tl_started l) + unat (es_queued (ex_stats ex)) \<and>
    length (tl_started l) = length (tl_finished l) + unat (es_running (ex_stats ex)) \<and>
    length (tl_finished l) = length (tl_delivered l) + unat (es_completed (ex_stats ex)) + unat (es_delivering (ex_stats ex)) \<and>
    length (tl_accepted l) = length (tl_delivered l) + unat (es_outstanding (ex_stats ex)) \<and>
    es_outstanding (ex_stats ex) \<le> es_capacity (ex_stats ex) \<and>
    (es_outstanding (ex_stats ex) = 0 \<longrightarrow> set (tl_delivered l) = set (tl_accepted l)) \<and>
    (ex_state ex = TR_EXECUTOR_JOINED \<longrightarrow> set (tl_finished l) = set (tl_accepted l))"
proof -
  obtain F P C D where i: "table_ok ex F P C D" "counts_ok ex F P C D" "log_ok ex l P C D" "workers_ok ex ws P"
    by (rule run_parts [OF assms])
  note p = log_parts [OF i(3)] and t = table_parts [OF i(1)] and w = workers_parts [OF i(4)]
  note c = i(2) [unfolded counts_ok_def] and sl = started_length [OF i(1,3)]
  have sum: "length (tl_accepted l) = length (tl_delivered l) + unat (es_outstanding (ex_stats ex))"
    using card_running [OF i(1,2)] c sl p(1,2) by simp
  have pre: "tl_started l = take (length (tl_started l)) (tl_accepted l)" "tl_delivered l = take (length (tl_delivered l)) (tl_finished l)"
    using p(1,2) by simp_all
  have all: "set (tl_delivered l) = set (tl_accepted l)" if "es_outstanding (ex_stats ex) = 0"
  proof (rule card_subset_eq [OF _ p(9)])
    have "distinct (tl_delivered l)" using p(2,4) by simp
    then show "card (set (tl_delivered l)) = card (set (tl_accepted l))" using that sum by (simp add: distinct_card p(3))
  qed simp
  have ran: "set (tl_finished l) = set (tl_accepted l)" if "ex_state ex = TR_EXECUTOR_JOINED"
  proof -
    have "alive ws = 0" using w(11) that .
    then have e: "\<forall>pc\<in>set ws. pc = Ended" by (auto simp: alive_def filter_empty_conv)
    then have "P = []" using w(4,12) by (cases ws) auto
    moreover have "in_state ex TR_TASK_RUNNING = {}" unfolding w(2) [symmetric] using e by auto
    ultimately show ?thesis using p(1,5) by simp
  qed
  have "unat (es_outstanding (ex_stats ex)) \<le> unat (es_capacity (ex_stats ex))" using c t(1) by linarith
  then show ?thesis
    using p(3,4,5) pre sum all ran c sl p(1,2) by (simp add: word_le_nat_alt)
qed









section \<open>Witnesses\<close>

definition task_sample_budget :: budgets where
  "task_sample_budget = (\<lambda>_. \<lparr>mb_limit_bytes = 4096, mb_parent = None, mb_current_bytes = 0, mb_peak_bytes = 0, mb_rejection_events = 0\<rparr>)"

definition task_sample_new :: tr_task_executor where
  "task_sample_new = the (the (snd (snd (snd (tr_task_executor_create
     \<lparr>ce_executor = True, ce_slots = True, ce_threads = True, ce_mutex = True, ce_cond = True\<rparr> 7 0 task_sample_budget
     (Some \<lparr>ec_workers = 1, ec_capacity = 2\<rparr>) (Some 0) (Some None))))))"

definition task_sample_open :: tr_task_executor where
  "task_sample_open = the (snd (tr_task_executor_start 7 [True] (Some task_sample_new)))"

definition task_sample_spec :: tr_task_spec where
  "task_sample_spec = \<lparr>sp_work = Some 1, sp_done = Some 2, sp_arg = None\<rparr>"

definition task_sample_handle :: tr_task_handle where
  "task_sample_handle = \<lparr>th_instance = 1, th_generation = 1, th_slot = 0\<rparr>"

definition task_sample :: tr_task_executor where
  "task_sample = the (fst (snd (tr_task_executor_submit (Some task_sample_open) (Some task_sample_spec) (Some task_sample_handle))))"

definition task_sample_taken :: tr_task_executor where
  "task_sample_taken = fst (snd (tr_task_worker 5 (Waiting, task_sample)))"

definition task_sample_done :: tr_task_executor where
  "task_sample_done = fst (snd (tr_task_worker 5 (Working 0, task_sample_taken)))"

definition task_sample_log :: task_log where
  "task_sample_log = \<lparr>tl_accepted = [task_sample_handle], tl_started = [task_sample_handle], tl_finished = [task_sample_handle], tl_delivered = []\<rparr>"

lemma task_sample_steps:
  "tr_task_executor_create \<lparr>ce_executor = True, ce_slots = True, ce_threads = True, ce_mutex = True, ce_cond = True\<rparr> 7 0 task_sample_budget
     (Some \<lparr>ec_workers = 1, ec_capacity = 2\<rparr>) (Some 0) (Some None) =
   (TR_OK, 1, task_sample_budget(0 := (task_sample_budget 0)\<lparr>mb_current_bytes := 392, mb_peak_bytes := 392\<rparr>), Some (Some task_sample_new))"
  "tr_task_executor_start 7 [True] (Some task_sample_new) = (TR_OK, Some task_sample_open)"
  "ex_started task_sample_open - ex_started task_sample_new = 1"
  "tr_task_executor_submit (Some task_sample_open) (Some task_sample_spec) (Some task_sample_handle) = (TR_OK, Some task_sample, Some task_sample_handle)"
  "tr_task_worker 5 (Waiting, task_sample) = (Working 0, task_sample_taken, None)"
  "tr_task_worker 5 (Working 0, task_sample_taken) = (Waiting, task_sample_done, None)"
  "task_handle task_sample_taken 0 = task_sample_handle" "task_handle task_sample_done 0 = task_sample_handle"
  "ex_owner task_sample_done = 7" "\<not> ex_dispatching task_sample_done" "es_completed (ex_stats task_sample_done) = 1"
  subgoal
    by (simp add: task_sample_new_def tr_task_executor_create_def task_sample_budget_def tr_task_instance_next_def
        tr_memory_budget_reserve_def tr_memory_budget_reserve_local_def Let_def)
  by code_simp+

lemma task_sample_run: "exec_run task_sample_done [Waiting] task_sample_log"
proof -
  have "exec_run task_sample_new [] \<lparr>tl_accepted = [], tl_started = [], tl_finished = [], tl_delivered = []\<rparr>"
    by (rule exec_run.create [OF task_sample_steps(1)])
  from exec_run.start [OF this task_sample_steps(2)]
  have "exec_run task_sample_open [Waiting] \<lparr>tl_accepted = [], tl_started = [], tl_finished = [], tl_delivered = []\<rparr>"
    by (simp add: task_sample_steps(3))
  from exec_run.submit [OF this task_sample_steps(4)]
  have r: "exec_run task_sample [Waiting] \<lparr>tl_accepted = [task_sample_handle], tl_started = [], tl_finished = [], tl_delivered = []\<rparr>" by simp
  from exec_run.worker [OF r, of 0 5 "Working 0" task_sample_taken None] task_sample_steps(5,7)
  have r: "exec_run task_sample_taken [Working 0] \<lparr>tl_accepted = [task_sample_handle], tl_started = [task_sample_handle], tl_finished = [], tl_delivered = []\<rparr>"
    by simp
  from exec_run.worker [OF r, of 0 5 Waiting task_sample_done None] task_sample_steps(6,8)
  show ?thesis by (simp add: task_sample_log_def)
qed

theorem task_executor_exactly_once_witness:
  "length (tl_finished task_sample_log) = 0 + unat (es_completed (ex_stats task_sample_done)) + unat (es_delivering (ex_stats task_sample_done))"
  using task_executor_exactly_once [OF task_sample_run] by (simp add: task_sample_log_def)



end
