(* ===== verification/Spec2Isabelle.thy ===== *)
theory Spec2Isabelle
  imports Tr_Wire Tr_Memory_Budget Tr_Refcount Tr_Deadline Tr_Command_Queue Tr_Completion_Queue Tr_Timer_Inv
    Tr_Rpc_Record Tr_Pipeline_Route Tr_Parser_Stream Tr_Task_Inv
begin

text \<open>
  Verification of c-trpc.
\<close>

end
